theory Spec2Isabelle
  imports Main "HOL-Library.Word"
begin

unbundle bit_operations_syntax

section \<open>Pages, the page file and return codes\<close>

text \<open>
  A page is a block of \<open>PAGE_SIZE\<close> bytes. The constant \<open>PAGE_SIZE\<close> is declared in a
  header that is not part of the sources at hand, so every operation below takes it as
  its first parameter \<open>ps\<close>. C \<open>int\<close> values that only count (pin counts, usage counters,
  I/O counters, page and slot numbers) are modelled as \<open>int\<close>: signed overflow is undefined
  in C, and the model agrees with the code wherever the code is defined.

  In particular \<open>pinPage\<close> and \<open>writeDirtyPageToDisk\<close> compute the byte offset
  \<open>pageNum * PAGE_SIZE\<close> of a block, and \<open>pinPage\<close> the page count \<open>pageNum + 1\<close>, in \<open>int\<close>.
  The definitions below give the block the code reaches while these values are
  representable; from page \<open>2^31 / PAGE_SIZE\<close> on the seek of the code fails and it reads or
  writes at another position of the file, which is not modelled. The theorems about
  \<open>shutdownBufferPool\<close> and about the record operations therefore have the hypothesis that
  the file, with the pages a call adds to it, is smaller than \<open>2^31\<close> bytes (\<open>fileFits\<close>), and
  bounds on the counters a call increments or decrements, so that they speak of the
  executions without overflow only.
\<close>

type_synonym byte = "8 word"
type_synonym page = "byte list"
type_synonym pagefile = "page list"

text \<open>
  The return codes used by the two modules. \<open>UNDEFINED_BEHAVIOUR\<close> is not a code of the
  program: it marks the executions in which the C code reads or writes outside a buffer
  or through a null pointer, where the program has no defined result.
\<close>

datatype RC = RC_OK | RC_ERROR | RC_FILE_NOT_FOUND | RC_MEMORY_ALLOCATION_ERROR
  | RC_READ_NON_EXISTING_PAGE | RC_RM_NO_MORE_TUPLES | UNDEFINED_BEHAVIOUR

datatype ReplacementStrategy = RS_FIFO | RS_LRU | RS_CLOCK | RS_LFU | RS_LRU_K

text \<open>
  Modelled from the spec: the page file provider (\<open>storage_mgr\<close>) is an external
  collaborator. A page file is the list of its blocks; \<open>createPageFile\<close> makes a file of
  exactly one zeroed page, \<open>ensureCapacity\<close> appends zeroed pages until the file has the
  requested number of pages, and the handle's \<open>totalNumPages\<close> is the length of the list.
  The file is assumed to exist and the provider's reads and writes to succeed.
\<close>

definition zeroPage :: "nat \<Rightarrow> page" where
  "zeroPage ps = replicate ps 0"

definition createPageFile :: "nat \<Rightarrow> pagefile" where
  "createPageFile ps = [zeroPage ps]"

definition ensureCapacity :: "nat \<Rightarrow> nat \<Rightarrow> pagefile \<Rightarrow> pagefile" where
  "ensureCapacity ps n disk = disk @ replicate (n - length disk) (zeroPage ps)"

text \<open>
  A file of fewer than \<open>2^31\<close> bytes: the offset \<open>pageNum * PAGE_SIZE\<close> of each of its
  blocks and its number of pages are representable in \<open>int\<close>.
\<close>

definition fileFits :: "nat \<Rightarrow> pagefile \<Rightarrow> bool" where
  "fileFits ps disk = (length disk * ps < 2 ^ 31)"

text \<open>
  \<open>fseek\<close> to block \<open>p\<close> followed by \<open>fread\<close> of \<open>PAGE_SIZE\<close> bytes into the frame, the
  remainder of a short read being cleared by \<open>memset\<close> (\<open>pinPage\<close>, lines 300 to 303).
\<close>

definition readBlock :: "nat \<Rightarrow> pagefile \<Rightarrow> nat \<Rightarrow> page" where
  "readBlock ps disk p =
     (if p < length disk then take ps (disk ! p @ zeroPage ps) else zeroPage ps)"

section \<open>The buffer pool (buffer_mgr.c)\<close>

text \<open>
  The frame's \<open>data\<close> pointer is null until the frame is first loaded; the empty list
  stands for the null pointer, a loaded frame holds \<open>PAGE_SIZE\<close> bytes.
\<close>

record PageFrame =
  data :: page
  pageNum :: int
  dirty :: bool
  fixCount :: int
  usage :: int

record BM_MgmtData =
  frames :: "PageFrame list"
  readIO :: int
  writeIO :: int
  clockPointer :: int

text \<open>\<open>mgmtData = None\<close> is the null pointer of a pool that is not initialised.\<close>

record BM_BufferPool =
  numPages :: nat
  strategy :: ReplacementStrategy
  mgmtData :: "BM_MgmtData option"

text \<open>
  A page handle carries the page number and the \<open>data\<close> pointer, which aliases the
  buffer of one frame: the pointer is modelled by the index of that frame.
\<close>

record BM_PageHandle =
  ph_pageNum :: int
  ph_data :: nat

definition initPageFrameArray :: "nat \<Rightarrow> PageFrame list" where
  "initPageFrameArray n =
     replicate n \<lparr>data = [], pageNum = -1, dirty = False, fixCount = 0, usage = 0\<rparr>"

definition initBufferPool :: "nat \<Rightarrow> ReplacementStrategy \<Rightarrow> BM_BufferPool" where
  "initBufferPool n strat =
     \<lparr>numPages = n, strategy = strat,
      mgmtData = Some \<lparr>frames = initPageFrameArray n, readIO = 0, writeIO = 0,
                       clockPointer = 0\<rparr>\<rparr>"

definition findPageFrame :: "BM_MgmtData \<Rightarrow> nat \<Rightarrow> int \<Rightarrow> nat option" where
  "findPageFrame mgmt n pn = find (\<lambda>i. pageNum (frames mgmt ! i) = pn) [0..<n]"

definition findFreeFrame :: "BM_MgmtData \<Rightarrow> nat \<Rightarrow> nat option" where
  "findFreeFrame mgmt n = find (\<lambda>i. pageNum (frames mgmt ! i) = -1) [0..<n]"

text \<open>
  One iteration of the loop of \<open>findVictimFrame\<close>: the pair is
  \<open>(victimIndex, leastUsage)\<close>, with \<open>None\<close> for the initial \<open>victimIndex = -1\<close>.
\<close>

definition victimStep :: "PageFrame list \<Rightarrow> nat \<Rightarrow> nat option \<times> int \<Rightarrow> nat option \<times> int" where
  "victimStep fs i acc =
     (if fixCount (fs ! i) = 0 \<and> usage (fs ! i) < snd acc then (Some i, usage (fs ! i))
      else acc)"

definition findVictimFrame :: "BM_BufferPool \<Rightarrow> BM_MgmtData \<Rightarrow> nat" where
  "findVictimFrame bm mgmt =
     (case fst (fold (victimStep (frames mgmt)) [0..<numPages bm] (None, 2147483647)) of
        None \<Rightarrow> 0
      | Some v \<Rightarrow> v)"

text \<open>
  \<open>writeDirtyPageToDisk\<close> seeks to the frame's block and writes the frame's buffer; a
  write past the end of the file extends it. A frame that was never loaded has a null
  buffer and page number \<open>-1\<close>: writing it is undefined. The seek goes to the offset
  \<open>pageNum * PAGE_SIZE\<close>, an \<open>int\<close> in the code: the block written is the frame's block as
  long as that product is representable.
\<close>

definition writeDirtyPageToDisk ::
  "nat \<Rightarrow> BM_MgmtData \<Rightarrow> pagefile \<Rightarrow> PageFrame \<Rightarrow> RC \<times> BM_MgmtData \<times> pagefile" where
  "writeDirtyPageToDisk ps mgmt disk pf =
     (if pageNum pf < 0 \<or> data pf = [] then (UNDEFINED_BEHAVIOUR, mgmt, disk)
      else (RC_OK, mgmt\<lparr>writeIO := writeIO mgmt + 1\<rparr>,
            (ensureCapacity ps (nat (pageNum pf) + 1) disk)[nat (pageNum pf) := data pf]))"

fun flushFrames ::
  "nat \<Rightarrow> nat list \<Rightarrow> BM_MgmtData \<Rightarrow> pagefile \<Rightarrow> RC \<times> BM_MgmtData \<times> pagefile" where
  "flushFrames ps [] mgmt disk = (RC_OK, mgmt, disk)"
| "flushFrames ps (i # is) mgmt disk =
     (let pf = frames mgmt ! i in
      if dirty pf \<and> fixCount pf = 0 then
        (case writeDirtyPageToDisk ps mgmt disk pf of
           (rc, mgmt1, disk1) \<Rightarrow>
             if rc \<noteq> RC_OK then (rc, mgmt1, disk1)
             else flushFrames ps is
                    (mgmt1\<lparr>frames := (frames mgmt1)[i := (frames mgmt1 ! i)\<lparr>dirty := False\<rparr>]\<rparr>)
                    disk1)
      else flushFrames ps is mgmt disk)"

definition forceFlushPool ::
  "nat \<Rightarrow> BM_BufferPool \<Rightarrow> pagefile \<Rightarrow> RC \<times> BM_BufferPool \<times> pagefile" where
  "forceFlushPool ps bm disk =
     (case mgmtData bm of
        None \<Rightarrow> (RC_ERROR, bm, disk)
      | Some mgmt \<Rightarrow>
          (case flushFrames ps [0..<numPages bm] mgmt disk of
             (rc, mgmt1, disk1) \<Rightarrow> (rc, bm\<lparr>mgmtData := Some mgmt1\<rparr>, disk1)))"

text \<open>
  \<open>shutdownBufferPool\<close>: flush, then look for a pinned frame, then free everything and
  reset \<open>mgmtData\<close> to null.
\<close>

definition shutdownBufferPool ::
  "nat \<Rightarrow> BM_BufferPool \<Rightarrow> pagefile \<Rightarrow> RC \<times> BM_BufferPool \<times> pagefile" where
  "shutdownBufferPool ps bm disk =
     (case mgmtData bm of
        None \<Rightarrow> (RC_ERROR, bm, disk)
      | Some _ \<Rightarrow>
          (case forceFlushPool ps bm disk of
             (rc, bm1, disk1) \<Rightarrow>
               if rc \<noteq> RC_OK then (rc, bm1, disk1)
               else
                 (case mgmtData bm1 of
                    None \<Rightarrow> (RC_ERROR, bm1, disk1)
                  | Some mgmt \<Rightarrow>
                      if list_ex (\<lambda>i. fixCount (frames mgmt ! i) > 0) [0..<numPages bm]
                      then (RC_ERROR, bm1, disk1)
                      else (RC_OK, bm1\<lparr>mgmtData := None\<rparr>, disk1))))"

definition markDirty :: "BM_BufferPool \<Rightarrow> BM_PageHandle \<Rightarrow> RC \<times> BM_BufferPool" where
  "markDirty bm pg =
     (case mgmtData bm of
        None \<Rightarrow> (RC_ERROR, bm)
      | Some mgmt \<Rightarrow>
          (case findPageFrame mgmt (numPages bm) (ph_pageNum pg) of
             None \<Rightarrow> (RC_ERROR, bm)
           | Some index \<Rightarrow>
               (RC_OK, bm\<lparr>mgmtData := Some (mgmt\<lparr>frames :=
                  (frames mgmt)[index := (frames mgmt ! index)\<lparr>dirty := True\<rparr>]\<rparr>)\<rparr>)))"

definition unpinPage :: "BM_BufferPool \<Rightarrow> BM_PageHandle \<Rightarrow> RC \<times> BM_BufferPool" where
  "unpinPage bm pg =
     (case mgmtData bm of
        None \<Rightarrow> (RC_ERROR, bm)
      | Some mgmt \<Rightarrow>
          (case findPageFrame mgmt (numPages bm) (ph_pageNum pg) of
             None \<Rightarrow> (RC_ERROR, bm)
           | Some index \<Rightarrow>
               (RC_OK,
                if fixCount (frames mgmt ! index) > 0
                then bm\<lparr>mgmtData := Some (mgmt\<lparr>frames :=
                       (frames mgmt)[index := (frames mgmt ! index)
                          \<lparr>fixCount := fixCount (frames mgmt ! index) - 1\<rparr>]\<rparr>)\<rparr>
                else bm)))"

definition forcePage ::
  "nat \<Rightarrow> BM_BufferPool \<Rightarrow> pagefile \<Rightarrow> BM_PageHandle \<Rightarrow> RC \<times> BM_BufferPool \<times> pagefile" where
  "forcePage ps bm disk pg =
     (case mgmtData bm of
        None \<Rightarrow> (RC_ERROR, bm, disk)
      | Some mgmt \<Rightarrow>
          (case findPageFrame mgmt (numPages bm) (ph_pageNum pg) of
             None \<Rightarrow> (RC_ERROR, bm, disk)
           | Some index \<Rightarrow>
               if dirty (frames mgmt ! index) then
                 (case writeDirtyPageToDisk ps mgmt disk (frames mgmt ! index) of
                    (rc, mgmt1, disk1) \<Rightarrow>
                      if rc \<noteq> RC_OK then (rc, bm\<lparr>mgmtData := Some mgmt1\<rparr>, disk1)
                      else (RC_OK, bm\<lparr>mgmtData := Some (mgmt1\<lparr>frames :=
                              (frames mgmt1)[index := (frames mgmt1 ! index)\<lparr>dirty := False\<rparr>]\<rparr>)\<rparr>,
                            disk1))
               else (RC_OK, bm, disk)))"

text \<open>
  The frame \<open>pinPage\<close> loads a missing page into: the first free frame, or else the
  victim.
\<close>

definition chooseFrame :: "BM_BufferPool \<Rightarrow> BM_MgmtData \<Rightarrow> nat" where
  "chooseFrame bm mgmt =
     (case findFreeFrame mgmt (numPages bm) of
        Some freeIndex \<Rightarrow> freeIndex
      | None \<Rightarrow> findVictimFrame bm mgmt)"

text \<open>
  \<open>pinPage\<close> returns \<open>Inl rc\<close> on the paths that return an error before anything is
  loaded, and otherwise the new pool, the page file and the page handle. A pool of zero
  frames has no frame to load into: the code indexes the empty array, which is undefined.
  The file is extended to \<open>pageNum + 1\<close> pages and read at the offset \<open>pageNum * PAGE_SIZE\<close>,
  both \<open>int\<close> in the code: the block read is block \<open>pageNum\<close> as long as they are
  representable, as they are for every page of a file with \<open>fileFits\<close>.
\<close>

definition pinPage ::
  "nat \<Rightarrow> BM_BufferPool \<Rightarrow> pagefile \<Rightarrow> int \<Rightarrow> RC + (BM_BufferPool \<times> pagefile \<times> BM_PageHandle)" where
  "pinPage ps bm disk pn =
     (case mgmtData bm of
        None \<Rightarrow> Inl RC_ERROR
      | Some mgmt \<Rightarrow>
          if pn < 0 then Inl RC_ERROR
          else
            (case findPageFrame mgmt (numPages bm) pn of
               Some idx \<Rightarrow>
                 Inr (bm\<lparr>mgmtData := Some (mgmt\<lparr>frames :=
                        (frames mgmt)[idx := (frames mgmt ! idx)
                           \<lparr>fixCount := fixCount (frames mgmt ! idx) + 1,
                            usage := usage (frames mgmt ! idx) + 1\<rparr>]\<rparr>)\<rparr>,
                      disk, \<lparr>ph_pageNum = pn, ph_data = idx\<rparr>)
             | None \<Rightarrow>
                 if numPages bm = 0 then Inl UNDEFINED_BEHAVIOUR
                 else
                   (let freeIndex = chooseFrame bm mgmt in
                    case (if dirty (frames mgmt ! freeIndex)
                          then writeDirtyPageToDisk ps mgmt disk (frames mgmt ! freeIndex)
                          else (RC_OK, mgmt, disk)) of
                      (rc, mgmt1, disk1) \<Rightarrow>
                        if rc \<noteq> RC_OK then Inl rc
                        else
                          (let disk2 = ensureCapacity ps (nat pn + 1) disk1 in
                           Inr (bm\<lparr>mgmtData := Some (mgmt1\<lparr>frames :=
                                  (frames mgmt1)[freeIndex :=
                                     \<lparr>data = readBlock ps disk2 (nat pn), pageNum = pn,
                                      dirty = False, fixCount = 1, usage = 1\<rparr>],
                                  readIO := readIO mgmt1 + 1\<rparr>)\<rparr>,
                                disk2, \<lparr>ph_pageNum = pn, ph_data = freeIndex\<rparr>)))))"

definition getNumReadIO :: "BM_BufferPool \<Rightarrow> int" where
  "getNumReadIO bm = (case mgmtData bm of None \<Rightarrow> 0 | Some mgmt \<Rightarrow> readIO mgmt)"

definition getNumWriteIO :: "BM_BufferPool \<Rightarrow> int" where
  "getNumWriteIO bm = (case mgmtData bm of None \<Rightarrow> 0 | Some mgmt \<Rightarrow> writeIO mgmt)"

definition getFrameContents :: "BM_BufferPool \<Rightarrow> int list" where
  "getFrameContents bm =
     (case mgmtData bm of None \<Rightarrow> []
      | Some mgmt \<Rightarrow> map (\<lambda>i. pageNum (frames mgmt ! i)) [0..<numPages bm])"

definition getDirtyFlags :: "BM_BufferPool \<Rightarrow> bool list" where
  "getDirtyFlags bm =
     (case mgmtData bm of None \<Rightarrow> []
      | Some mgmt \<Rightarrow> map (\<lambda>i. dirty (frames mgmt ! i)) [0..<numPages bm])"

definition getFixCounts :: "BM_BufferPool \<Rightarrow> int list" where
  "getFixCounts bm =
     (case mgmtData bm of None \<Rightarrow> []
      | Some mgmt \<Rightarrow> map (\<lambda>i. fixCount (frames mgmt ! i)) [0..<numPages bm])"

subsection \<open>Clients of the buffer pool\<close>

text \<open>
  A client holds the handle filled in by its last \<open>pinPage\<close> and passes it to
  \<open>markDirty\<close>, \<open>unpinPage\<close> and \<open>forcePage\<close>; return codes are not inspected, as in a
  test driver. \<open>noHandle\<close> is the handle before the first pin.
\<close>

datatype BM_Call = Pin int | MarkDirty | Unpin | Force

definition noHandle :: BM_PageHandle where
  "noHandle = \<lparr>ph_pageNum = -1, ph_data = 0\<rparr>"

fun bmCall ::
  "nat \<Rightarrow> BM_Call \<Rightarrow> BM_BufferPool \<times> pagefile \<times> BM_PageHandle
     \<Rightarrow> BM_BufferPool \<times> pagefile \<times> BM_PageHandle" where
  "bmCall ps (Pin p) (bm, disk, h) =
     (case pinPage ps bm disk p of Inl rc \<Rightarrow> (bm, disk, h) | Inr r \<Rightarrow> r)"
| "bmCall ps MarkDirty (bm, disk, h) = (snd (markDirty bm h), disk, h)"
| "bmCall ps Unpin (bm, disk, h) = (snd (unpinPage bm h), disk, h)"
| "bmCall ps Force (bm, disk, h) =
     (case forcePage ps bm disk h of (rc, bm', disk') \<Rightarrow> (bm', disk', h))"

definition bmCalls ::
  "nat \<Rightarrow> BM_Call list \<Rightarrow> BM_BufferPool \<Rightarrow> pagefile \<Rightarrow> BM_BufferPool \<times> pagefile \<times> BM_PageHandle" where
  "bmCalls ps calls bm disk = fold (bmCall ps) calls (bm, disk, noHandle)"

text \<open>
  A \<open>pinPage\<close> call must evict when the page is not resident and no frame is free. A
  frame is eligible as a victim when its pin count is 0 and its usage counter is below
  the sentinel \<open>2147483647\<close> that \<open>findVictimFrame\<close> starts from.
\<close>

definition mustEvict :: "BM_BufferPool \<Rightarrow> int \<Rightarrow> bool" where
  "mustEvict bm pn =
     (case mgmtData bm of
        None \<Rightarrow> False
      | Some mgmt \<Rightarrow> 0 \<le> pn \<and> 0 < numPages bm \<and> findPageFrame mgmt (numPages bm) pn = None
                    \<and> findFreeFrame mgmt (numPages bm) = None)"

definition eligible :: "PageFrame \<Rightarrow> bool" where
  "eligible f = (fixCount f = 0 \<and> usage f < 2147483647)"

definition replacedFrame ::
  "RC + (BM_BufferPool \<times> pagefile \<times> BM_PageHandle) \<Rightarrow> nat option" where
  "replacedFrame r = (case r of Inl rc \<Rightarrow> None | Inr (bm, disk, h) \<Rightarrow> Some (ph_data h))"

definition frameAt :: "BM_BufferPool \<Rightarrow> nat \<Rightarrow> PageFrame option" where
  "frameAt bm i =
     (case mgmtData bm of None \<Rightarrow> None
      | Some mgmt \<Rightarrow> if i < length (frames mgmt) then Some (frames mgmt ! i) else None)"

text \<open>
  A frame can be written back when it was loaded: its buffer is allocated and it holds a
  page number. A free frame can be dirty all the same: \<open>markDirty\<close> with a handle whose page
  number is -1 finds the first free frame and sets its dirty flag.
\<close>

definition loaded :: "PageFrame \<Rightarrow> bool" where
  "loaded f = (0 \<le> pageNum f \<and> data f \<noteq> [])"

definition flushable :: "PageFrame \<Rightarrow> bool" where
  "flushable f = (dirty f \<and> fixCount f = 0)"

text \<open>
  \<open>writeDirtyPageToDisk\<close> reaches the block of a frame when the frame was loaded and the
  byte offset \<open>pageNum * PAGE_SIZE\<close>, which it computes in \<open>int\<close>, is representable.
\<close>

definition writable :: "nat \<Rightarrow> PageFrame \<Rightarrow> bool" where
  "writable ps f = (loaded f \<and> pageNum f * int ps < 2 ^ 31)"

definition writeBack :: "nat \<Rightarrow> PageFrame \<Rightarrow> pagefile \<Rightarrow> pagefile" where
  "writeBack ps f disk = (ensureCapacity ps (nat (pageNum f) + 1) disk)[nat (pageNum f) := data f]"

definition cleaned :: "PageFrame \<Rightarrow> PageFrame" where
  "cleaned f = (if flushable f then f\<lparr>dirty := False\<rparr> else f)"

section \<open>The record manager (record_mgr.c)\<close>

subsection \<open>Bytes in memory\<close>

text \<open>
  \<open>memcpy (dst + doff, src + soff, n)\<close>. The copy is defined when both ranges lie inside
  their buffers; otherwise the result is \<open>None\<close>.
\<close>

definition memcpy :: "byte list \<Rightarrow> int \<Rightarrow> byte list \<Rightarrow> int \<Rightarrow> nat \<Rightarrow> byte list option" where
  "memcpy dst doff src soff n =
     (if 0 \<le> doff \<and> nat doff + n \<le> length dst \<and> 0 \<le> soff \<and> nat soff + n \<le> length src
      then Some (take (nat doff) dst @ take n (drop (nat soff) src) @ drop (nat doff + n) dst)
      else None)"

text \<open>
  A C \<open>int\<close> is four bytes, least significant byte first (the layout the spec fixes for
  the \<open>slotsUsed\<close> header).
\<close>

definition wordBytes :: "32 word \<Rightarrow> byte list" where
  "wordBytes w = [ucast w, ucast (drop_bit 8 w), ucast (drop_bit 16 w), ucast (drop_bit 24 w)]"

definition bytesWord :: "byte list \<Rightarrow> 32 word" where
  "bytesWord bs = ucast (bs ! 0) OR push_bit 8 (ucast (bs ! 1)) OR push_bit 16 (ucast (bs ! 2))
                  OR push_bit 24 (ucast (bs ! 3))"

text \<open>
  \<open>memcpy (&slotsUsed, data, sizeof (int))\<close> and \<open>memcpy (data, &slotsUsed, sizeof (int))\<close>
  on a page buffer, which has at least four bytes.
\<close>

definition getInt :: "page \<Rightarrow> int" where
  "getInt d = sint (bytesWord (take 4 d))"

definition putInt :: "page \<Rightarrow> int \<Rightarrow> page" where
  "putInt d v = wordBytes (word_of_int v) @ drop 4 d"

subsection \<open>Tables, records and the slotted page\<close>

record RID =
  page :: int
  slot :: int

text \<open>The fields \<open>id\<close> and \<open>data\<close> of the C struct \<open>Record\<close>.\<close>

record Record =
  rec_id :: RID
  rec_data :: "byte list"

text \<open>
  The record size is a sum of attribute sizes, none of which is negative; it is a
  natural number here. \<open>numTuples\<close> and \<open>nextFreePage\<close> are integers, and \<open>numTuples++\<close> and
  \<open>numTuples--\<close> are \<open>+ 1\<close> and \<open>- 1\<close> on them: the definitions give what the code computes
  while the values are representable in \<open>int\<close>, and the theorems bound them.
\<close>

record RM_TableMgmtData =
  bufferPool :: BM_BufferPool
  numTuples :: int
  nextFreePage :: int
  recordSize :: nat

record RM_ScanMgmtData =
  currentPage :: int
  currentSlot :: int

definition computeMaxSlots :: "nat \<Rightarrow> nat \<Rightarrow> nat" where
  "computeMaxSlots ps recSize = (ps - 4) div (recSize + 1)"

text \<open>\<open>data[4 + slotNum]\<close>: defined inside the buffer only.\<close>

definition getSlotFlag :: "page \<Rightarrow> int \<Rightarrow> byte option" where
  "getSlotFlag d slotNum =
     (if 0 \<le> 4 + slotNum \<and> nat (4 + slotNum) < length d then Some (d ! nat (4 + slotNum))
      else None)"

definition setSlotFlag :: "page \<Rightarrow> int \<Rightarrow> byte \<Rightarrow> page" where
  "setSlotFlag d slotNum val = d[nat (4 + slotNum) := val]"

text \<open>The bytes behind \<open>page.data\<close>, and storing through that pointer.\<close>

definition frameData :: "BM_BufferPool \<Rightarrow> BM_PageHandle \<Rightarrow> page" where
  "frameData bm pg =
     (case mgmtData bm of None \<Rightarrow> [] | Some mgmt \<Rightarrow> data (frames mgmt ! ph_data pg))"

definition setFrameData :: "BM_BufferPool \<Rightarrow> BM_PageHandle \<Rightarrow> page \<Rightarrow> BM_BufferPool" where
  "setFrameData bm pg d =
     (case mgmtData bm of
        None \<Rightarrow> bm
      | Some mgmt \<Rightarrow>
          bm\<lparr>mgmtData := Some (mgmt\<lparr>frames :=
             (frames mgmt)[ph_data pg := (frames mgmt ! ph_data pg)\<lparr>data := d\<rparr>]\<rparr>)\<rparr>)"

text \<open>The payload offset of a slot, \<open>4 + maxSlots + slot * recSize\<close>.\<close>

definition slotOffset :: "nat \<Rightarrow> nat \<Rightarrow> int \<Rightarrow> int" where
  "slotOffset ps recSize slotNum =
     4 + int (computeMaxSlots ps recSize) + slotNum * int recSize"

text \<open>The loop of \<open>insertRecord\<close> that looks for the lowest free slot.\<close>

definition findFreeSlot :: "page \<Rightarrow> nat \<Rightarrow> nat option" where
  "findFreeSlot d maxSlots = find (\<lambda>i. d ! (4 + i) = 0) [0..<maxSlots]"

subsection \<open>Record operations\<close>

text \<open>
  \<open>insertRecord\<close> calls itself when the page it tried has no free slot. The first
  argument bounds the depth of these calls; \<open>None\<close> means that the bound was reached.
  The number of the appended page is the number of pages of the file. In \<open>insertRecord\<close>
  and \<open>deleteRecord\<close> the increments and decrements of \<open>slotsUsed\<close> and \<open>numTuples\<close> are those
  of the code as long as the results are representable in \<open>int\<close>.
\<close>

fun insertRecord ::
  "nat \<Rightarrow> nat \<Rightarrow> RM_TableMgmtData \<Rightarrow> pagefile \<Rightarrow> Record
     \<Rightarrow> (RC \<times> RM_TableMgmtData \<times> pagefile \<times> Record) option" where
  "insertRecord 0 ps tbl disk record = None"
| "insertRecord (Suc fuel) ps tbl disk record =
     (let recSize = recordSize tbl; pageNum = nextFreePage tbl in
      case (if pageNum < 1 then
              (let newPage = int (length disk);
                   disk1 = ensureCapacity ps (nat (newPage + 1)) disk in
               case pinPage ps (bufferPool tbl) disk1 newPage of
                 Inl rc \<Rightarrow> Inl (rc, disk1)
               | Inr (bp, disk2, pg) \<Rightarrow>
                   (let bp1 = setFrameData bp pg (putInt (zeroPage ps) 0);
                        bp2 = snd (markDirty bp1 pg);
                        bp3 = snd (unpinPage bp2 pg)
                    in Inr (tbl\<lparr>bufferPool := bp3, nextFreePage := newPage\<rparr>, disk2, newPage)))
            else Inr (tbl, disk, pageNum)) of
        Inl (rc, disk1) \<Rightarrow> Some (rc, tbl, disk1, record)
      | Inr (tbl1, disk1, pageNum1) \<Rightarrow>
          (case pinPage ps (bufferPool tbl1) disk1 (nextFreePage tbl1) of
             Inl rc \<Rightarrow> Some (rc, tbl1, disk1, record)
           | Inr (bp, disk2, pg) \<Rightarrow>
               (let d = frameData bp pg;
                    slotsUsed = getInt d;
                    maxSlots = computeMaxSlots ps recSize in
                case findFreeSlot d maxSlots of
                  None \<Rightarrow>
                    insertRecord fuel ps
                      (tbl1\<lparr>nextFreePage := -1,
                            bufferPool := snd (unpinPage (snd (markDirty bp pg)) pg)\<rparr>)
                      disk2 record
                | Some freeSlot \<Rightarrow>
                    (case memcpy d (slotOffset ps recSize (int freeSlot)) (rec_data record) 0 recSize of
                       None \<Rightarrow> Some (UNDEFINED_BEHAVIOUR, tbl1\<lparr>bufferPool := bp\<rparr>, disk2, record)
                     | Some d1 \<Rightarrow>
                         (let d2 = setSlotFlag d1 (int freeSlot) 1;
                              slotsUsed1 = slotsUsed + 1;
                              d3 = putInt d2 slotsUsed1;
                              record1 = record\<lparr>rec_id := \<lparr>page = nextFreePage tbl1,
                                                           slot = int freeSlot\<rparr>\<rparr>;
                              bp1 = setFrameData bp pg d3;
                              bp2 = snd (markDirty bp1 pg);
                              bp3 = snd (unpinPage bp2 pg)
                          in Some (RC_OK,
                                   tbl1\<lparr>bufferPool := bp3,
                                         numTuples := numTuples tbl1 + 1,
                                         nextFreePage := (if slotsUsed1 = int maxSlots then -1
                                                          else pageNum1)\<rparr>,
                                   disk2, record1))))))"

definition deleteRecord ::
  "nat \<Rightarrow> RM_TableMgmtData \<Rightarrow> pagefile \<Rightarrow> RID \<Rightarrow> RC \<times> RM_TableMgmtData \<times> pagefile" where
  "deleteRecord ps tbl disk rid =
     (case pinPage ps (bufferPool tbl) disk (page rid) of
        Inl rc \<Rightarrow> (rc, tbl, disk)
      | Inr (bp, disk1, pg) \<Rightarrow>
          (let d = frameData bp pg; slotsUsed = getInt d in
           case getSlotFlag d (slot rid) of
             None \<Rightarrow> (UNDEFINED_BEHAVIOUR, tbl\<lparr>bufferPool := bp\<rparr>, disk1)
           | Some flag \<Rightarrow>
               if flag = 1 then
                 (let d1 = setSlotFlag d (slot rid) 0;
                      slotsUsed1 = slotsUsed - 1;
                      d2 = putInt d1 slotsUsed1;
                      maxSlots = computeMaxSlots ps (recordSize tbl);
                      bp1 = setFrameData bp pg d2;
                      bp2 = snd (markDirty bp1 pg);
                      bp3 = snd (unpinPage bp2 pg)
                  in (RC_OK,
                      tbl\<lparr>bufferPool := bp3,
                          numTuples := numTuples tbl - 1,
                          nextFreePage := (if slotsUsed1 = int maxSlots - 1 then page rid
                                           else nextFreePage tbl)\<rparr>,
                      disk1))
               else
                 (RC_OK, tbl\<lparr>bufferPool := snd (unpinPage (snd (markDirty bp pg)) pg)\<rparr>, disk1)))"

definition updateRecord ::
  "nat \<Rightarrow> RM_TableMgmtData \<Rightarrow> pagefile \<Rightarrow> Record \<Rightarrow> RC \<times> RM_TableMgmtData \<times> pagefile" where
  "updateRecord ps tbl disk record =
     (let pageNum = page (rec_id record); slotNum = slot (rec_id record) in
      case pinPage ps (bufferPool tbl) disk pageNum of
        Inl rc \<Rightarrow> (rc, tbl, disk)
      | Inr (bp, disk1, pg) \<Rightarrow>
          (case getSlotFlag (frameData bp pg) slotNum of
             None \<Rightarrow> (UNDEFINED_BEHAVIOUR, tbl\<lparr>bufferPool := bp\<rparr>, disk1)
           | Some flag \<Rightarrow>
               if flag = 0 then
                 (RC_READ_NON_EXISTING_PAGE, tbl\<lparr>bufferPool := snd (unpinPage bp pg)\<rparr>, disk1)
               else
                 (case memcpy (frameData bp pg) (slotOffset ps (recordSize tbl) slotNum)
                         (rec_data record) 0 (recordSize tbl) of
                    None \<Rightarrow> (UNDEFINED_BEHAVIOUR, tbl\<lparr>bufferPool := bp\<rparr>, disk1)
                  | Some d1 \<Rightarrow>
                      (let bp1 = setFrameData bp pg d1;
                           bp2 = snd (markDirty bp1 pg);
                           bp3 = snd (unpinPage bp2 pg)
                       in (RC_OK, tbl\<lparr>bufferPool := bp3\<rparr>, disk1)))))"

definition getRecord ::
  "nat \<Rightarrow> RM_TableMgmtData \<Rightarrow> pagefile \<Rightarrow> RID \<Rightarrow> Record
     \<Rightarrow> RC \<times> RM_TableMgmtData \<times> pagefile \<times> Record" where
  "getRecord ps tbl disk rid record =
     (case pinPage ps (bufferPool tbl) disk (page rid) of
        Inl rc \<Rightarrow> (rc, tbl, disk, record)
      | Inr (bp, disk1, pg) \<Rightarrow>
          (case getSlotFlag (frameData bp pg) (slot rid) of
             None \<Rightarrow> (UNDEFINED_BEHAVIOUR, tbl\<lparr>bufferPool := bp\<rparr>, disk1, record)
           | Some flag \<Rightarrow>
               if flag = 0 then
                 (RC_RM_NO_MORE_TUPLES, tbl\<lparr>bufferPool := snd (unpinPage bp pg)\<rparr>, disk1, record)
               else
                 (case memcpy (rec_data record) 0 (frameData bp pg)
                         (slotOffset ps (recordSize tbl) (slot rid)) (recordSize tbl) of
                    None \<Rightarrow> (UNDEFINED_BEHAVIOUR, tbl\<lparr>bufferPool := bp\<rparr>, disk1, record)
                  | Some d1 \<Rightarrow>
                      (RC_OK, tbl\<lparr>bufferPool := snd (unpinPage bp pg)\<rparr>, disk1,
                       \<lparr>rec_id = \<lparr>page = page rid, slot = slot rid\<rparr>, rec_data = d1\<rparr>))))"

text \<open>The page fetch of \<open>next\<close> (line 586): the scan pins its current page.\<close>

definition scanFetch ::
  "nat \<Rightarrow> RM_TableMgmtData \<Rightarrow> pagefile \<Rightarrow> RM_ScanMgmtData
     \<Rightarrow> RC + (BM_BufferPool \<times> pagefile \<times> BM_PageHandle)" where
  "scanFetch ps tbl disk sdata = pinPage ps (bufferPool tbl) disk (currentPage sdata)"

subsection \<open>Creating and opening a table\<close>

text \<open>
  \<open>writeTableInfo\<close> clears page 0 and prints the catalog into it with \<open>sprintf\<close> and
  \<open>strcpy\<close>. The characters printed are the parameter \<open>text\<close>; the last \<open>strcpy\<close> also
  stores the terminating zero, so that the text must be shorter than the page.
\<close>

definition writeTableInfo ::
  "nat \<Rightarrow> RM_TableMgmtData \<Rightarrow> pagefile \<Rightarrow> byte list \<Rightarrow> RC \<times> RM_TableMgmtData \<times> pagefile" where
  "writeTableInfo ps tbl disk text =
     (case pinPage ps (bufferPool tbl) disk 0 of
        Inl rc \<Rightarrow> (rc, tbl, disk)
      | Inr (bp, disk1, pg) \<Rightarrow>
          (case memcpy (zeroPage ps) 0 (text @ [0]) 0 (length text + 1) of
             None \<Rightarrow> (UNDEFINED_BEHAVIOUR, tbl\<lparr>bufferPool := bp\<rparr>, disk1)
           | Some d \<Rightarrow>
               (let bp1 = setFrameData bp pg d;
                    bp2 = snd (markDirty bp1 pg);
                    bp3 = snd (unpinPage bp2 pg)
                in case forcePage ps bp3 disk1 pg of
                     (rc, bp4, disk2) \<Rightarrow> (RC_OK, tbl\<lparr>bufferPool := bp4\<rparr>, disk2))))"

definition createTable :: "nat \<Rightarrow> byte list \<Rightarrow> nat \<Rightarrow> RC \<times> pagefile" where
  "createTable ps text recSize =
     (let disk = createPageFile ps;
          tblData = \<lparr>bufferPool = initBufferPool 3 RS_FIFO, numTuples = 0, nextFreePage = -1,
                     recordSize = recSize\<rparr>
      in case writeTableInfo ps tblData disk text of
           (rc, tbl1, disk1) \<Rightarrow>
             if rc \<noteq> RC_OK then (rc, disk1)
             else (case shutdownBufferPool ps (bufferPool tbl1) disk1 of
                     (rc, bp, disk2) \<Rightarrow> (rc, disk2)))"

text \<open>
  \<open>openTable\<close> makes a pool of three frames and calls \<open>readTableInfo\<close>, which pins page
  0, reads \<open>numTuples\<close> and \<open>nextFreePage\<close> and the schema from the text with \<open>sscanf\<close>,
  computes the record size and unpins the page. The values read are the parameters
  \<open>numT\<close>, \<open>freeP\<close> and \<open>recSize\<close>.
\<close>

definition openTable ::
  "nat \<Rightarrow> pagefile \<Rightarrow> int \<Rightarrow> int \<Rightarrow> nat \<Rightarrow> RC \<times> RM_TableMgmtData \<times> pagefile" where
  "openTable ps disk numT freeP recSize =
     (let tblData = \<lparr>bufferPool = initBufferPool 3 RS_FIFO, numTuples = numT,
                     nextFreePage = freeP, recordSize = recSize\<rparr>
      in case pinPage ps (bufferPool tblData) disk 0 of
           Inl rc \<Rightarrow> (rc, tblData, disk)
         | Inr (bp, disk1, pg) \<Rightarrow>
             (RC_OK, tblData\<lparr>bufferPool := snd (unpinPage bp pg)\<rparr>, disk1))"

text \<open>
  A table that was created and then opened: the catalog of a new table starts with the
  line \<open>0 -1\<close>, its \<open>numTuples\<close> and \<open>nextFreePage\<close>.
\<close>

definition newTable :: "nat \<Rightarrow> byte list \<Rightarrow> nat \<Rightarrow> RM_TableMgmtData \<times> pagefile" where
  "newTable ps text recSize = snd (openTable ps (snd (createTable ps text recSize)) 0 (-1) recSize)"

subsection \<open>Clients of the record manager\<close>

text \<open>
  The calls a client makes on an open table. \<open>Insert\<close> and \<open>Update\<close> carry the record,
  \<open>Get\<close> reads into a fresh record buffer of the table's record size, as \<open>createRecord\<close>
  allocates it. \<open>rmCall\<close> gives the return code and the new state; a call of
  \<open>insertRecord\<close> that does not return gives \<open>None\<close>.
\<close>

datatype RM_Call = Insert Record | Delete RID | Update Record | Get RID

definition createRecord :: "nat \<Rightarrow> Record" where
  "createRecord recSize = \<lparr>rec_id = \<lparr>page = -1, slot = -1\<rparr>, rec_data = replicate recSize 0\<rparr>"

fun rmCall ::
  "nat \<Rightarrow> nat \<Rightarrow> RM_Call \<Rightarrow> RM_TableMgmtData \<times> pagefile
     \<Rightarrow> (RC \<times> RM_TableMgmtData \<times> pagefile) option" where
  "rmCall fuel ps (Insert r) (tbl, disk) =
     (case insertRecord fuel ps tbl disk r of
        None \<Rightarrow> None
      | Some (rc, tbl', disk', r') \<Rightarrow> Some (rc, tbl', disk'))"
| "rmCall fuel ps (Delete rid) (tbl, disk) = Some (deleteRecord ps tbl disk rid)"
| "rmCall fuel ps (Update r) (tbl, disk) = Some (updateRecord ps tbl disk r)"
| "rmCall fuel ps (Get rid) (tbl, disk) =
     (case getRecord ps tbl disk rid (createRecord (recordSize tbl)) of
        (rc, tbl', disk', r') \<Rightarrow> Some (rc, tbl', disk'))"

text \<open>A sequence of calls, each of which returns; return codes are not inspected.\<close>

fun rmCalls ::
  "nat \<Rightarrow> nat \<Rightarrow> RM_Call list \<Rightarrow> RM_TableMgmtData \<times> pagefile
     \<Rightarrow> (RM_TableMgmtData \<times> pagefile) option" where
  "rmCalls fuel ps [] st = Some st"
| "rmCalls fuel ps (c # cs) st =
     (case rmCall fuel ps c st of
        None \<Rightarrow> None
      | Some (rc, st') \<Rightarrow> rmCalls fuel ps cs st')"

subsection \<open>Attributes\<close>

datatype DataType = DT_INT | DT_STRING | DT_FLOAT | DT_BOOL

record Schema =
  numAttr :: nat
  attrNames :: "string list"
  dataTypes :: "DataType list"
  typeLength :: "nat list"
  keySize :: nat
  keyAttrs :: "nat list"

text \<open>
  A \<open>Value\<close> is its type tag together with the member of the union the tag selects. An
  \<open>int\<close> is a 32-bit word. A \<open>float\<close> is only ever copied by the record manager, so it is
  given by the 32 bits of its representation. A string is the character array
  \<open>stringV\<close> points to.
\<close>

datatype Value = IntV "32 word" | FloatV "32 word" | BoolV bool | StringV "byte list"

fun valueType :: "Value \<Rightarrow> DataType" where
  "valueType (IntV w) = DT_INT"
| "valueType (FloatV w) = DT_FLOAT"
| "valueType (BoolV b) = DT_BOOL"
| "valueType (StringV s) = DT_STRING"

definition attrSize :: "Schema \<Rightarrow> nat \<Rightarrow> nat" where
  "attrSize schema i =
     (case dataTypes schema ! i of
        DT_INT \<Rightarrow> 4 | DT_FLOAT \<Rightarrow> 4 | DT_BOOL \<Rightarrow> 1 | DT_STRING \<Rightarrow> typeLength schema ! i)"

text \<open>The loop that adds up the sizes of the attributes before \<open>attrNum\<close>.\<close>

definition attrOffset :: "Schema \<Rightarrow> nat \<Rightarrow> nat" where
  "attrOffset schema attrNum = sum_list (map (attrSize schema) [0..<attrNum])"

definition computeRecordSize :: "Schema \<Rightarrow> nat" where
  "computeRecordSize schema = attrOffset schema (numAttr schema)"

text \<open>
  The characters of a C string are those before its first zero byte. \<open>strncpy\<close> copies
  at most \<open>n\<close> of them and fills the rest of the \<open>n\<close> bytes with zeros.
\<close>

definition cstring :: "byte list \<Rightarrow> byte list" where
  "cstring s = takeWhile (\<lambda>c. c \<noteq> 0) s"

definition strncpy :: "byte list \<Rightarrow> nat \<Rightarrow> byte list" where
  "strncpy src n = take n (cstring src) @ replicate (n - length (cstring src)) 0"

text \<open>
  \<open>setAttr\<close> and \<open>getAttr\<close> return \<open>RC_OK\<close> on every path; the result is the record, or the
  value, and \<open>None\<close> where the code reads or writes outside the schema's arrays or the
  record's buffer.
\<close>

definition setAttr :: "Record \<Rightarrow> Schema \<Rightarrow> nat \<Rightarrow> Value \<Rightarrow> Record option" where
  "setAttr record schema attrNum value =
     (if numAttr schema \<le> attrNum then None
      else
        (let offset = int (attrOffset schema attrNum) in
         case (case value of
                 IntV w \<Rightarrow> memcpy (rec_data record) offset (wordBytes w) 0 4
               | FloatV w \<Rightarrow> memcpy (rec_data record) offset (wordBytes w) 0 4
               | BoolV b \<Rightarrow> memcpy (rec_data record) offset [if b then 1 else 0] 0 1
               | StringV s \<Rightarrow>
                   (let len = typeLength schema ! attrNum in
                    memcpy (rec_data record) offset (strncpy s len) 0 len)) of
           None \<Rightarrow> None
         | Some d \<Rightarrow> Some (record\<lparr>rec_data := d\<rparr>)))"

definition getAttr :: "Record \<Rightarrow> Schema \<Rightarrow> nat \<Rightarrow> Value option" where
  "getAttr record schema attrNum =
     (if numAttr schema \<le> attrNum then None
      else
        (let offset = attrOffset schema attrNum; base = rec_data record in
         case dataTypes schema ! attrNum of
           DT_INT \<Rightarrow>
             if offset + 4 \<le> length base then Some (IntV (bytesWord (take 4 (drop offset base))))
             else None
         | DT_FLOAT \<Rightarrow>
             if offset + 4 \<le> length base then Some (FloatV (bytesWord (take 4 (drop offset base))))
             else None
         | DT_BOOL \<Rightarrow>
             if offset + 1 \<le> length base then Some (BoolV (base ! offset \<noteq> 0)) else None
         | DT_STRING \<Rightarrow>
             (let len = typeLength schema ! attrNum in
              if offset + len \<le> length base then Some (StringV (take len (drop offset base) @ [0]))
              else None)))"

text \<open>What \<open>getAttr\<close> reads after \<open>setAttr\<close> has stored a value in an attribute.\<close>

fun storedValue :: "Schema \<Rightarrow> nat \<Rightarrow> Value \<Rightarrow> Value" where
  "storedValue schema attrNum (StringV s) =
     StringV (take (typeLength schema ! attrNum) (cstring s)
              @ replicate (typeLength schema ! attrNum - length (cstring s)) 0 @ [0])"
| "storedValue schema attrNum v = v"

section \<open>Invariants and observations\<close>

text \<open>
  The bytes of page \<open>pn\<close> as the clients of the pool see them: the buffer of the frame
  that holds the page if the page is resident, the block of the file otherwise.
  \<open>contents\<close> lists them for all pages of the file.
\<close>

definition pageBytes :: "BM_BufferPool \<Rightarrow> pagefile \<Rightarrow> int \<Rightarrow> page" where
  "pageBytes bm disk pn =
     (case mgmtData bm of
        None \<Rightarrow> disk ! nat pn
      | Some mgmt \<Rightarrow>
          (case findPageFrame mgmt (numPages bm) pn of
             Some i \<Rightarrow> data (frames mgmt ! i)
           | None \<Rightarrow> disk ! nat pn))"

definition contents :: "BM_BufferPool \<Rightarrow> pagefile \<Rightarrow> page list" where
  "contents bm disk = map (\<lambda>p. pageBytes bm disk (int p)) [0..<length disk]"

text \<open>
  A frame is in order when it is free and clean, or holds a page of the file in a buffer
  of \<open>PAGE_SIZE\<close> bytes that, if the frame is clean, equals the block on disk.
\<close>

definition frameOk :: "nat \<Rightarrow> pagefile \<Rightarrow> PageFrame \<Rightarrow> bool" where
  "frameOk ps disk f =
     (if pageNum f = -1 then \<not> dirty f
      else 0 \<le> pageNum f \<and> nat (pageNum f) < length disk \<and> length (data f) = ps
           \<and> (\<not> dirty f \<longrightarrow> data f = disk ! nat (pageNum f)))"

text \<open>
  The invariant of a pool whose clients hold at most one pin: every frame is in order, the
  frame \<open>pin\<close> (if any) has pin count 1 and every other frame pin count 0, no page is
  resident twice, and every block of the file has \<open>PAGE_SIZE\<close> bytes.
\<close>

definition poolInv :: "nat \<Rightarrow> BM_BufferPool \<Rightarrow> pagefile \<Rightarrow> nat option \<Rightarrow> bool" where
  "poolInv ps bm disk pin =
     (case mgmtData bm of
        None \<Rightarrow> False
      | Some mgmt \<Rightarrow>
          0 < ps \<and> 0 < numPages bm \<and> length (frames mgmt) = numPages bm
          \<and> (\<forall>i<numPages bm. frameOk ps disk (frames mgmt ! i))
          \<and> (\<forall>i<numPages bm. fixCount (frames mgmt ! i) = (if pin = Some i then 1 else 0))
          \<and> (\<forall>i<numPages bm. \<forall>j<numPages bm.
                pageNum (frames mgmt ! i) = pageNum (frames mgmt ! j) \<longrightarrow>
                pageNum (frames mgmt ! i) = -1 \<or> i = j)
          \<and> (\<forall>pg\<in>set disk. length pg = ps))"

definition pinnedAt :: "nat \<Rightarrow> BM_BufferPool \<Rightarrow> pagefile \<Rightarrow> BM_PageHandle \<Rightarrow> bool" where
  "pinnedAt ps bm disk h =
     (poolInv ps bm disk (Some (ph_data h)) \<and> ph_data h < numPages bm \<and> 0 \<le> ph_pageNum h
      \<and> (case mgmtData bm of None \<Rightarrow> False
          | Some mgmt \<Rightarrow> pageNum (frames mgmt ! ph_data h) = ph_pageNum h))"

text \<open>The pool with the frame behind a handle replaced.\<close>

definition releaseFrame :: "BM_BufferPool \<Rightarrow> BM_PageHandle \<Rightarrow> PageFrame \<Rightarrow> BM_BufferPool" where
  "releaseFrame bp h f' =
     (case mgmtData bp of
        None \<Rightarrow> bp
      | Some m \<Rightarrow> bp\<lparr>mgmtData := Some (m\<lparr>frames := (frames m)[ph_data h := f']\<rparr>)\<rparr>)"

text \<open>The file after the write-back of a replaced frame that holds a page of the file.\<close>

definition evicted :: "PageFrame \<Rightarrow> pagefile \<Rightarrow> pagefile" where
  "evicted old disk = (if dirty old then disk[nat (pageNum old) := data old] else disk)"

text \<open>What a successful \<open>pinPage\<close> of page \<open>pn\<close> establishes.\<close>

definition pinResult ::
  "nat \<Rightarrow> BM_BufferPool \<Rightarrow> pagefile \<Rightarrow> int \<Rightarrow> BM_BufferPool \<Rightarrow> pagefile \<Rightarrow> BM_PageHandle \<Rightarrow> bool" where
  "pinResult ps bm disk pn bp disk' h =
     (ph_pageNum h = pn \<and> pinnedAt ps bp disk' h \<and> numPages bp = numPages bm
      \<and> length disk' = max (length disk) (nat pn + 1)
      \<and> (\<forall>q. 0 \<le> q \<longrightarrow> nat q < length disk \<longrightarrow> pageBytes bp disk' q = pageBytes bm disk q)
      \<and> (\<forall>q. 0 \<le> q \<longrightarrow> length disk \<le> nat q \<longrightarrow> nat q < length disk' \<longrightarrow>
              pageBytes bp disk' q = zeroPage ps)
      \<and> frameData bp h = pageBytes bp disk' pn)"

text \<open>
  The pages of the table after \<open>pinPage\<close> has made sure that page \<open>pn\<close> exists, and the
  fields of the table other than its pool.
\<close>

definition pagesAt :: "nat \<Rightarrow> RM_TableMgmtData \<Rightarrow> pagefile \<Rightarrow> int \<Rightarrow> page list" where
  "pagesAt ps tbl disk pn = ensureCapacity ps (nat pn + 1) (contents (bufferPool tbl) disk)"

definition sameTable :: "RM_TableMgmtData \<Rightarrow> RM_TableMgmtData \<Rightarrow> bool" where
  "sameTable tbl tbl' = (numTuples tbl' = numTuples tbl \<and> nextFreePage tbl' = nextFreePage tbl
                         \<and> recordSize tbl' = recordSize tbl)"

text \<open>
  The page \<open>d\<close> after \<open>insertRecord\<close> has placed a record in its slot \<open>s\<close>: payload copied,
  usage byte set, header incremented.
\<close>

definition placeRecord :: "nat \<Rightarrow> nat \<Rightarrow> page \<Rightarrow> nat \<Rightarrow> byte list \<Rightarrow> page" where
  "placeRecord ps recSize d s bytes =
     (let off = 4 + computeMaxSlots ps recSize + s * recSize in
      putInt (setSlotFlag (take off d @ take recSize bytes @ drop (off + recSize) d) (int s) 1)
             (getInt d + 1))"

text \<open>The number of usage bytes with value 1 among the slots of a page.\<close>

definition usedFlags :: "nat \<Rightarrow> page \<Rightarrow> nat" where
  "usedFlags n d = length (filter (\<lambda>i. d ! (4 + i) = 1) [0..<n])"

text \<open>The payload bytes of slot \<open>s\<close> of a page.\<close>

definition slotPayload :: "nat \<Rightarrow> nat \<Rightarrow> page \<Rightarrow> nat \<Rightarrow> byte list" where
  "slotPayload ps recSize d s = take recSize (drop (4 + computeMaxSlots ps recSize + s * recSize) d)"

subsection \<open>Tables between two calls\<close>

text \<open>
  A RID names a slot of the slotted layout when its slot number is within the slot
  capacity. A call is well-formed when the slot it names is one, the record buffer it
  passes has at least \<open>recordSize\<close> bytes, and a delete does not name page 0, which holds
  the catalog and no records.
\<close>

definition slotOk :: "nat \<Rightarrow> nat \<Rightarrow> RID \<Rightarrow> bool" where
  "slotOk ps recSize rid = (0 \<le> slot rid \<and> slot rid < int (computeMaxSlots ps recSize))"

fun validCall :: "nat \<Rightarrow> nat \<Rightarrow> RM_Call \<Rightarrow> bool" where
  "validCall ps recSize (Insert r) = (recSize \<le> length (rec_data r))"
| "validCall ps recSize (Delete rid) = (slotOk ps recSize rid \<and> page rid \<noteq> 0)"
| "validCall ps recSize (Update r) = (slotOk ps recSize (rec_id r) \<and> recSize \<le> length (rec_data r))"
| "validCall ps recSize (Get rid) = slotOk ps recSize rid"

text \<open>
  Between two calls of the record manager no page is pinned, the page has room for the
  header, and the file has its catalog page.
\<close>

definition tableReady :: "nat \<Rightarrow> RM_TableMgmtData \<Rightarrow> pagefile \<Rightarrow> bool" where
  "tableReady ps tbl disk = (poolInv ps (bufferPool tbl) disk None \<and> 4 \<le> ps \<and> 1 \<le> length disk)"

text \<open>
  The sum of the \<open>slotsUsed\<close> headers, and the number of usage bytes with value 1, over
  the data pages, which are all pages but page 0.
\<close>

definition slotsUsedSum :: "RM_TableMgmtData \<Rightarrow> pagefile \<Rightarrow> int" where
  "slotsUsedSum tbl disk = sum_list (map getInt (tl (contents (bufferPool tbl) disk)))"

definition usedFlagsSum :: "nat \<Rightarrow> RM_TableMgmtData \<Rightarrow> pagefile \<Rightarrow> int" where
  "usedFlagsSum ps tbl disk =
     sum_list (map (\<lambda>d. int (usedFlags (computeMaxSlots ps (recordSize tbl)) d))
                   (tl (contents (bufferPool tbl) disk)))"

text \<open>
  The bookkeeping invariant on the list of pages: on every data page the header counts the
  usage bytes with value 1, and \<open>numTuples\<close> is the sum of the headers. The invariant of a
  table adds that no page is pinned and that the file is smaller than \<open>2^31\<close> bytes.
\<close>

definition countsInv :: "nat \<Rightarrow> page list \<Rightarrow> int \<Rightarrow> bool" where
  "countsInv n cs nT =
     ((\<forall>p. 1 \<le> p \<and> p < length cs \<longrightarrow> getInt (cs ! p) = int (usedFlags n (cs ! p)))
      \<and> nT = sum_list (map getInt (tl cs)))"

definition tableInv :: "nat \<Rightarrow> RM_TableMgmtData \<Rightarrow> pagefile \<Rightarrow> bool" where
  "tableInv ps tbl disk =
     (tableReady ps tbl disk \<and> fileFits ps disk
      \<and> countsInv (computeMaxSlots ps (recordSize tbl)) (contents (bufferPool tbl) disk)
           (numTuples tbl))"

text \<open>
  What a call does to the page it works on, in terms of the slot \<open>s\<close> it touches: nothing,
  a used slot freed, the payload of a slot overwritten, or a record placed in a free slot.
  The last argument is the change of \<open>numTuples\<close>.
\<close>

inductive slotEffect :: "nat \<Rightarrow> nat \<Rightarrow> nat \<Rightarrow> page \<Rightarrow> page \<Rightarrow> int \<Rightarrow> bool"
  for ps :: nat and recSize :: nat where
  unchanged: "slotEffect ps recSize s d d 0"
| freed: "s < computeMaxSlots ps recSize \<Longrightarrow> d ! (4 + s) = 1 \<Longrightarrow>
          slotEffect ps recSize s d (putInt (setSlotFlag d (int s) 0) (getInt d - 1)) (- 1)"
| overwritten: "s < computeMaxSlots ps recSize \<Longrightarrow> d ! (4 + s) \<noteq> 0 \<Longrightarrow>
          memcpy d (slotOffset ps recSize (int s)) bytes 0 recSize = Some d' \<Longrightarrow>
          slotEffect ps recSize s d d' 0"
| placed: "s < computeMaxSlots ps recSize \<Longrightarrow> d ! (4 + s) = 0 \<Longrightarrow> recSize \<le> length bytes \<Longrightarrow>
          slotEffect ps recSize s d (placeRecord ps recSize d s bytes) 1"

text \<open>
  The states of a table that a client reaches from a new table by well-formed calls that
  return and leave the file smaller than \<open>2^31\<close> bytes. A call extends the file up to the
  page it names or appends, so that every block offset the call computed is that of a
  block of the file it leaves.
\<close>

inductive reachable :: "nat \<Rightarrow> byte list \<Rightarrow> nat \<Rightarrow> RM_TableMgmtData \<times> pagefile \<Rightarrow> bool"
  for ps :: nat and catalog :: "byte list" and recSize :: nat where
  created: "reachable ps catalog recSize (newTable ps catalog recSize)"
| called: "reachable ps catalog recSize (tbl, disk) \<Longrightarrow> validCall ps recSize c \<Longrightarrow>
           rmCall fuel ps c (tbl, disk) = Some (rc, st') \<Longrightarrow> fileFits ps (snd st') \<Longrightarrow>
           reachable ps catalog recSize st'"

text \<open>The state after a sequence of calls, unchanged if some call does not return.\<close>

definition rmRun ::
  "nat \<Rightarrow> nat \<Rightarrow> RM_Call list \<Rightarrow> RM_TableMgmtData \<times> pagefile \<Rightarrow> RM_TableMgmtData \<times> pagefile" where
  "rmRun fuel ps calls st = (case rmCalls fuel ps calls st of None \<Rightarrow> st | Some st' \<Rightarrow> st')"

text \<open>
  A call has taken the table from \<open>(tbl, disk)\<close> to \<open>(tbl', disk')\<close> by extending the file
  to \<open>n\<close> pages and changing slot \<open>s\<close> of page \<open>p\<close>, whose bytes are now \<open>d'\<close>.
\<close>

definition callEffect ::
  "nat \<Rightarrow> RM_TableMgmtData \<Rightarrow> pagefile \<Rightarrow> RM_TableMgmtData \<Rightarrow> pagefile
     \<Rightarrow> nat \<Rightarrow> nat \<Rightarrow> nat \<Rightarrow> page \<Rightarrow> bool" where
  "callEffect ps tbl disk tbl' disk' n p s d' =
     (tableReady ps tbl' disk' \<and> recordSize tbl' = recordSize tbl
      \<and> p < length (ensureCapacity ps n (contents (bufferPool tbl) disk))
      \<and> contents (bufferPool tbl') disk'
            = (ensureCapacity ps n (contents (bufferPool tbl) disk))[p := d']
      \<and> slotEffect ps (recordSize tbl) s
            (ensureCapacity ps n (contents (bufferPool tbl) disk) ! p) d'
            (numTuples tbl' - numTuples tbl))"

text \<open>
  \<open>insertRecord\<close> has returned \<open>rc\<close>, the new state and the record with its RID: the
  record was placed in a free slot of a data page.
\<close>

definition insertEffect ::
  "nat \<Rightarrow> Record \<Rightarrow> RM_TableMgmtData \<Rightarrow> pagefile \<Rightarrow> RC \<Rightarrow> RM_TableMgmtData \<Rightarrow> pagefile
     \<Rightarrow> Record \<Rightarrow> bool" where
  "insertEffect ps r tbl disk rc tbl' disk' r' =
     (rc = RC_OK \<and>
      (\<exists>n p s. 1 \<le> p \<and> s < computeMaxSlots ps (recordSize tbl)
         \<and> r' = r\<lparr>rec_id := \<lparr>page = int p, slot = int s\<rparr>\<rparr>
         \<and> ensureCapacity ps n (contents (bufferPool tbl) disk) ! p ! (4 + s) = 0
         \<and> callEffect ps tbl disk tbl' disk' n p s
              (placeRecord ps (recordSize tbl)
                 (ensureCapacity ps n (contents (bufferPool tbl) disk) ! p) s (rec_data r))
         \<and> numTuples tbl' = numTuples tbl + 1))"

text \<open>
  The record with RID \<open>rid\<close> is stored with the payload \<open>bytes\<close>: the slot is a slot of an
  existing data page, its usage byte is 1 and its payload bytes are \<open>bytes\<close>.
\<close>

definition recordAt :: "nat \<Rightarrow> RM_TableMgmtData \<Rightarrow> pagefile \<Rightarrow> RID \<Rightarrow> byte list \<Rightarrow> bool" where
  "recordAt ps tbl disk rid bytes =
     (1 \<le> page rid \<and> nat (page rid) < length disk \<and> slotOk ps (recordSize tbl) rid
      \<and> contents (bufferPool tbl) disk ! nat (page rid) ! (4 + nat (slot rid)) = 1
      \<and> slotPayload ps (recordSize tbl) (contents (bufferPool tbl) disk ! nat (page rid))
            (nat (slot rid)) = bytes)"


text \<open>
  Page 0 of a new table: the catalog text, its terminating zero, and zeros up to the end of
  the page.
\<close>

definition catalogPage :: "nat \<Rightarrow> byte list \<Rightarrow> page" where
  "catalogPage ps text = text @ 0 # replicate (ps - Suc (length text)) 0"

text \<open>The RID whose slot a call may free or overwrite.\<close>

fun target :: "RM_Call \<Rightarrow> RID option" where
  "target (Insert r) = None"
| "target (Delete rid) = Some rid"
| "target (Update r) = Some (rec_id r)"
| "target (Get rid) = None"

subsection \<open>Scenarios\<close>

text \<open>
  Three pools over a fresh page file of 4-byte pages: every frame pinned, every frame
  loaded and released, and one frame pinned while another holds a dirty page.
\<close>

definition allPinned :: "BM_BufferPool \<times> pagefile \<times> BM_PageHandle" where
  "allPinned = bmCalls 4 [Pin 0, Pin 1, Pin 2] (initBufferPool 3 RS_FIFO) (createPageFile 4)"

definition allReleased :: "BM_BufferPool \<times> pagefile \<times> BM_PageHandle" where
  "allReleased = bmCalls 4 [Pin 0, Unpin, Pin 1, Unpin, Pin 2, Unpin]
                   (initBufferPool 3 RS_FIFO) (createPageFile 4)"

definition onePinned :: "BM_BufferPool \<times> pagefile \<times> BM_PageHandle" where
  "onePinned = bmCalls 4 [Pin 0, MarkDirty, Unpin, Pin 1]
                 (initBufferPool 3 RS_FIFO) (createPageFile 4)"

text \<open>The calls of the write-back accounting scenario, before its fourth pin.\<close>

definition threeDirtied :: "BM_Call list" where
  "threeDirtied = [Pin 0, MarkDirty, Unpin, Pin 1, MarkDirty, Unpin, Pin 2, MarkDirty, Unpin]"


text \<open>
  A pool in which page 0 is pinned in frame 0 and \<open>markDirty\<close> was called with the handle
  \<open>noHandle\<close>, whose page number is -1: frame 1 is free and dirty.
\<close>

definition dirtyFree :: "BM_BufferPool \<times> pagefile" where
  "dirtyFree =
     (snd (markDirty (fst (bmCalls 4 [Pin 0] (initBufferPool 3 RS_FIFO) (createPageFile 4))) noHandle),
      fst (snd (bmCalls 4 [Pin 0] (initBufferPool 3 RS_FIFO) (createPageFile 4))))"

subsection \<open>A small table\<close>

text \<open>
  A table over pages of 16 bytes whose schema has one string attribute \<open>a\<close> of length 5:
  the catalog text is \<open>0 -1\<close>, \<open>1\<close>, \<open>1 5 a\<close>, each followed by a newline, a record has
  5 bytes, and a page has room for two slots. \<open>rec5 b\<close> is the record with five bytes \<open>b\<close>.
\<close>

definition catalogA :: "byte list" where
  "catalogA = [48, 32, 45, 49, 10, 49, 10, 49, 32, 53, 32, 97, 10]"

definition rec5 :: "byte \<Rightarrow> Record" where
  "rec5 b = \<lparr>rec_id = \<lparr>page = -1, slot = -1\<rparr>, rec_data = replicate 5 b\<rparr>"

definition tableA :: "RM_TableMgmtData \<times> pagefile" where
  "tableA = newTable 16 catalogA 5"

text \<open>The table after one insert, and after an update of the inserted record.\<close>

definition oneRecord :: "RM_TableMgmtData \<times> pagefile" where
  "oneRecord = rmRun 2 16 [Insert (rec5 7)] tableA"

definition updatedA :: "RM_TableMgmtData \<times> pagefile" where
  "updatedA = rmRun 2 16 [Update \<lparr>rec_id = \<lparr>page = 1, slot = 0\<rparr>, rec_data = replicate 5 9\<rparr>]
                oneRecord"

text \<open>Calls that leave the record with RID (1, 0) alone, and the table after them.\<close>

definition otherCalls :: "RM_Call list" where
  "otherCalls = [Insert (rec5 8), Insert (rec5 9), Delete \<lparr>page = 1, slot = 1\<rparr>,
                 Update \<lparr>rec_id = \<lparr>page = 2, slot = 0\<rparr>, rec_data = replicate 5 3\<rparr>,
                 Get \<lparr>page = 2, slot = 1\<rparr>]"

definition laterA :: "RM_TableMgmtData \<times> pagefile" where
  "laterA = rmRun 2 16 otherCalls oneRecord"

text \<open>
  Two inserts fill page 1. In \<open>stateA\<close> a third record is on page 2, and page 1, which had
  a slot freed, is full again.
\<close>

definition twoCalls :: "RM_Call list" where
  "twoCalls = [Insert (rec5 1), Insert (rec5 2)]"

definition twoRecords :: "RM_TableMgmtData \<times> pagefile" where
  "twoRecords = rmRun 2 16 twoCalls tableA"

definition fiveCalls :: "RM_Call list" where
  "fiveCalls = [Insert (rec5 1), Insert (rec5 2), Insert (rec5 3), Delete \<lparr>page = 1, slot = 0\<rparr>,
                Insert (rec5 4)]"

definition stateA :: "RM_TableMgmtData \<times> pagefile" where
  "stateA = rmRun 2 16 fiveCalls tableA"

text \<open>A schema with an integer, a string of length 4 and a boolean, and a record for it.\<close>

definition schemaB :: Schema where
  "schemaB = \<lparr>numAttr = 3, attrNames = [''a'', ''b'', ''c''],
              dataTypes = [DT_INT, DT_STRING, DT_BOOL], typeLength = [0, 4, 0],
              keySize = 1, keyAttrs = [0]\<rparr>"

definition recordB :: Record where
  "recordB = createRecord (computeRecordSize schemaB)"

text \<open>
  A table over pages of 64 bytes, with ten slots for records of 5 bytes, whose only
  attribute has a name of one character with code 1: the catalog text is \<open>0 -1\<close>, \<open>1\<close> and
  \<open>1 5\<close> followed by that name, each line followed by a newline. \<open>deletedB\<close> is the table
  after \<open>deleteRecord\<close> of the RID (0, 7).
\<close>

definition catalogB :: "byte list" where
  "catalogB = [48, 32, 45, 49, 10, 49, 10, 49, 32, 53, 32, 1, 10]"

definition tableB :: "RM_TableMgmtData \<times> pagefile" where
  "tableB = newTable 64 catalogB 5"

definition deletedB :: "RM_TableMgmtData \<times> pagefile" where
  "deletedB = rmRun 1 64 [Delete \<lparr>page = 0, slot = 7\<rparr>] tableB"

section \<open>Properties of the buffer pool\<close>

lemma length_readBlock: "length (readBlock ps disk p) = ps"
  by (auto simp: readBlock_def zeroPage_def)

lemma readBlock_nonempty: "0 < ps \<Longrightarrow> readBlock ps disk p \<noteq> []"
  using length_readBlock [of ps disk p] by auto

lemma upt3: "[0..<3] = [0, 1, 2]"
  by (simp add: upt_rec)

lemma replicate4: "replicate 4 x = [x, x, x, x]"
  by (simp add: eval_nat_numeral)

lemmas bm_eval = replicate4 bmCalls_def initBufferPool_def initPageFrameArray_def noHandle_def
  createPageFile_def zeroPage_def pinPage_def findPageFrame_def findFreeFrame_def chooseFrame_def
  upt3 numeral_3_eq_3 markDirty_def unpinPage_def findVictimFrame_def victimStep_def
  writeDirtyPageToDisk_def ensureCapacity_def readBlock_def Let_def

subsection \<open>Victim selection\<close>

text \<open>
  What the loop of \<open>findVictimFrame\<close> has computed after running over the indices \<open>js\<close>
  from the accumulator \<open>acc\<close>.
\<close>

lemma victim_fold_aux:
  "fold (victimStep fs) js acc = r \<Longrightarrow>
     snd r \<le> snd acc \<and>
     (case fst r of
        None \<Rightarrow> fst acc = None \<and> (\<forall>i\<in>set js. \<not> (fixCount (fs ! i) = 0 \<and> usage (fs ! i) < snd acc))
      | Some v \<Rightarrow> (fst acc = Some v \<and> snd r = snd acc)
                 \<or> (v \<in> set js \<and> fixCount (fs ! v) = 0 \<and> usage (fs ! v) = snd r \<and> snd r < snd acc))"
proof (induction js arbitrary: acc)
  case Nil
  then show ?case by (cases acc) (auto split: option.splits)
next
  case (Cons k js)
  then have step: "fold (victimStep fs) js (victimStep fs k acc) = r" by simp
  note IH = Cons.IH [OF step]
  show ?case
  proof (cases "fixCount (fs ! k) = 0 \<and> usage (fs ! k) < snd acc")
    case True
    then have vs: "victimStep fs k acc = (Some k, usage (fs ! k))" by (simp add: victimStep_def)
    from IH show ?thesis unfolding vs using True
      by (auto split: option.splits)
  next
    case False
    then have vs: "victimStep fs k acc = acc" by (auto simp: victimStep_def)
    from IH show ?thesis unfolding vs using False
      by (auto split: option.splits)
  qed
qed

lemma findVictimFrame_eligible:
  assumes "i < numPages bm" "eligible (frames mgmt ! i)"
  shows "findVictimFrame bm mgmt < numPages bm
         \<and> fixCount (frames mgmt ! findVictimFrame bm mgmt) = 0"
proof -
  obtain r where r: "fold (victimStep (frames mgmt)) [0..<numPages bm] (None, 2147483647) = r"
    by simp
  from victim_fold_aux [OF r] assms show ?thesis
    by (auto simp: findVictimFrame_def r eligible_def split: option.splits)
qed

lemma findVictimFrame_fallback:
  assumes "\<forall>i<numPages bm. \<not> eligible (frames mgmt ! i)"
  shows "findVictimFrame bm mgmt = 0"
proof -
  obtain r where r: "fold (victimStep (frames mgmt)) [0..<numPages bm] (None, 2147483647) = r"
    by simp
  from victim_fold_aux [OF r] assms show ?thesis
    by (auto simp: findVictimFrame_def r eligible_def split: option.splits)
qed

text \<open>
  Claim C3, as the code has it. When a \<open>pinPage\<close> call must evict, the page is loaded
  into the frame \<open>findVictimFrame\<close> returns. If some frame is eligible (pin count 0 and
  usage counter below the sentinel), that frame has pin count 0. If no frame is eligible,
  in particular if every frame is pinned, the frame is frame 0, whatever its pin count.
\<close>

theorem victim_choice:
  assumes "mustEvict bm pn" and "mgmtData bm = Some mgmt"
    and "\<forall>i<numPages bm. dirty (frames mgmt ! i) \<longrightarrow> loaded (frames mgmt ! i)"
  shows "(\<exists>bm' disk'. pinPage ps bm disk pn
            = Inr (bm', disk', \<lparr>ph_pageNum = pn, ph_data = findVictimFrame bm mgmt\<rparr>))
       \<and> ((\<exists>i<numPages bm. eligible (frames mgmt ! i)) \<longrightarrow>
            findVictimFrame bm mgmt < numPages bm \<and>
            fixCount (frames mgmt ! findVictimFrame bm mgmt) = 0)
       \<and> ((\<forall>i<numPages bm. \<not> eligible (frames mgmt ! i)) \<longrightarrow> findVictimFrame bm mgmt = 0)"
proof -
  have np: "0 < numPages bm" and pos: "0 \<le> pn"
    and nf: "findPageFrame mgmt (numPages bm) pn = None"
    and nfree: "findFreeFrame mgmt (numPages bm) = None"
    using assms(1,2) by (auto simp: mustEvict_def)
  have lt: "findVictimFrame bm mgmt < numPages bm"
  proof (cases "\<exists>i<numPages bm. eligible (frames mgmt ! i)")
    case True
    then show ?thesis using findVictimFrame_eligible by blast
  next
    case False
    then show ?thesis using findVictimFrame_fallback [of bm mgmt] np by simp
  qed
  have ch: "chooseFrame bm mgmt = findVictimFrame bm mgmt"
    by (simp add: chooseFrame_def nfree)
  have ld: "dirty (frames mgmt ! findVictimFrame bm mgmt)
            \<Longrightarrow> loaded (frames mgmt ! findVictimFrame bm mgmt)"
    using assms(3) lt by blast
  have "\<exists>bm' disk'. pinPage ps bm disk pn
            = Inr (bm', disk', \<lparr>ph_pageNum = pn, ph_data = findVictimFrame bm mgmt\<rparr>)"
    using np pos nf assms(2) ld
    by (auto simp: pinPage_def ch Let_def writeDirtyPageToDisk_def loaded_def)
  then show ?thesis
    using findVictimFrame_eligible [of _ bm mgmt] findVictimFrame_fallback [of bm mgmt] by blast
qed

text \<open>
  The theorem at the pool \<open>allReleased\<close>: pages 0, 1 and 2 are resident and released, page
  3 replaces the page of frame 0, whose pin count is 0.
\<close>

theorem victim_choice_witness:
  "mustEvict (fst allReleased) 3
   \<and> replacedFrame (pinPage 4 (fst allReleased) (fst (snd allReleased)) 3) = Some 0
   \<and> map_option fixCount (frameAt (fst allReleased) 0) = Some 0"
proof -
  let ?m = "\<lparr>frames = [\<lparr>data = [0, 0, 0, 0], pageNum = 0, dirty = False, fixCount = 0, usage = 1\<rparr>,
                         \<lparr>data = [0, 0, 0, 0], pageNum = 1, dirty = False, fixCount = 0, usage = 1\<rparr>,
                         \<lparr>data = [0, 0, 0, 0], pageNum = 2, dirty = False, fixCount = 0, usage = 1\<rparr>],
             readIO = 3, writeIO = 0, clockPointer = 0\<rparr>"
  have st: "allReleased = (\<lparr>numPages = 3, strategy = RS_FIFO, mgmtData = Some ?m\<rparr>,
                          [[0, 0, 0, 0], [0, 0, 0, 0], [0, 0, 0, 0]], \<lparr>ph_pageNum = 2, ph_data = 2\<rparr>)"
    by (simp add: allReleased_def bm_eval)
  have h1: "mustEvict (fst allReleased) 3"
    by (simp add: st mustEvict_def findPageFrame_def findFreeFrame_def upt3)
  have h2: "mgmtData (fst allReleased) = Some ?m" by (simp add: st)
  have h3: "\<forall>i<numPages (fst allReleased). dirty (frames ?m ! i) \<longrightarrow> loaded (frames ?m ! i)"
    by (simp add: st numeral_3_eq_3 less_Suc_eq)
  have e: "\<exists>i<numPages (fst allReleased). eligible (frames ?m ! i)"
    by (rule exI [of _ 0]) (simp add: st eligible_def)
  from victim_choice [OF h1 h2 h3, of 4 "fst (snd allReleased)"] e
  obtain bm' disk' where
    "pinPage 4 (fst allReleased) (fst (snd allReleased)) 3
       = Inr (bm', disk', \<lparr>ph_pageNum = 3, ph_data = findVictimFrame (fst allReleased) ?m\<rparr>)"
    "fixCount (frames ?m ! findVictimFrame (fst allReleased) ?m) = 0"
    by blast
  moreover have "findVictimFrame (fst allReleased) ?m = 0"
    by (simp add: st findVictimFrame_def victimStep_def upt3)
  ultimately show ?thesis using h1
    by (simp add: replacedFrame_def frameAt_def st)
qed

text \<open>
  Claim C3 as stated fails at the pool \<open>allPinned\<close>: three frames hold pages 0, 1 and 2,
  each with pin count 1. Pinning page 3 must evict, and the page is loaded into frame 0,
  whose pin count is 1.
\<close>

theorem pinned_victim_counterexample:
  "mustEvict (fst allPinned) 3
   \<and> replacedFrame (pinPage 4 (fst allPinned) (fst (snd allPinned)) 3) = Some 0
   \<and> map_option fixCount (frameAt (fst allPinned) 0) = Some 1"
  by (simp add: allPinned_def bm_eval mustEvict_def replacedFrame_def frameAt_def)

subsection \<open>Write-back accounting\<close>

text \<open>
  Claim C4. On a fresh pool of three frames with strategy FIFO over any page file, pin
  pages 0, 1, 2 and 3 in this order, marking each page dirty after its pin and unpinning
  it before the next pin. Before the fourth pin three pages were read, none written, and
  frames 0, 1, 2 hold pages 0, 1, 2, all dirty. After the fourth pin \<open>numReadIO\<close> is 4 and
  \<open>numWriteIO\<close> is 1: frame 0 now holds page 3, clean and pinned, the two other frames are
  still dirty, and block 0 of the file holds what was read for page 0.
\<close>

theorem fifo_writeback_accounting:
  assumes "0 < ps"
  shows "(case bmCalls ps threeDirtied (initBufferPool 3 RS_FIFO) disk of
            (bm, disk', h) \<Rightarrow>
              getNumReadIO bm = 3 \<and> getNumWriteIO bm = 0 \<and> getFrameContents bm = [0, 1, 2]
              \<and> getDirtyFlags bm = [True, True, True] \<and> getFixCounts bm = [0, 0, 0])
       \<and> (case bmCalls ps (threeDirtied @ [Pin 3]) (initBufferPool 3 RS_FIFO) disk of
            (bm, disk', h) \<Rightarrow>
              getNumReadIO bm = 4 \<and> getNumWriteIO bm = 1 \<and> getFrameContents bm = [3, 1, 2]
              \<and> getDirtyFlags bm = [False, True, True] \<and> getFixCounts bm = [1, 0, 0]
              \<and> disk' ! 0 = readBlock ps (ensureCapacity ps 1 disk) 0)"
  using assms
  apply (simp add: bmCalls_def initBufferPool_def initPageFrameArray_def noHandle_def
      threeDirtied_def pinPage_def findPageFrame_def findFreeFrame_def chooseFrame_def upt3
      numeral_3_eq_3 markDirty_def unpinPage_def findVictimFrame_def victimStep_def
      writeDirtyPageToDisk_def readBlock_nonempty getNumReadIO_def getNumWriteIO_def
      getFrameContents_def getDirtyFlags_def getFixCounts_def Let_def)
  apply (simp add: ensureCapacity_def nth_append)
  done

text \<open>The scenario with pages of 4096 bytes over a file of one page.\<close>

theorem fifo_writeback_accounting_witness:
  "getNumReadIO (fst (bmCalls 4096 (threeDirtied @ [Pin 3]) (initBufferPool 3 RS_FIFO)
                        (createPageFile 4096))) = 4
   \<and> getNumWriteIO (fst (bmCalls 4096 (threeDirtied @ [Pin 3]) (initBufferPool 3 RS_FIFO)
                           (createPageFile 4096))) = 1
   \<and> getNumWriteIO (fst (bmCalls 4096 threeDirtied (initBufferPool 3 RS_FIFO)
                           (createPageFile 4096))) = 0"
proof -
  have h: "(0::nat) < 4096" by simp
  show ?thesis
    using fifo_writeback_accounting [OF h, of "createPageFile 4096"]
    by (simp add: case_prod_unfold)
qed

subsection \<open>Flushing and shutting down\<close>

lemma writeDirty_loaded:
  "loaded pf \<Longrightarrow> writeDirtyPageToDisk ps mgmt disk pf
     = (RC_OK, mgmt\<lparr>writeIO := writeIO mgmt + 1\<rparr>, writeBack ps pf disk)"
  by (auto simp: writeDirtyPageToDisk_def loaded_def writeBack_def)

lemma flushFrames_from:
  assumes "length (frames mgmt) = n"
    and "\<forall>j. k \<le> j \<and> j < n \<longrightarrow> flushable (frames mgmt ! j) \<longrightarrow> loaded (frames mgmt ! j)"
  shows "flushFrames ps [k..<n] mgmt disk =
     (RC_OK,
      mgmt\<lparr>frames := take k (frames mgmt) @ map cleaned (drop k (frames mgmt)),
           writeIO := writeIO mgmt + int (length (filter flushable (drop k (frames mgmt))))\<rparr>,
      fold (writeBack ps) (filter flushable (drop k (frames mgmt))) disk)"
  using assms
proof (induction "n - k" arbitrary: k mgmt disk)
  case 0
  then show ?case by simp
next
  case (Suc d)
  then have kn: "k < n" and d: "d = n - Suc k" by simp_all
  let ?fs = "frames mgmt"
  let ?pf = "?fs ! k"
  have dr: "drop k ?fs = ?pf # drop (Suc k) ?fs"
    using kn Suc.prems(1) by (simp add: Cons_nth_drop_Suc)
  have up: "[k..<n] = k # [Suc k..<n]" using kn by (simp add: upt_rec)
  show ?case
  proof (cases "flushable ?pf")
    case True
    then have ld: "loaded ?pf" using Suc.prems(2) kn by simp
    let ?m2 = "mgmt\<lparr>writeIO := writeIO mgmt + 1, frames := ?fs[k := ?pf\<lparr>dirty := False\<rparr>]\<rparr>"
    have len2: "length (frames ?m2) = n" using Suc.prems(1) by simp
    have pre2: "\<forall>j. Suc k \<le> j \<and> j < n \<longrightarrow> flushable (frames ?m2 ! j) \<longrightarrow> loaded (frames ?m2 ! j)"
      using Suc.prems(2) by auto
    have IH: "flushFrames ps [Suc k..<n] ?m2 (writeBack ps ?pf disk) =
     (RC_OK,
      ?m2\<lparr>frames := take (Suc k) (frames ?m2) @ map cleaned (drop (Suc k) (frames ?m2)),
           writeIO := writeIO ?m2 + int (length (filter flushable (drop (Suc k) (frames ?m2))))\<rparr>,
      fold (writeBack ps) (filter flushable (drop (Suc k) (frames ?m2))) (writeBack ps ?pf disk))"
      by (rule Suc.hyps(1) [OF d len2 pre2])
    have tk: "take (Suc k) (?fs[k := ?pf\<lparr>dirty := False\<rparr>]) = take k ?fs @ [cleaned ?pf]"
      using kn Suc.prems(1) True by (simp add: take_Suc_conv_app_nth cleaned_def)
    have "flushFrames ps [k..<n] mgmt disk = flushFrames ps [Suc k..<n] ?m2 (writeBack ps ?pf disk)"
      using True ld by (simp add: up writeDirty_loaded flushable_def Let_def)
    also note IH
    finally show ?thesis
      using True by (simp add: dr tk)
  next
    case False
    have pre2: "\<forall>j. Suc k \<le> j \<and> j < n \<longrightarrow> flushable (frames mgmt ! j) \<longrightarrow> loaded (frames mgmt ! j)"
      using Suc.prems(2) by auto
    note IH = Suc.hyps(1) [OF d Suc.prems(1) pre2]
    have tk: "take (Suc k) ?fs = take k ?fs @ [?pf]"
      using kn Suc.prems(1) by (simp add: take_Suc_conv_app_nth)
    have "flushFrames ps [k..<n] mgmt disk = flushFrames ps [Suc k..<n] mgmt disk"
      using False by (auto simp add: up flushable_def Let_def)
    also note IH
    finally show ?thesis
      using False by (simp add: dr tk cleaned_def)
  qed
qed

lemma forceFlushPool_result:
  assumes "mgmtData bm = Some mgmt" "length (frames mgmt) = numPages bm"
    and "\<forall>f\<in>set (frames mgmt). flushable f \<longrightarrow> loaded f"
  shows "forceFlushPool ps bm disk =
     (RC_OK,
      bm\<lparr>mgmtData := Some (mgmt\<lparr>frames := map cleaned (frames mgmt),
           writeIO := writeIO mgmt + int (length (filter flushable (frames mgmt)))\<rparr>)\<rparr>,
      fold (writeBack ps) (filter flushable (frames mgmt)) disk)"
  using flushFrames_from [of mgmt "numPages bm" 0 ps disk] assms
  by (simp add: forceFlushPool_def)

text \<open>
  Claim C8 as stated fails at the pool \<open>dirtyFree\<close>: page 0 is pinned in frame 0, and frame 1
  is free and dirty with pin count 0. The flush of \<open>shutdownBufferPool\<close> passes the null
  buffer of frame 1 to \<open>fwrite\<close>, which has no defined result, where the claim has the
  error code for pinned pages.
\<close>

theorem shutdown_dirty_free_counterexample:
  "getFixCounts (fst dirtyFree) = [1, 0, 0]
   \<and> getDirtyFlags (fst dirtyFree) = [False, True, False]
   \<and> getFrameContents (fst dirtyFree) = [0, - 1, - 1]
   \<and> fst (shutdownBufferPool 4 (fst dirtyFree) (snd dirtyFree)) = UNDEFINED_BEHAVIOUR"
  by (simp add: dirtyFree_def bm_eval shutdownBufferPool_def forceFlushPool_def
      getFixCounts_def getDirtyFlags_def getFrameContents_def)

text \<open>
  Claim C8, amended: every dirty frame with pin count 0 holds a loaded page whose byte
  offset \<open>pageNum * PAGE_SIZE\<close> is representable in \<open>int\<close>, and so is \<open>writeIO\<close> after one
  increment for each of these frames. In such a pool with at least one pinned frame,
  \<open>shutdownBufferPool\<close> writes each dirty frame with pin count 0 back to its block, in
  frame order, and clears its dirty flag; then it returns the error code
  \<open>RC_ERROR\<close>, which is the code this module uses for a pool with pinned pages. The
  management data is still there: the frames keep their buffers, page numbers, pin counts
  and usage counters, and only \<open>writeIO\<close> has grown by the number of frames written.
\<close>

theorem shutdown_with_pinned_frame:
  assumes "mgmtData bm = Some mgmt" and "length (frames mgmt) = numPages bm"
    and "\<forall>f\<in>set (frames mgmt). flushable f \<longrightarrow> writable ps f"
    and "\<exists>f\<in>set (frames mgmt). fixCount f > 0"
    and "writeIO mgmt + int (length (filter flushable (frames mgmt))) < 2 ^ 31"
  shows "shutdownBufferPool ps bm disk =
     (RC_ERROR,
      bm\<lparr>mgmtData := Some (mgmt\<lparr>frames := map cleaned (frames mgmt),
           writeIO := writeIO mgmt + int (length (filter flushable (frames mgmt)))\<rparr>)\<rparr>,
      fold (writeBack ps) (filter flushable (frames mgmt)) disk)"
proof -
  have ld: "\<forall>f\<in>set (frames mgmt). flushable f \<longrightarrow> loaded f"
    using assms(3) by (simp add: writable_def)
  from assms(4) obtain f where f: "f \<in> set (frames mgmt)" "fixCount f > 0" by blast
  then obtain i where i: "i < numPages bm" "frames mgmt ! i = f"
    using assms(2) by (auto simp: in_set_conv_nth)
  have "fixCount (cleaned f) > 0" using f(2) by (simp add: cleaned_def)
  then have "\<exists>i\<in>{0..<numPages bm}. fixCount (map cleaned (frames mgmt) ! i) > 0"
    using i assms(2) by auto
  then show ?thesis
    using assms(1)
    by (simp add: shutdownBufferPool_def forceFlushPool_result [OF assms(1,2) ld] list_ex_iff)
qed

text \<open>
  The theorem at the pool \<open>onePinned\<close>: page 0 is dirty and released, page 1 is pinned.
  The shutdown writes page 0, fails, and leaves the three frames in place.
\<close>

theorem shutdown_with_pinned_frame_witness:
  "fst (shutdownBufferPool 4 (fst onePinned) (fst (snd onePinned))) = RC_ERROR
   \<and> getFixCounts (fst (snd (shutdownBufferPool 4 (fst onePinned) (fst (snd onePinned))))) = [0, 1, 0]
   \<and> getDirtyFlags (fst (snd (shutdownBufferPool 4 (fst onePinned) (fst (snd onePinned)))))
       = [False, False, False]
   \<and> getFrameContents (fst (snd (shutdownBufferPool 4 (fst onePinned) (fst (snd onePinned)))))
       = [0, 1, - 1]
   \<and> getNumWriteIO (fst (snd (shutdownBufferPool 4 (fst onePinned) (fst (snd onePinned))))) = 1"
proof -
  let ?m = "\<lparr>frames = [\<lparr>data = [0, 0, 0, 0], pageNum = 0, dirty = True, fixCount = 0, usage = 1\<rparr>,
                         \<lparr>data = [0, 0, 0, 0], pageNum = 1, dirty = False, fixCount = 1, usage = 1\<rparr>,
                         \<lparr>data = [], pageNum = - 1, dirty = False, fixCount = 0, usage = 0\<rparr>],
             readIO = 2, writeIO = 0, clockPointer = 0\<rparr>"
  have st: "onePinned = (\<lparr>numPages = 3, strategy = RS_FIFO, mgmtData = Some ?m\<rparr>,
                          [[0, 0, 0, 0], [0, 0, 0, 0]], \<lparr>ph_pageNum = 1, ph_data = 1\<rparr>)"
    by (simp add: onePinned_def bm_eval)
  have h1: "mgmtData (fst onePinned) = Some ?m" by (simp add: st)
  have h2: "length (frames ?m) = numPages (fst onePinned)" by (simp add: st)
  have h3: "\<forall>f\<in>set (frames ?m). flushable f \<longrightarrow> writable 4 f"
    by (simp add: flushable_def loaded_def writable_def)
  have h4: "\<exists>f\<in>set (frames ?m). fixCount f > 0" by simp
  have h5: "writeIO ?m + int (length (filter flushable (frames ?m))) < 2 ^ 31"
    by (simp add: flushable_def)
  show ?thesis
    using shutdown_with_pinned_frame [OF h1 h2 h3 h4 h5, where disk = "fst (snd onePinned)"]
    by (simp add: st getFixCounts_def getDirtyFlags_def getFrameContents_def getNumWriteIO_def upt3
         cleaned_def flushable_def)
qed

section \<open>The pool under a single pin\<close>

lemma findPageFrame_Some:
  "findPageFrame mgmt n pn = Some i \<Longrightarrow> i < n \<and> pageNum (frames mgmt ! i) = pn"
  by (auto simp: findPageFrame_def find_Some_iff)

lemma findPageFrame_None:
  "findPageFrame mgmt n pn = None \<longleftrightarrow> (\<forall>i<n. pageNum (frames mgmt ! i) \<noteq> pn)"
  by (auto simp: findPageFrame_def find_None_iff)

lemma findFreeFrame_Some:
  "findFreeFrame mgmt n = Some i \<Longrightarrow> i < n \<and> pageNum (frames mgmt ! i) = -1"
  by (auto simp: findFreeFrame_def find_Some_iff)

lemma findFreeFrame_None:
  "findFreeFrame mgmt n = None \<longleftrightarrow> (\<forall>i<n. pageNum (frames mgmt ! i) \<noteq> -1)"
  by (auto simp: findFreeFrame_def find_None_iff)

lemma findPageFrame_unique:
  assumes "i < n" "pageNum (frames mgmt ! i) = pn" "pn \<noteq> -1"
    and "\<forall>i<n. \<forall>j<n. pageNum (frames mgmt ! i) = pageNum (frames mgmt ! j) \<longrightarrow>
                pageNum (frames mgmt ! i) = -1 \<or> i = j"
  shows "findPageFrame mgmt n pn = Some i"
proof (cases "findPageFrame mgmt n pn")
  case None
  then show ?thesis using assms(1,2) by (simp add: findPageFrame_None)
next
  case (Some j)
  then have "j < n" "pageNum (frames mgmt ! j) = pn" using findPageFrame_Some by blast+
  then have "j = i" using assms by metis
  then show ?thesis using Some by simp
qed

lemma findPageFrame_pageNums:
  assumes "\<forall>i<n. pageNum (frames m' ! i) = pageNum (frames m ! i)"
  shows "findPageFrame m' n pn = findPageFrame m n pn"
  unfolding findPageFrame_def using assms by (intro find_cong) auto

lemma pinnedAt_find:
  assumes "pinnedAt ps bp disk h" "mgmtData bp = Some m"
  shows "findPageFrame m (numPages bp) (ph_pageNum h) = Some (ph_data h)"
  using assms
  by (intro findPageFrame_unique) (auto simp: pinnedAt_def poolInv_def)

lemma pinnedAt_fix:
  assumes "pinnedAt ps bp disk h" "mgmtData bp = Some m"
  shows "fixCount (frames m ! ph_data h) = 1" "length (frames m) = numPages bp" "ph_data h < numPages bp"
  using assms by (auto simp: pinnedAt_def poolInv_def)

lemma release_read_eq:
  assumes "pinnedAt ps bp disk h" "mgmtData bp = Some m"
  shows "snd (unpinPage bp h) = releaseFrame bp h ((frames m ! ph_data h)\<lparr>fixCount := 0\<rparr>)"
  using pinnedAt_find [OF assms] pinnedAt_fix [OF assms] assms(2)
  by (simp add: unpinPage_def releaseFrame_def)

lemma release_dirty_eq:
  assumes "pinnedAt ps bp disk h" "mgmtData bp = Some m"
  shows "snd (unpinPage (snd (markDirty bp h)) h)
           = releaseFrame bp h ((frames m ! ph_data h)\<lparr>dirty := True, fixCount := 0\<rparr>)"
proof -
  let ?m1 = "m\<lparr>frames := (frames m)[ph_data h := (frames m ! ph_data h)\<lparr>dirty := True\<rparr>]\<rparr>"
  have f1: "findPageFrame ?m1 (numPages bp) (ph_pageNum h) = Some (ph_data h)"
    using pinnedAt_find [OF assms] pinnedAt_fix [OF assms]
    by (subst findPageFrame_pageNums [of _ _ m]) (auto simp: nth_list_update)
  show ?thesis
    using pinnedAt_find [OF assms] pinnedAt_fix [OF assms] assms(2) f1
    by (simp add: unpinPage_def markDirty_def releaseFrame_def)
qed

lemma release_write_eq:
  assumes "pinnedAt ps bp disk h" "mgmtData bp = Some m"
  shows "snd (unpinPage (snd (markDirty (setFrameData bp h d) h)) h)
           = releaseFrame bp h ((frames m ! ph_data h)\<lparr>data := d, dirty := True, fixCount := 0\<rparr>)"
proof -
  let ?m0 = "m\<lparr>frames := (frames m)[ph_data h := (frames m ! ph_data h)\<lparr>data := d\<rparr>]\<rparr>"
  let ?m1 = "m\<lparr>frames := (frames m)[ph_data h := (frames m ! ph_data h)\<lparr>data := d, dirty := True\<rparr>]\<rparr>"
  have f0: "findPageFrame ?m0 (numPages bp) (ph_pageNum h) = Some (ph_data h)"
    using pinnedAt_find [OF assms] pinnedAt_fix [OF assms]
    by (subst findPageFrame_pageNums [of _ _ m]) (auto simp: nth_list_update)
  have f1: "findPageFrame ?m1 (numPages bp) (ph_pageNum h) = Some (ph_data h)"
    using pinnedAt_find [OF assms] pinnedAt_fix [OF assms]
    by (subst findPageFrame_pageNums [of _ _ m]) (auto simp: nth_list_update)
  show ?thesis
    using pinnedAt_fix [OF assms] assms(2) f0 f1
    by (simp add: unpinPage_def markDirty_def releaseFrame_def setFrameData_def)
qed

lemma poolInv_release:
  assumes "pinnedAt ps bp disk h" "pageNum f' = ph_pageNum h" "fixCount f' = 0" "frameOk ps disk f'"
  shows "poolInv ps (releaseFrame bp h f') disk None"
proof -
  obtain m where m: "mgmtData bp = Some m"
    using assms(1) by (cases "mgmtData bp") (auto simp: pinnedAt_def poolInv_def)
  have inv: "poolInv ps bp disk (Some (ph_data h))" and i: "ph_data h < numPages bp"
    and pn: "pageNum (frames m ! ph_data h) = ph_pageNum h"
    using assms(1) m by (auto simp: pinnedAt_def)
  let ?fs = "(frames m)[ph_data h := f']"
  have len: "length (frames m) = numPages bp" and ps: "0 < ps" and np: "0 < numPages bp"
    and oks: "\<forall>k<numPages bp. frameOk ps disk (frames m ! k)"
    and fxs: "\<forall>k<numPages bp. fixCount (frames m ! k) = (if Some (ph_data h) = Some k then 1 else 0)"
    and dist: "\<forall>k<numPages bp. \<forall>j<numPages bp. pageNum (frames m ! k) = pageNum (frames m ! j)
                 \<longrightarrow> pageNum (frames m ! k) = - 1 \<or> k = j"
    and pages: "\<forall>pg\<in>set disk. length pg = ps"
    using inv m unfolding poolInv_def by simp_all
  have pns: "pageNum (?fs ! k) = pageNum (frames m ! k)" if "k < numPages bp" for k
    using that len pn assms(2) by (cases "k = ph_data h") simp_all
  have c1: "\<forall>k<numPages bp. frameOk ps disk (?fs ! k)"
    using oks len i assms(4) by (simp add: nth_list_update)
  have c2: "\<forall>k<numPages bp. fixCount (?fs ! k) = (if None = Some k then 1 else 0)"
    using fxs len i assms(3) by (simp add: nth_list_update)
  have c3: "\<forall>k<numPages bp. \<forall>j<numPages bp. pageNum (?fs ! k) = pageNum (?fs ! j)
                 \<longrightarrow> pageNum (?fs ! k) = - 1 \<or> k = j"
    using dist pns by simp
  show ?thesis
    unfolding poolInv_def releaseFrame_def using m ps np len c1 c2 c3 pages by simp
qed

lemma pageBytes_release:
  assumes "pinnedAt ps bp disk h" "pageNum f' = ph_pageNum h"
  shows "pageBytes (releaseFrame bp h f') disk q = (if q = ph_pageNum h then data f' else pageBytes bp disk q)"
proof -
  obtain m where m: "mgmtData bp = Some m"
    using assms(1) by (cases "mgmtData bp") (auto simp: pinnedAt_def poolInv_def)
  let ?m' = "m\<lparr>frames := (frames m)[ph_data h := f']\<rparr>"
  have i: "ph_data h < numPages bp" "length (frames m) = numPages bp"
    and pn: "pageNum (frames m ! ph_data h) = ph_pageNum h"
    using assms(1) m by (auto simp: pinnedAt_def poolInv_def)
  have same: "findPageFrame ?m' (numPages bp) q = findPageFrame m (numPages bp) q"
    using i pn assms(2) by (intro findPageFrame_pageNums) (auto simp: nth_list_update)
  show ?thesis
  proof (cases "q = ph_pageNum h")
    case True
    then show ?thesis using pinnedAt_find [OF assms(1) m] same m i
      by (simp add: pageBytes_def releaseFrame_def)
  next
    case False
    have "\<And>j. findPageFrame m (numPages bp) q = Some j \<Longrightarrow> j \<noteq> ph_data h"
      using findPageFrame_Some pn False by blast
    then show ?thesis using same m False
      by (auto simp: pageBytes_def releaseFrame_def split: option.splits)
  qed
qed

lemma poolInv_D:
  assumes "poolInv ps bm disk pin" "mgmtData bm = Some m"
  shows "0 < ps" "0 < numPages bm" "length (frames m) = numPages bm"
    "\<And>i. i < numPages bm \<Longrightarrow> frameOk ps disk (frames m ! i)"
    "\<And>i. i < numPages bm \<Longrightarrow> fixCount (frames m ! i) = (if pin = Some i then 1 else 0)"
    "\<And>i j. i < numPages bm \<Longrightarrow> j < numPages bm \<Longrightarrow> pageNum (frames m ! i) = pageNum (frames m ! j)
        \<Longrightarrow> pageNum (frames m ! i) \<noteq> -1 \<Longrightarrow> i = j"
    "\<And>pg. pg \<in> set disk \<Longrightarrow> length pg = ps"
  using assms unfolding poolInv_def by auto

lemma poolInv_I:
  assumes "mgmtData bm = Some m" "0 < ps" "0 < numPages bm" "length (frames m) = numPages bm"
    "\<And>i. i < numPages bm \<Longrightarrow> frameOk ps disk (frames m ! i)"
    "\<And>i. i < numPages bm \<Longrightarrow> fixCount (frames m ! i) = (if pin = Some i then 1 else 0)"
    "\<And>i j. i < numPages bm \<Longrightarrow> j < numPages bm \<Longrightarrow> pageNum (frames m ! i) = pageNum (frames m ! j)
        \<Longrightarrow> pageNum (frames m ! i) \<noteq> -1 \<Longrightarrow> i = j"
    "\<And>pg. pg \<in> set disk \<Longrightarrow> length pg = ps"
  shows "poolInv ps bm disk pin"
  unfolding poolInv_def using assms by (simp; blast)

lemma poolInv_mgmt: "poolInv ps bm disk pin \<Longrightarrow> \<exists>m. mgmtData bm = Some m"
  by (cases "mgmtData bm") (auto simp: poolInv_def)

lemma chooseFrame_lt:
  assumes "0 < numPages bm"
  shows "chooseFrame bm m < numPages bm"
proof (cases "findFreeFrame m (numPages bm)")
  case (Some i)
  then show ?thesis using findFreeFrame_Some [OF Some] by (simp add: chooseFrame_def)
next
  case None
  have "findVictimFrame bm m < numPages bm"
  proof (cases "\<exists>i<numPages bm. eligible (frames m ! i)")
    case True
    then show ?thesis using findVictimFrame_eligible by blast
  next
    case False
    then show ?thesis using findVictimFrame_fallback [of bm m] assms by simp
  qed
  then show ?thesis using None by (simp add: chooseFrame_def)
qed

lemma pinPage_hit:
  assumes "mgmtData bm = Some m" "0 \<le> pn" "findPageFrame m (numPages bm) pn = Some i"
  shows "pinPage ps bm disk pn =
     Inr (bm\<lparr>mgmtData := Some (m\<lparr>frames := (frames m)[i := (frames m ! i)
                    \<lparr>fixCount := fixCount (frames m ! i) + 1, usage := usage (frames m ! i) + 1\<rparr>]\<rparr>)\<rparr>,
          disk, \<lparr>ph_pageNum = pn, ph_data = i\<rparr>)"
  using assms by (simp add: pinPage_def)

lemma pinPage_miss:
  assumes inv: "poolInv ps bm disk None" and m: "mgmtData bm = Some m" and pn: "0 \<le> pn"
    and miss: "findPageFrame m (numPages bm) pn = None"
  shows "pinPage ps bm disk pn =
     Inr (bm\<lparr>mgmtData := Some (m\<lparr>frames := (frames m)[chooseFrame bm m :=
               \<lparr>data = readBlock ps (ensureCapacity ps (nat pn + 1) (evicted (frames m ! chooseFrame bm m) disk)) (nat pn),
                pageNum = pn, dirty = False, fixCount = 1, usage = 1\<rparr>],
             readIO := readIO m + 1,
             writeIO := (if dirty (frames m ! chooseFrame bm m) then writeIO m + 1 else writeIO m)\<rparr>)\<rparr>,
          ensureCapacity ps (nat pn + 1) (evicted (frames m ! chooseFrame bm m) disk),
          \<lparr>ph_pageNum = pn, ph_data = chooseFrame bm m\<rparr>)"
proof -
  let ?fi = "chooseFrame bm m"
  let ?old = "frames m ! ?fi"
  have np: "0 < numPages bm" by (rule poolInv_D(2) [OF inv m])
  have fi: "?fi < numPages bm" by (rule chooseFrame_lt [OF np])
  have ok: "frameOk ps disk ?old" by (rule poolInv_D(4) [OF inv m fi])
  have ps: "0 < ps" by (rule poolInv_D(1) [OF inv m])
  show ?thesis
  proof (cases "dirty ?old")
    case True
    then have ld: "0 \<le> pageNum ?old" "nat (pageNum ?old) < length disk" "data ?old \<noteq> []"
      using ok ps by (auto simp: frameOk_def split: if_splits)
    have w: "writeDirtyPageToDisk ps m disk ?old
              = (RC_OK, m\<lparr>writeIO := writeIO m + 1\<rparr>, disk[nat (pageNum ?old) := data ?old])"
      using ld by (simp add: writeDirtyPageToDisk_def ensureCapacity_def)
    show ?thesis using m pn miss np True w
      by (simp add: pinPage_def Let_def evicted_def)
  next
    case False
    show ?thesis using m pn miss np False
      by (simp add: pinPage_def Let_def evicted_def)
  qed
qed

lemma pinPage_hit_result:
  assumes inv: "poolInv ps bm disk None" and m: "mgmtData bm = Some m" and pn: "0 \<le> pn"
    and hit: "findPageFrame m (numPages bm) pn = Some i"
  shows "\<exists>bp disk' h. pinPage ps bm disk pn = Inr (bp, disk', h) \<and> pinResult ps bm disk pn bp disk' h"
proof -
  let ?f' = "(frames m ! i)\<lparr>fixCount := fixCount (frames m ! i) + 1, usage := usage (frames m ! i) + 1\<rparr>"
  let ?m' = "m\<lparr>frames := (frames m)[i := ?f']\<rparr>"
  let ?bp = "bm\<lparr>mgmtData := Some ?m'\<rparr>"
  let ?h = "\<lparr>ph_pageNum = pn, ph_data = i\<rparr>"
  note D = poolInv_D [OF inv m]
  have i: "i < numPages bm" and pi: "pageNum (frames m ! i) = pn"
    using findPageFrame_Some [OF hit] by simp_all
  have eq: "pinPage ps bm disk pn = Inr (?bp, disk, ?h)"
    by (rule pinPage_hit [OF m pn hit])
  have pns: "\<forall>k<numPages bm. pageNum (frames ?m' ! k) = pageNum (frames m ! k)"
    using D(3) i by (auto simp: nth_list_update)
  have find: "\<And>q. findPageFrame ?m' (numPages bm) q = findPageFrame m (numPages bm) q"
    by (rule findPageFrame_pageNums [OF pns])
  have ok_i: "frameOk ps disk (frames m ! i)" by (rule D(4) [OF i])
  have lt: "nat pn < length disk" using ok_i pi pn by (auto simp: frameOk_def split: if_splits)
  have inv': "poolInv ps ?bp disk (Some i)"
  proof (rule poolInv_I [where m = ?m'])
    show "mgmtData ?bp = Some ?m'" by simp
    show "0 < ps" by (rule D(1))
    show "0 < numPages ?bp" using D(2) by simp
    show "length (frames ?m') = numPages ?bp" using D(3) by simp
    show "frameOk ps disk (frames ?m' ! k)" if "k < numPages ?bp" for k
      using that D(4) [of k] D(3) by (cases "k = i") (auto simp: frameOk_def)
    show "fixCount (frames ?m' ! k) = (if Some i = Some k then 1 else 0)" if "k < numPages ?bp" for k
      using that D(5) [of k] D(3) by (cases "k = i") auto
    show "k = j" if "k < numPages ?bp" "j < numPages ?bp"
      "pageNum (frames ?m' ! k) = pageNum (frames ?m' ! j)" "pageNum (frames ?m' ! k) \<noteq> - 1" for k j
      using that pns D(6) [of k j] by simp
    show "length pg = ps" if "pg \<in> set disk" for pg using that D(7) by simp
  qed
  have pinned: "pinnedAt ps ?bp disk ?h"
    using inv' i pn pi D(3) by (simp add: pinnedAt_def)
  have views: "pageBytes ?bp disk q = pageBytes bm disk q" for q
  proof -
    have "data (frames ?m' ! k) = data (frames m ! k)" if "k < numPages bm" for k
      using that D(3) by (cases "k = i") auto
    then show ?thesis
      using m find findPageFrame_Some [of m "numPages bm" q]
      by (auto simp: pageBytes_def split: option.splits)
  qed
  have fd: "frameData ?bp ?h = pageBytes ?bp disk pn"
    using find [of pn] hit by (simp add: frameData_def pageBytes_def)
  have "pinResult ps bm disk pn ?bp disk ?h"
    unfolding pinResult_def using pinned views fd lt by auto
  then show ?thesis using eq by blast
qed

lemma length_evicted: "length (evicted old disk) = length disk"
  by (simp add: evicted_def)

lemma length_ensureCapacity: "length (ensureCapacity ps n disk) = max (length disk) n"
  by (simp add: ensureCapacity_def)

lemma nth_ensureCapacity:
  "k < length disk \<Longrightarrow> ensureCapacity ps n disk ! k = disk ! k"
  "length disk \<le> k \<Longrightarrow> k < n \<Longrightarrow> ensureCapacity ps n disk ! k = zeroPage ps"
  by (simp_all add: ensureCapacity_def nth_append)

lemma set_ensureCapacity: "set (ensureCapacity ps n disk) \<subseteq> insert (zeroPage ps) (set disk)"
  by (auto simp: ensureCapacity_def)

lemma readBlock_exact: "p < length disk \<Longrightarrow> length (disk ! p) = ps \<Longrightarrow> readBlock ps disk p = disk ! p"
  by (simp add: readBlock_def)

lemma pinPage_miss_result:
  assumes inv: "poolInv ps bm disk None" and m: "mgmtData bm = Some m" and pn: "0 \<le> pn"
    and miss: "findPageFrame m (numPages bm) pn = None"
  shows "\<exists>bp disk' h. pinPage ps bm disk pn = Inr (bp, disk', h) \<and> pinResult ps bm disk pn bp disk' h"
proof -
  let ?n = "numPages bm"
  let ?fi = "chooseFrame bm m"
  let ?old = "frames m ! ?fi"
  let ?disk1 = "evicted ?old disk"
  let ?disk2 = "ensureCapacity ps (nat pn + 1) ?disk1"
  let ?new = "\<lparr>data = readBlock ps ?disk2 (nat pn), pageNum = pn, dirty = False, fixCount = 1, usage = 1\<rparr>"
  let ?m' = "m\<lparr>frames := (frames m)[?fi := ?new], readIO := readIO m + 1,
             writeIO := (if dirty ?old then writeIO m + 1 else writeIO m)\<rparr>"
  let ?bp = "bm\<lparr>mgmtData := Some ?m'\<rparr>"
  let ?h = "\<lparr>ph_pageNum = pn, ph_data = ?fi\<rparr>"
  note D = poolInv_D [OF inv m]
  have eq: "pinPage ps bm disk pn = Inr (?bp, ?disk2, ?h)"
    by (rule pinPage_miss [OF inv m pn miss])
  have fi: "?fi < ?n" by (rule chooseFrame_lt [OF D(2)])
  have notres: "\<And>k. k < ?n \<Longrightarrow> pageNum (frames m ! k) \<noteq> pn"
    using miss by (simp add: findPageFrame_None)
  have ok_old: "frameOk ps disk ?old" by (rule D(4) [OF fi])
  have len1: "length ?disk1 = length disk" by (rule length_evicted)
  have len2: "length ?disk2 = max (length disk) (nat pn + 1)"
    by (simp add: length_ensureCapacity len1)
  have pages1: "length pg = ps" if "pg \<in> set ?disk1" for pg
  proof (cases "dirty ?old")
    case True
    then have "length (data ?old) = ps" using ok_old by (auto simp: frameOk_def split: if_splits)
    moreover have "pg \<in> insert (data ?old) (set disk)"
      using that True set_update_subset_insert [of disk "nat (pageNum ?old)" "data ?old"]
      by (auto simp: evicted_def)
    ultimately show ?thesis using D(7) by auto
  next
    case False
    then show ?thesis using that D(7) by (simp add: evicted_def)
  qed
  have pages2: "length pg = ps" if "pg \<in> set ?disk2" for pg
    using that set_ensureCapacity [of ps "nat pn + 1" ?disk1] pages1 by (auto simp: zeroPage_def)
  have pnlt: "nat pn < length ?disk2" using len2 by simp
  have newdata: "readBlock ps ?disk2 (nat pn) = ?disk2 ! nat pn"
    using pnlt pages2 by (intro readBlock_exact) auto
  \<comment> \<open>blocks of frames other than the replaced one are not touched by the write-back\<close>
  have keep: "?disk2 ! nat (pageNum (frames m ! k)) = disk ! nat (pageNum (frames m ! k))"
    if "k < ?n" "k \<noteq> ?fi" "pageNum (frames m ! k) \<noteq> - 1" for k
  proof -
    have okk: "frameOk ps disk (frames m ! k)" by (rule D(4) [OF that(1)])
    then have kk: "0 \<le> pageNum (frames m ! k)" "nat (pageNum (frames m ! k)) < length disk"
      using that(3) by (auto simp: frameOk_def)
    have "?disk1 ! nat (pageNum (frames m ! k)) = disk ! nat (pageNum (frames m ! k))"
    proof (cases "dirty ?old")
      case True
      then have o: "pageNum ?old \<noteq> - 1" "0 \<le> pageNum ?old"
        using ok_old by (auto simp: frameOk_def split: if_splits)
      have "pageNum ?old \<noteq> pageNum (frames m ! k)"
        using D(6) [OF fi that(1)] o(1) that(2) by auto
      then have "nat (pageNum ?old) \<noteq> nat (pageNum (frames m ! k))"
        using o(2) kk(1) by simp
      then show ?thesis using True by (simp add: evicted_def)
    next
      case False
      then show ?thesis by (simp add: evicted_def)
    qed
    then show ?thesis using kk(2) len1 by (simp add: nth_ensureCapacity(1))
  qed
  \<comment> \<open>the block of the replaced frame holds what the frame held\<close>
  have gone: "?disk2 ! nat (pageNum ?old) = data ?old" if "pageNum ?old \<noteq> - 1"
  proof -
    have o: "0 \<le> pageNum ?old" "nat (pageNum ?old) < length disk"
      "\<not> dirty ?old \<Longrightarrow> data ?old = disk ! nat (pageNum ?old)"
      using ok_old that by (auto simp: frameOk_def)
    have "?disk1 ! nat (pageNum ?old) = data ?old"
      using o by (cases "dirty ?old") (simp_all add: evicted_def)
    then show ?thesis using o(2) len1 by (simp add: nth_ensureCapacity(1))
  qed
  \<comment> \<open>blocks of pages that are not resident are not touched\<close>
  have other: "?disk2 ! nat q = disk ! nat q"
    if "0 \<le> q" "nat q < length disk" "\<And>k. k < ?n \<Longrightarrow> pageNum (frames m ! k) \<noteq> q" for q
  proof -
    have "?disk1 ! nat q = disk ! nat q"
    proof (cases "dirty ?old")
      case True
      then have o: "0 \<le> pageNum ?old" using ok_old by (auto simp: frameOk_def split: if_splits)
      have "pageNum ?old \<noteq> q" using that(3) [OF fi] .
      then have "nat (pageNum ?old) \<noteq> nat q" using o that(1) by simp
      then show ?thesis using True by (simp add: evicted_def)
    next
      case False
      then show ?thesis by (simp add: evicted_def)
    qed
    then show ?thesis using that(2) len1 by (simp add: nth_ensureCapacity(1))
  qed
  have fr: "frames ?m' ! k = (if k = ?fi then ?new else frames m ! k)" if "k < ?n" for k
    using that D(3) fi by (simp add: nth_list_update)
  have inv': "poolInv ps ?bp ?disk2 (Some ?fi)"
  proof (rule poolInv_I [where m = ?m'])
    show "mgmtData ?bp = Some ?m'" by simp
    show "0 < ps" by (rule D(1))
    show "0 < numPages ?bp" using D(2) by simp
    show "length (frames ?m') = numPages ?bp" using D(3) by simp
    show "frameOk ps ?disk2 (frames ?m' ! k)" if "k < numPages ?bp" for k
    proof (cases "k = ?fi")
      case True
      then show ?thesis using that fr [of k] pn pnlt newdata pages2 [of "?disk2 ! nat pn"]
        by (simp add: frameOk_def) 
    next
      case False
      have k: "k < ?n" using that by simp
      have okk: "frameOk ps disk (frames m ! k)" by (rule D(4) [OF k])
      show ?thesis
      proof (cases "pageNum (frames m ! k) = - 1")
        case True
        then show ?thesis using okk fr [OF k] False by (simp add: frameOk_def)
      next
        case nf: False
        show ?thesis using okk fr [OF k] False nf keep [OF k False nf] len2
          by (auto simp: frameOk_def)
      qed
    qed
    show "fixCount (frames ?m' ! k) = (if Some ?fi = Some k then 1 else 0)" if "k < numPages ?bp" for k
      using that fr [of k] D(5) [of k] by auto
    show "k = j" if "k < numPages ?bp" "j < numPages ?bp"
      "pageNum (frames ?m' ! k) = pageNum (frames ?m' ! j)" "pageNum (frames ?m' ! k) \<noteq> - 1" for k j
    proof -
      have kj: "k < ?n" "j < ?n" using that by simp_all
      show ?thesis
        using that(3,4) fr [OF kj(1)] fr [OF kj(2)] notres [OF kj(1)] notres [OF kj(2)] D(6) [OF kj]
        by (auto split: if_splits)
    qed
    show "length pg = ps" if "pg \<in> set ?disk2" for pg by (rule pages2 [OF that])
  qed
  have pinned: "pinnedAt ps ?bp ?disk2 ?h"
    using inv' fi pn fr [OF fi] by (simp add: pinnedAt_def)
  have findnew: "findPageFrame ?m' ?n pn = Some ?fi"
    using pinnedAt_find [OF pinned, of ?m'] by simp
  have fd: "frameData ?bp ?h = pageBytes ?bp ?disk2 pn"
    using findnew by (simp add: frameData_def pageBytes_def)
  have pbnew: "pageBytes ?bp ?disk2 pn = ?disk2 ! nat pn"
    using findnew fr [OF fi] newdata by (simp add: pageBytes_def)
  have pbold: "pageBytes bm disk pn = disk ! nat pn"
    using m miss by (simp add: pageBytes_def)
  have findq: "findPageFrame ?m' ?n q = (if findPageFrame m ?n q = Some ?fi then None else findPageFrame m ?n q)"
    if "q \<noteq> pn" "q \<noteq> - 1" for q
  proof (cases "findPageFrame m ?n q")
    case None
    then have "\<forall>k<?n. pageNum (frames ?m' ! k) \<noteq> q"
      using fr that(1) by (auto simp: findPageFrame_None)
    then have "findPageFrame ?m' ?n q = None"
      unfolding findPageFrame_None .
    then show ?thesis using None by simp
  next
    case (Some j)
    then have j: "j < ?n" "pageNum (frames m ! j) = q" using findPageFrame_Some by blast+
    show ?thesis
    proof (cases "j = ?fi")
      case True
      have "pageNum (frames ?m' ! k) \<noteq> q" if "k < ?n" for k
      proof (cases "k = ?fi")
        case True
        then show ?thesis using fr [OF that] \<open>q \<noteq> pn\<close> by simp
      next
        case False
        then show ?thesis using fr [OF that] D(6) [OF that j(1)] j(2) \<open>j = ?fi\<close> \<open>q \<noteq> - 1\<close> by auto
      qed
      then have "findPageFrame ?m' ?n q = None"
        unfolding findPageFrame_None by blast
      then show ?thesis using Some True by simp
    next
      case False
      have "findPageFrame ?m' ?n q = Some j"
      proof (rule findPageFrame_unique)
        show "j < ?n" by (rule j(1))
        show "pageNum (frames ?m' ! j) = q" using fr [OF j(1)] False j(2) by simp
        show "q \<noteq> - 1" by (rule that(2))
        show "\<forall>i<?n. \<forall>j<?n. pageNum (frames ?m' ! i) = pageNum (frames ?m' ! j) \<longrightarrow>
                pageNum (frames ?m' ! i) = - 1 \<or> i = j"
          using poolInv_D(6) [OF inv', of ?m'] by auto
      qed
      then show ?thesis using Some False by simp
    qed
  qed
  have views: "pageBytes ?bp ?disk2 q = pageBytes bm disk q" if q: "0 \<le> q" "nat q < length disk" for q
  proof (cases "q = pn")
    case True
    have "?disk2 ! nat pn = disk ! nat pn"
      using other [of pn] pn q True notres by simp
    then show ?thesis using True pbnew pbold by simp
  next
    case False
    have q1: "q \<noteq> - 1" using q by auto
    show ?thesis
    proof (cases "findPageFrame m ?n q")
      case None
      then have "\<And>k. k < ?n \<Longrightarrow> pageNum (frames m ! k) \<noteq> q" by (simp add: findPageFrame_None)
      then have "?disk2 ! nat q = disk ! nat q" using other [OF q] by simp
      then show ?thesis using None findq [OF False q1] m by (simp add: pageBytes_def)
    next
      case (Some j)
      then have j: "j < ?n" "pageNum (frames m ! j) = q" using findPageFrame_Some by blast+
      show ?thesis
      proof (cases "j = ?fi")
        case True
        then have "?disk2 ! nat q = data ?old" using gone j(2) q1 by auto
        then show ?thesis using Some True findq [OF False q1] m by (simp add: pageBytes_def)
      next
        case nf: False
        then show ?thesis using Some findq [OF False q1] m fr [OF j(1)] by (simp add: pageBytes_def)
      qed
    qed
  qed
  have resident_lt: "nat (pageNum (frames m ! k)) < length disk" if "k < ?n" "pageNum (frames m ! k) \<noteq> - 1" for k
    using D(4) [OF that(1)] that(2) by (auto simp: frameOk_def)
  have fresh: "pageBytes ?bp ?disk2 q = zeroPage ps"
    if q: "0 \<le> q" "length disk \<le> nat q" "nat q < length ?disk2" for q
  proof -
    have z: "?disk2 ! nat q = zeroPage ps"
      using q len1 len2 by (intro nth_ensureCapacity(2)) auto
    show ?thesis
    proof (cases "q = pn")
      case True
      then show ?thesis using pbnew z by simp
    next
      case False
      have q1: "q \<noteq> - 1" using q by auto
      have "findPageFrame m ?n q = None"
      proof (cases "findPageFrame m ?n q")
        case (Some j)
        then have j: "j < ?n" "pageNum (frames m ! j) = q" using findPageFrame_Some by blast+
        then show ?thesis using resident_lt [OF j(1)] q1 q(2) by simp
      qed simp
      then show ?thesis using findq [OF False q1] z by (simp add: pageBytes_def)
    qed
  qed
  have "pinResult ps bm disk pn ?bp ?disk2 ?h"
    unfolding pinResult_def using pinned views fresh fd len2 by auto
  then show ?thesis using eq by blast
qed

lemma pinPage_result:
  assumes "poolInv ps bm disk None" "0 \<le> pn"
  shows "\<exists>bp disk' h. pinPage ps bm disk pn = Inr (bp, disk', h) \<and> pinResult ps bm disk pn bp disk' h"
proof -
  obtain m where m: "mgmtData bm = Some m" using poolInv_mgmt [OF assms(1)] by blast
  show ?thesis
    using pinPage_hit_result [OF assms(1) m assms(2)] pinPage_miss_result [OF assms(1) m assms(2)]
    by (cases "findPageFrame m (numPages bm) pn") auto
qed

lemma length_contents: "length (contents bm disk) = length disk"
  by (simp add: contents_def)

lemma nth_contents: "k < length disk \<Longrightarrow> contents bm disk ! k = pageBytes bm disk (int k)"
  by (simp add: contents_def)

lemma contents_pin:
  assumes "pinResult ps bm disk pn bp disk' h" "0 \<le> pn"
  shows "contents bp disk' = ensureCapacity ps (nat pn + 1) (contents bm disk)"
proof (rule nth_equalityI)
  show "length (contents bp disk') = length (ensureCapacity ps (nat pn + 1) (contents bm disk))"
    using assms(1) by (simp add: pinResult_def length_contents length_ensureCapacity)
next
  fix k assume "k < length (contents bp disk')"
  then have k: "k < length disk'" by (simp add: length_contents)
  show "contents bp disk' ! k = ensureCapacity ps (nat pn + 1) (contents bm disk) ! k"
  proof (cases "k < length disk")
    case True
    then have "pageBytes bp disk' (int k) = pageBytes bm disk (int k)"
      using assms(1) by (simp add: pinResult_def)
    then show ?thesis using True k
      by (simp add: nth_contents nth_ensureCapacity(1) length_contents)
  next
    case False
    then have "pageBytes bp disk' (int k) = zeroPage ps"
      using assms(1) k by (simp add: pinResult_def)
    moreover have "k < nat pn + 1" using False k assms(1) by (simp add: pinResult_def)
    ultimately show ?thesis using False k
      by (simp add: nth_contents nth_ensureCapacity(2) length_contents)
  qed
qed

lemma pinnedAt_resident:
  assumes "pinnedAt ps bp disk h"
  shows "nat (ph_pageNum h) < length disk" "length (frameData bp h) = ps" "0 < ps"
proof -
  obtain m where m: "mgmtData bp = Some m"
    using assms by (cases "mgmtData bp") (auto simp: pinnedAt_def poolInv_def)
  have inv: "poolInv ps bp disk (Some (ph_data h))" and i: "ph_data h < numPages bp"
    and pn: "pageNum (frames m ! ph_data h) = ph_pageNum h" "0 \<le> ph_pageNum h"
    using assms m by (auto simp: pinnedAt_def)
  have ok: "frameOk ps disk (frames m ! ph_data h)" by (rule poolInv_D(4) [OF inv m i])
  show "nat (ph_pageNum h) < length disk" "length (frameData bp h) = ps"
    using ok pn m by (auto simp: frameOk_def frameData_def)
  show "0 < ps" by (rule poolInv_D(1) [OF inv m])
qed

lemma contents_release:
  assumes "pinnedAt ps bp disk h" "pageNum f' = ph_pageNum h"
  shows "contents (releaseFrame bp h f') disk = (contents bp disk)[nat (ph_pageNum h) := data f']"
proof (rule nth_equalityI)
  show "length (contents (releaseFrame bp h f') disk)
          = length ((contents bp disk)[nat (ph_pageNum h) := data f'])"
    by (simp add: length_contents)
next
  fix k assume "k < length (contents (releaseFrame bp h f') disk)"
  then have k: "k < length disk" by (simp add: length_contents)
  have pn: "0 \<le> ph_pageNum h" using assms(1) by (simp add: pinnedAt_def)
  have "(int k = ph_pageNum h) = (k = nat (ph_pageNum h))" using pn by auto
  then show "contents (releaseFrame bp h f') disk ! k
          = (contents bp disk)[nat (ph_pageNum h) := data f'] ! k"
    using k pageBytes_release [OF assms, of "int k"]
    by (simp add: nth_contents nth_list_update length_contents)
qed

text \<open>The three ways in which the record manager releases a page it has pinned.\<close>

lemma release_write:
  assumes "pinnedAt ps bp disk h" "length d = ps"
  shows "poolInv ps (snd (unpinPage (snd (markDirty (setFrameData bp h d) h)) h)) disk None"
    and "contents (snd (unpinPage (snd (markDirty (setFrameData bp h d) h)) h)) disk
           = (contents bp disk)[nat (ph_pageNum h) := d]"
proof -
  obtain m where m: "mgmtData bp = Some m"
    using assms(1) by (cases "mgmtData bp") (auto simp: pinnedAt_def poolInv_def)
  let ?f' = "(frames m ! ph_data h)\<lparr>data := d, dirty := True, fixCount := 0\<rparr>"
  have pn: "pageNum (frames m ! ph_data h) = ph_pageNum h" "0 \<le> ph_pageNum h"
    using assms(1) m by (auto simp: pinnedAt_def)
  have pn': "pageNum ?f' = ph_pageNum h" using pn by simp
  have ok: "frameOk ps disk ?f'"
    using pinnedAt_resident(1) [OF assms(1)] pn assms(2) by (auto simp: frameOk_def)
  show "poolInv ps (snd (unpinPage (snd (markDirty (setFrameData bp h d) h)) h)) disk None"
    unfolding release_write_eq [OF assms(1) m]
    by (rule poolInv_release [OF assms(1) pn' _ ok]) simp
  show "contents (snd (unpinPage (snd (markDirty (setFrameData bp h d) h)) h)) disk
           = (contents bp disk)[nat (ph_pageNum h) := d]"
    unfolding release_write_eq [OF assms(1) m]
    using contents_release [OF assms(1) pn'] by simp
qed

lemma contents_pinned_page:
  assumes "pinnedAt ps bp disk h"
  shows "contents bp disk ! nat (ph_pageNum h) = frameData bp h"
proof -
  obtain m where m: "mgmtData bp = Some m"
    using assms(1) by (cases "mgmtData bp") (auto simp: pinnedAt_def poolInv_def)
  have pn: "0 \<le> ph_pageNum h" using assms by (simp add: pinnedAt_def)
  show ?thesis
    using pinnedAt_resident(1) [OF assms] pinnedAt_find [OF assms m] m pn
    by (simp add: nth_contents pageBytes_def frameData_def)
qed

lemma release_dirty:
  assumes "pinnedAt ps bp disk h"
  shows "poolInv ps (snd (unpinPage (snd (markDirty bp h)) h)) disk None"
    and "contents (snd (unpinPage (snd (markDirty bp h)) h)) disk = contents bp disk"
proof -
  obtain m where m: "mgmtData bp = Some m"
    using assms(1) by (cases "mgmtData bp") (auto simp: pinnedAt_def poolInv_def)
  let ?f' = "(frames m ! ph_data h)\<lparr>dirty := True, fixCount := 0\<rparr>"
  have pn: "pageNum (frames m ! ph_data h) = ph_pageNum h" "0 \<le> ph_pageNum h"
    using assms(1) m by (auto simp: pinnedAt_def)
  have pn': "pageNum ?f' = ph_pageNum h" using pn by simp
  have fd: "data ?f' = frameData bp h" using m by (simp add: frameData_def)
  have ok: "frameOk ps disk ?f'"
    using pinnedAt_resident(1,2) [OF assms(1)] pn fd by (auto simp: frameOk_def)
  show "poolInv ps (snd (unpinPage (snd (markDirty bp h)) h)) disk None"
    unfolding release_dirty_eq [OF assms(1) m]
    by (rule poolInv_release [OF assms(1) pn' _ ok]) simp
  have "(contents bp disk)[nat (ph_pageNum h) := frameData bp h] = contents bp disk"
    using contents_pinned_page [OF assms] by (metis list_update_id)
  then show "contents (snd (unpinPage (snd (markDirty bp h)) h)) disk = contents bp disk"
    unfolding release_dirty_eq [OF assms(1) m]
    using contents_release [OF assms(1) pn'] fd by simp
qed

lemma release_read:
  assumes "pinnedAt ps bp disk h"
  shows "poolInv ps (snd (unpinPage bp h)) disk None"
    and "contents (snd (unpinPage bp h)) disk = contents bp disk"
proof -
  obtain m where m: "mgmtData bp = Some m"
    using assms(1) by (cases "mgmtData bp") (auto simp: pinnedAt_def poolInv_def)
  let ?f' = "(frames m ! ph_data h)\<lparr>fixCount := 0\<rparr>"
  have inv: "poolInv ps bp disk (Some (ph_data h))" and i: "ph_data h < numPages bp"
    and pn: "pageNum (frames m ! ph_data h) = ph_pageNum h" "0 \<le> ph_pageNum h"
    using assms(1) m by (auto simp: pinnedAt_def)
  have pn': "pageNum ?f' = ph_pageNum h" using pn by simp
  have fd: "data ?f' = frameData bp h" using m by (simp add: frameData_def)
  have ok: "frameOk ps disk ?f'"
    using poolInv_D(4) [OF inv m i] by (simp add: frameOk_def)
  show "poolInv ps (snd (unpinPage bp h)) disk None"
    unfolding release_read_eq [OF assms(1) m]
    by (rule poolInv_release [OF assms(1) pn' _ ok]) simp
  have "(contents bp disk)[nat (ph_pageNum h) := frameData bp h] = contents bp disk"
    using contents_pinned_page [OF assms] by (metis list_update_id)
  then show "contents (snd (unpinPage bp h)) disk = contents bp disk"
    unfolding release_read_eq [OF assms(1) m]
    using contents_release [OF assms(1) pn'] fd by simp
qed

text \<open>All pages seen through the pool have \<open>PAGE_SIZE\<close> bytes.\<close>

lemma contents_page_length:
  assumes "poolInv ps bm disk pin" "k < length disk"
  shows "length (contents bm disk ! k) = ps"
proof -
  obtain m where m: "mgmtData bm = Some m" using poolInv_mgmt [OF assms(1)] by blast
  note D = poolInv_D [OF assms(1) m]
  show ?thesis
  proof (cases "findPageFrame m (numPages bm) (int k)")
    case None
    then show ?thesis using m assms(2) D(7) by (simp add: nth_contents pageBytes_def)
  next
    case (Some i)
    then have i: "i < numPages bm" "pageNum (frames m ! i) = int k"
      using findPageFrame_Some by blast+
    have "length (data (frames m ! i)) = ps" using D(4) [OF i(1)] i(2) by (auto simp: frameOk_def)
    then show ?thesis using m assms(2) Some by (simp add: nth_contents pageBytes_def)
  qed
qed

text \<open>Pinning, seen from the record manager.\<close>

lemma pin_page:
  assumes "poolInv ps bm disk None" "0 \<le> pn"
  obtains bp disk' h where "pinPage ps bm disk pn = Inr (bp, disk', h)"
    "pinnedAt ps bp disk' h" "ph_pageNum h = pn"
    "length disk' = max (length disk) (nat pn + 1)"
    "contents bp disk' = ensureCapacity ps (nat pn + 1) (contents bm disk)"
    "frameData bp h = ensureCapacity ps (nat pn + 1) (contents bm disk) ! nat pn"
proof -
  from pinPage_result [OF assms] obtain bp disk' h where
    r: "pinPage ps bm disk pn = Inr (bp, disk', h)" "pinResult ps bm disk pn bp disk' h" by blast
  have p: "pinnedAt ps bp disk' h" "ph_pageNum h = pn" "length disk' = max (length disk) (nat pn + 1)"
    using r(2) by (simp_all add: pinResult_def)
  have c: "contents bp disk' = ensureCapacity ps (nat pn + 1) (contents bm disk)"
    by (rule contents_pin [OF r(2) assms(2)])
  have "frameData bp h = contents bp disk' ! nat pn"
    using contents_pinned_page [OF p(1)] p(2) by simp
  then show thesis using that r(1) p c by simp
qed

section \<open>Properties of the record manager\<close>

subsection \<open>Bytes and slots\<close>

lemma bytesWord_wordBytes: "bytesWord (wordBytes w) = w"
proof (rule bit_word_eqI)
  fix n assume n: "n < LENGTH(32)"
  consider "n < 8" | "8 \<le> n" "n < 16" | "16 \<le> n" "n < 24" | "24 \<le> n" "n < 32"
    using n by fastforce
  then show "bit (bytesWord (wordBytes w)) n = bit w n"
    unfolding bytesWord_def wordBytes_def
    by cases (auto simp add: bit_simps)
qed

lemma length_wordBytes: "length (wordBytes w) = 4"
  by (simp add: wordBytes_def)

lemma length_putInt: "4 \<le> length d \<Longrightarrow> length (putInt d v) = length d"
  by (simp add: putInt_def length_wordBytes)

lemma getInt_putInt:
  "- (2 ^ 31) \<le> v \<Longrightarrow> v < 2 ^ 31 \<Longrightarrow> getInt (putInt d v) = v"
  by (simp add: getInt_def putInt_def length_wordBytes bytesWord_wordBytes sint_sbintrunc'
      signed_take_bit_int_eq_self)

lemma nth_putInt: "4 \<le> k \<Longrightarrow> k < length d \<Longrightarrow> putInt d v ! k = d ! k"
  by (simp add: putInt_def nth_append length_wordBytes)

lemma getInt_zeroPage: "4 \<le> ps \<Longrightarrow> getInt (zeroPage ps) = 0"
proof -
  assume "4 \<le> ps"
  then have "take 4 (zeroPage ps) = [0, 0, 0, 0]"
    by (simp add: zeroPage_def min_def eval_nat_numeral)
  then show ?thesis by (simp add: getInt_def bytesWord_def)
qed

lemma length_setSlotFlag: "length (setSlotFlag d s v) = length d"
  by (simp add: setSlotFlag_def)

lemma memcpy_Some:
  "memcpy dst doff src soff n = Some r \<Longrightarrow>
     length r = length dst \<and> 0 \<le> doff \<and> nat doff + n \<le> length dst
     \<and> 0 \<le> soff \<and> nat soff + n \<le> length src
     \<and> r = take (nat doff) dst @ take n (drop (nat soff) src) @ drop (nat doff + n) dst"
  by (auto simp: memcpy_def split: if_splits)

lemma memcpy_nth_outside:
  "memcpy dst doff src soff n = Some r \<Longrightarrow> k < nat doff \<or> nat doff + n \<le> k \<Longrightarrow> r ! k = dst ! k"
  by (auto simp: memcpy_def nth_append split: if_splits)

lemma memcpy_inside:
  "memcpy dst doff src soff n = Some r \<Longrightarrow> take n (drop (nat doff) r) = take n (drop (nat soff) src)"
  by (auto simp: memcpy_def split: if_splits)

lemma computeMaxSlots_fits:
  "4 \<le> ps \<Longrightarrow> 4 + computeMaxSlots ps recSize + computeMaxSlots ps recSize * recSize \<le> ps"
proof -
  assume ps: "4 \<le> ps"
  have "computeMaxSlots ps recSize * (recSize + 1) \<le> ps - 4"
    unfolding computeMaxSlots_def by (rule div_times_less_eq_dividend)
  then show ?thesis using ps by (simp add: algebra_simps)
qed

lemma slot_payload_fits:
  assumes "4 \<le> ps" "s < computeMaxSlots ps recSize"
  shows "4 + computeMaxSlots ps recSize + s * recSize + recSize \<le> ps"
proof -
  have "(s + 1) * recSize \<le> computeMaxSlots ps recSize * recSize"
    using assms(2) by (intro mult_le_mono1) simp
  then show ?thesis using computeMaxSlots_fits [OF assms(1), of recSize] by (simp add: algebra_simps)
qed

lemma slotOffset_nat:
  "slotOffset ps recSize (int s) = int (4 + computeMaxSlots ps recSize + s * recSize)"
  by (simp add: slotOffset_def)

subsection \<open>What one call does to the pages\<close>

lemma getSlotFlag_in:
  "0 \<le> 4 + s \<Longrightarrow> nat (4 + s) < length d \<Longrightarrow> getSlotFlag d s = Some (d ! nat (4 + s))"
  by (simp add: getSlotFlag_def)

lemma pagesAt_length:
  "length (pagesAt ps tbl disk pn) = max (length disk) (nat pn + 1)"
  by (simp add: pagesAt_def length_ensureCapacity length_contents)

lemma pagesAt_page_length:
  assumes "poolInv ps (bufferPool tbl) disk None" "k < length (pagesAt ps tbl disk pn)"
  shows "length (pagesAt ps tbl disk pn ! k) = ps"
proof (cases "k < length disk")
  case True
  then show ?thesis using contents_page_length [OF assms(1) True]
    by (simp add: pagesAt_def nth_ensureCapacity(1) length_contents)
next
  case False
  then show ?thesis using assms(2)
    by (simp add: pagesAt_def nth_ensureCapacity(2) length_contents length_ensureCapacity zeroPage_def)
qed

lemma deleteRecord_spec:
  assumes inv: "poolInv ps (bufferPool tbl) disk None" and ps: "4 \<le> ps"
    and pg: "0 \<le> page rid" and sl: "0 \<le> 4 + slot rid" "nat (4 + slot rid) < ps"
  defines "cs \<equiv> pagesAt ps tbl disk (page rid)"
  defines "d \<equiv> pagesAt ps tbl disk (page rid) ! nat (page rid)"
  shows "\<exists>tbl' disk'. deleteRecord ps tbl disk rid = (RC_OK, tbl', disk')
           \<and> poolInv ps (bufferPool tbl') disk' None
           \<and> length disk' = max (length disk) (nat (page rid) + 1)
           \<and> recordSize tbl' = recordSize tbl
           \<and> (if d ! nat (4 + slot rid) = 1
               then contents (bufferPool tbl') disk'
                      = cs[nat (page rid) := putInt (setSlotFlag d (slot rid) 0) (getInt d - 1)]
                    \<and> numTuples tbl' = numTuples tbl - 1
                    \<and> nextFreePage tbl' =
                        (if getInt d - 1 = int (computeMaxSlots ps (recordSize tbl)) - 1
                         then page rid else nextFreePage tbl)
               else contents (bufferPool tbl') disk' = cs \<and> sameTable tbl tbl')"
proof -
  from pin_page [OF inv pg] obtain bp disk' h where
    pin: "pinPage ps (bufferPool tbl) disk (page rid) = Inr (bp, disk', h)"
      "pinnedAt ps bp disk' h" "ph_pageNum h = page rid"
      "length disk' = max (length disk) (nat (page rid) + 1)"
      "contents bp disk' = cs" "frameData bp h = d"
    unfolding cs_def d_def pagesAt_def by blast
  have len: "length d = ps" using pinnedAt_resident(2) [OF pin(2)] pin(6) by simp
  have flag: "getSlotFlag d (slot rid) = Some (d ! nat (4 + slot rid))"
    using sl len by (simp add: getSlotFlag_in)
  show ?thesis
  proof (cases "d ! nat (4 + slot rid) = 1")
    case True
    let ?d2 = "putInt (setSlotFlag d (slot rid) 0) (getInt d - 1)"
    have l2: "length ?d2 = ps" using len ps by (simp add: length_putInt length_setSlotFlag)
    show ?thesis
      using True flag pin release_write [OF pin(2) l2]
      by (simp add: deleteRecord_def Let_def)
  next
    case False
    show ?thesis
      using False flag pin release_dirty [OF pin(2)]
      by (simp add: deleteRecord_def Let_def sameTable_def)
  qed
qed

lemma updateRecord_spec:
  assumes inv: "poolInv ps (bufferPool tbl) disk None"
    and pg: "0 \<le> page (rec_id r)" and sl: "0 \<le> 4 + slot (rec_id r)" "nat (4 + slot (rec_id r)) < ps"
  defines "cs \<equiv> pagesAt ps tbl disk (page (rec_id r))"
  defines "d \<equiv> pagesAt ps tbl disk (page (rec_id r)) ! nat (page (rec_id r))"
  shows "\<exists>tbl' disk'. snd (updateRecord ps tbl disk r) = (tbl', disk')
           \<and> length disk' = max (length disk) (nat (page (rec_id r)) + 1)
           \<and> sameTable tbl tbl'
           \<and> (if d ! nat (4 + slot (rec_id r)) = 0
               then fst (updateRecord ps tbl disk r) = RC_READ_NON_EXISTING_PAGE
                    \<and> poolInv ps (bufferPool tbl') disk' None
                    \<and> contents (bufferPool tbl') disk' = cs
               else (case memcpy d (slotOffset ps (recordSize tbl) (slot (rec_id r))) (rec_data r) 0
                            (recordSize tbl) of
                       None \<Rightarrow> fst (updateRecord ps tbl disk r) = UNDEFINED_BEHAVIOUR
                     | Some d1 \<Rightarrow>
                         fst (updateRecord ps tbl disk r) = RC_OK
                         \<and> poolInv ps (bufferPool tbl') disk' None
                         \<and> contents (bufferPool tbl') disk' = cs[nat (page (rec_id r)) := d1]))"
proof -
  from pin_page [OF inv pg] obtain bp disk' h where
    pin: "pinPage ps (bufferPool tbl) disk (page (rec_id r)) = Inr (bp, disk', h)"
      "pinnedAt ps bp disk' h" "ph_pageNum h = page (rec_id r)"
      "length disk' = max (length disk) (nat (page (rec_id r)) + 1)"
      "contents bp disk' = cs" "frameData bp h = d"
    unfolding cs_def d_def pagesAt_def by blast
  have len: "length d = ps" using pinnedAt_resident(2) [OF pin(2)] pin(6) by simp
  have flag: "getSlotFlag d (slot (rec_id r)) = Some (d ! nat (4 + slot (rec_id r)))"
    using sl len by (simp add: getSlotFlag_in)
  show ?thesis
  proof (cases "d ! nat (4 + slot (rec_id r)) = 0")
    case True
    show ?thesis
      using True flag pin release_read [OF pin(2)]
      by (simp add: updateRecord_def Let_def sameTable_def)
  next
    case False
    show ?thesis
    proof (cases "memcpy d (slotOffset ps (recordSize tbl) (slot (rec_id r))) (rec_data r) 0 (recordSize tbl)")
      case None
      then show ?thesis using False flag pin
        by (simp add: updateRecord_def Let_def sameTable_def)
    next
      case (Some d1)
      then have l1: "length d1 = ps" using memcpy_Some [OF Some] len by simp
      show ?thesis
        using False flag pin Some release_write [OF pin(2) l1]
        by (simp add: updateRecord_def Let_def sameTable_def)
    qed
  qed
qed

lemma getRecord_spec:
  assumes inv: "poolInv ps (bufferPool tbl) disk None"
    and pg: "0 \<le> page rid" and sl: "0 \<le> 4 + slot rid" "nat (4 + slot rid) < ps"
  defines "cs \<equiv> pagesAt ps tbl disk (page rid)"
  defines "d \<equiv> pagesAt ps tbl disk (page rid) ! nat (page rid)"
  shows "\<exists>tbl' disk' r'. snd (getRecord ps tbl disk rid r) = (tbl', disk', r')
           \<and> length disk' = max (length disk) (nat (page rid) + 1)
           \<and> sameTable tbl tbl'
           \<and> (if d ! nat (4 + slot rid) = 0
               then fst (getRecord ps tbl disk rid r) = RC_RM_NO_MORE_TUPLES \<and> r' = r
                    \<and> poolInv ps (bufferPool tbl') disk' None
                    \<and> contents (bufferPool tbl') disk' = cs
               else (case memcpy (rec_data r) 0 d (slotOffset ps (recordSize tbl) (slot rid))
                            (recordSize tbl) of
                       None \<Rightarrow> fst (getRecord ps tbl disk rid r) = UNDEFINED_BEHAVIOUR
                     | Some d1 \<Rightarrow>
                         fst (getRecord ps tbl disk rid r) = RC_OK
                         \<and> r' = \<lparr>rec_id = rid, rec_data = d1\<rparr>
                         \<and> poolInv ps (bufferPool tbl') disk' None
                         \<and> contents (bufferPool tbl') disk' = cs))"
proof -
  from pin_page [OF inv pg] obtain bp disk' h where
    pin: "pinPage ps (bufferPool tbl) disk (page rid) = Inr (bp, disk', h)"
      "pinnedAt ps bp disk' h" "ph_pageNum h = page rid"
      "length disk' = max (length disk) (nat (page rid) + 1)"
      "contents bp disk' = cs" "frameData bp h = d"
    unfolding cs_def d_def pagesAt_def by blast
  have len: "length d = ps" using pinnedAt_resident(2) [OF pin(2)] pin(6) by simp
  have flag: "getSlotFlag d (slot rid) = Some (d ! nat (4 + slot rid))"
    using sl len by (simp add: getSlotFlag_in)
  show ?thesis
  proof (cases "d ! nat (4 + slot rid) = 0")
    case True
    show ?thesis
      using True flag pin release_read [OF pin(2)]
      by (simp add: getRecord_def Let_def sameTable_def)
  next
    case False
    show ?thesis
    proof (cases "memcpy (rec_data r) 0 d (slotOffset ps (recordSize tbl) (slot rid)) (recordSize tbl)")
      case None
      then show ?thesis using False flag pin
        by (simp add: getRecord_def Let_def sameTable_def)
    next
      case (Some d1)
      show ?thesis
        using False flag pin Some release_read [OF pin(2)]
        by (simp add: getRecord_def Let_def sameTable_def)
    qed
  qed
qed

lemma poolInv_ensureCapacity:
  assumes "poolInv ps bm disk pin"
  shows "poolInv ps bm (ensureCapacity ps n disk) pin"
proof -
  obtain m where m: "mgmtData bm = Some m" using poolInv_mgmt [OF assms] by blast
  note D = poolInv_D [OF assms m]
  show ?thesis
  proof (rule poolInv_I [OF m D(1) D(2) D(3)])
    show "frameOk ps (ensureCapacity ps n disk) (frames m ! i)" if "i < numPages bm" for i
      using D(4) [OF that]
      by (auto simp: frameOk_def length_ensureCapacity nth_ensureCapacity(1))
    show "fixCount (frames m ! i) = (if pin = Some i then 1 else 0)" if "i < numPages bm" for i
      by (rule D(5) [OF that])
    show "i = j" if "i < numPages bm" "j < numPages bm" "pageNum (frames m ! i) = pageNum (frames m ! j)"
      "pageNum (frames m ! i) \<noteq> - 1" for i j
      by (rule D(6) [OF that])
    show "length pg = ps" if "pg \<in> set (ensureCapacity ps n disk)" for pg
      using that set_ensureCapacity [of ps n disk] D(7) by (auto simp: zeroPage_def)
  qed
qed

lemma contents_ensureCapacity:
  assumes "poolInv ps bm disk pin"
  shows "contents bm (ensureCapacity ps n disk) = ensureCapacity ps n (contents bm disk)"
proof (rule nth_equalityI)
  show "length (contents bm (ensureCapacity ps n disk)) = length (ensureCapacity ps n (contents bm disk))"
    by (simp add: length_contents length_ensureCapacity)
next
  obtain m where m: "mgmtData bm = Some m" using poolInv_mgmt [OF assms] by blast
  note D = poolInv_D [OF assms m]
  fix k assume "k < length (contents bm (ensureCapacity ps n disk))"
  then have k: "k < max (length disk) n" by (simp add: length_contents length_ensureCapacity)
  show "contents bm (ensureCapacity ps n disk) ! k = ensureCapacity ps n (contents bm disk) ! k"
  proof (cases "k < length disk")
    case True
    then show ?thesis using k m
      by (simp add: nth_contents length_ensureCapacity nth_ensureCapacity(1) length_contents
          pageBytes_def split: option.splits)
  next
    case False
    have "findPageFrame m (numPages bm) (int k) = None"
    proof (cases "findPageFrame m (numPages bm) (int k)")
      case (Some i)
      then have i: "i < numPages bm" "pageNum (frames m ! i) = int k"
        using findPageFrame_Some by blast+
      then show ?thesis using D(4) [OF i(1)] False by (auto simp: frameOk_def)
    qed simp
    then show ?thesis using False k m
      by (simp add: nth_contents length_ensureCapacity nth_ensureCapacity(2) length_contents
          pageBytes_def)
  qed
qed

lemma ensureCapacity_twice:
  "ensureCapacity ps n (ensureCapacity ps n xs) = ensureCapacity ps n xs"
  by (simp add: ensureCapacity_def)

lemma ensureCapacity_Suc_length:
  "ensureCapacity ps (Suc (length xs)) xs = xs @ [zeroPage ps]"
  by (simp add: ensureCapacity_def)

lemma ensureCapacity_id: "n \<le> length xs \<Longrightarrow> ensureCapacity ps n xs = xs"
  by (simp add: ensureCapacity_def)

lemma putInt_zeroPage: "4 \<le> ps \<Longrightarrow> putInt (zeroPage ps) 0 = zeroPage ps"
proof -
  assume ps: "4 \<le> ps"
  have "replicate 4 (0::byte) @ replicate (ps - 4) 0 = replicate ps 0"
    using ps by (simp flip: replicate_add)
  then show ?thesis by (simp add: putInt_def zeroPage_def wordBytes_def eval_nat_numeral)
qed

text \<open>The first part of \<open>insertRecord\<close>: a new zeroed data page is appended.\<close>

lemma insertRecord_append:
  assumes inv: "poolInv ps (bufferPool tbl) disk None" and ps: "4 \<le> ps"
    and nfp: "nextFreePage tbl < 1" and len: "1 \<le> length disk"
  shows "\<exists>tbl1 disk1. insertRecord (Suc fuel) ps tbl disk r = insertRecord (Suc fuel) ps tbl1 disk1 r
           \<and> poolInv ps (bufferPool tbl1) disk1 None
           \<and> length disk1 = Suc (length disk)
           \<and> contents (bufferPool tbl1) disk1 = contents (bufferPool tbl) disk @ [zeroPage ps]
           \<and> nextFreePage tbl1 = int (length disk)
           \<and> numTuples tbl1 = numTuples tbl \<and> recordSize tbl1 = recordSize tbl"
proof -
  let ?np = "int (length disk)"
  let ?disk1 = "ensureCapacity ps (nat (?np + 1)) disk"
  have inv1: "poolInv ps (bufferPool tbl) ?disk1 None" by (rule poolInv_ensureCapacity [OF inv])
  have c1: "contents (bufferPool tbl) ?disk1 = contents (bufferPool tbl) disk @ [zeroPage ps]"
    using contents_ensureCapacity [OF inv, of "nat (?np + 1)"]
    by (simp add: ensureCapacity_def length_contents nat_add_distrib)
  have l1: "length ?disk1 = Suc (length disk)" by (simp add: length_ensureCapacity nat_add_distrib)
  have pos: "0 \<le> ?np" by simp
  from pin_page [OF inv1 pos] obtain bp disk2 h where
    pin: "pinPage ps (bufferPool tbl) ?disk1 ?np = Inr (bp, disk2, h)"
      "pinnedAt ps bp disk2 h" "ph_pageNum h = ?np"
      "length disk2 = max (length ?disk1) (nat ?np + 1)"
      "contents bp disk2 = ensureCapacity ps (nat ?np + 1) (contents (bufferPool tbl) ?disk1)"
    by blast
  have c2: "contents bp disk2 = contents (bufferPool tbl) disk @ [zeroPage ps]"
    using pin(5) c1 by (simp add: ensureCapacity_def length_contents)
  have l2: "length disk2 = Suc (length disk)" using pin(4) l1 by simp
  let ?z = "putInt (zeroPage ps) 0"
  have z: "?z = zeroPage ps" by (rule putInt_zeroPage [OF ps])
  have lz: "length ?z = ps" unfolding z by (simp add: zeroPage_def)
  let ?bp3 = "snd (unpinPage (snd (markDirty (setFrameData bp h ?z) h)) h)"
  note rel = release_write [OF pin(2) lz]
  have upd: "(contents (bufferPool tbl) disk @ [zeroPage ps])[length disk := zeroPage ps]
               = contents (bufferPool tbl) disk @ [zeroPage ps]"
    using list_update_length [of "contents (bufferPool tbl) disk" "zeroPage ps" "[]" "zeroPage ps"]
    by (simp add: length_contents)
  have c3: "contents ?bp3 disk2 = contents (bufferPool tbl) disk @ [zeroPage ps]"
    using rel(2) c2 pin(3) upd by (simp add: z)
  let ?tbl1 = "tbl\<lparr>bufferPool := ?bp3, nextFreePage := ?np\<rparr>"
  have ne: "disk \<noteq> []" using len by auto
  have "insertRecord (Suc fuel) ps tbl disk r = insertRecord (Suc fuel) ps ?tbl1 disk2 r"
    using nfp ne pin(1) by (simp add: Let_def)
  then show ?thesis using rel(1) l2 c3 by (intro exI [of _ ?tbl1] exI [of _ disk2]) simp
qed

lemma findFreeSlot_Some:
  "findFreeSlot d n = Some k \<Longrightarrow> k < n \<and> d ! (4 + k) = 0 \<and> (\<forall>i<k. d ! (4 + i) \<noteq> 0)"
  by (auto simp: findFreeSlot_def find_Some_iff)

lemma findFreeSlot_None:
  "findFreeSlot d n = None \<longleftrightarrow> (\<forall>i<n. d ! (4 + i) \<noteq> 0)"
  by (auto simp: findFreeSlot_def find_None_iff)

lemma length_placeRecord:
  assumes "4 \<le> ps" "length d = ps" "s < computeMaxSlots ps recSize" "recSize \<le> length bytes"
  shows "length (placeRecord ps recSize d s bytes) = ps"
  using slot_payload_fits [OF assms(1,3)] assms
  by (simp add: placeRecord_def Let_def length_putInt length_setSlotFlag)

lemma memcpy_record_in:
  assumes "4 \<le> ps" "length d = ps" "s < computeMaxSlots ps recSize" "recSize \<le> length bytes"
  shows "memcpy d (slotOffset ps recSize (int s)) bytes 0 recSize
           = Some (take (4 + computeMaxSlots ps recSize + s * recSize) d @ take recSize bytes
                   @ drop (4 + computeMaxSlots ps recSize + s * recSize + recSize) d)"
  using slot_payload_fits [OF assms(1,3)] assms
  by (simp add: memcpy_def slotOffset_nat del: of_nat_add of_nat_mult)

lemma insertRecord_place:
  assumes inv: "poolInv ps (bufferPool tbl) disk None" and ps: "4 \<le> ps"
    and nfp: "1 \<le> nextFreePage tbl" and rl: "recordSize tbl \<le> length (rec_data r)"
    and free: "findFreeSlot (pagesAt ps tbl disk (nextFreePage tbl) ! nat (nextFreePage tbl))
                 (computeMaxSlots ps (recordSize tbl)) = Some s"
  defines "cs \<equiv> pagesAt ps tbl disk (nextFreePage tbl)"
  defines "d \<equiv> pagesAt ps tbl disk (nextFreePage tbl) ! nat (nextFreePage tbl)"
  shows "\<exists>tbl' disk'. insertRecord (Suc fuel) ps tbl disk r
             = Some (RC_OK, tbl', disk', r\<lparr>rec_id := \<lparr>page = nextFreePage tbl, slot = int s\<rparr>\<rparr>)
           \<and> poolInv ps (bufferPool tbl') disk' None
           \<and> length disk' = max (length disk) (nat (nextFreePage tbl) + 1)
           \<and> contents (bufferPool tbl') disk'
                = cs[nat (nextFreePage tbl) := placeRecord ps (recordSize tbl) d s (rec_data r)]
           \<and> numTuples tbl' = numTuples tbl + 1
           \<and> nextFreePage tbl' =
                (if getInt d + 1 = int (computeMaxSlots ps (recordSize tbl)) then - 1
                 else nextFreePage tbl)
           \<and> recordSize tbl' = recordSize tbl"
proof -
  have pos: "0 \<le> nextFreePage tbl" using nfp by simp
  from pin_page [OF inv pos] obtain bp disk' h where
    pin: "pinPage ps (bufferPool tbl) disk (nextFreePage tbl) = Inr (bp, disk', h)"
      "pinnedAt ps bp disk' h" "ph_pageNum h = nextFreePage tbl"
      "length disk' = max (length disk) (nat (nextFreePage tbl) + 1)"
      "contents bp disk' = cs" "frameData bp h = d"
    unfolding cs_def d_def pagesAt_def by blast
  have len: "length d = ps" using pinnedAt_resident(2) [OF pin(2)] pin(6) by simp
  have s: "s < computeMaxSlots ps (recordSize tbl)"
    using findFreeSlot_Some [OF free] by simp
  have fr: "findFreeSlot d (computeMaxSlots ps (recordSize tbl)) = Some s"
    using free by (simp add: d_def)
  note mc = memcpy_record_in [OF ps len s rl]
  let ?d3 = "placeRecord ps (recordSize tbl) d s (rec_data r)"
  have l3: "length ?d3 = ps" by (rule length_placeRecord [OF ps len s rl])
  note rel = release_write [OF pin(2) l3]
  have "\<not> nextFreePage tbl < 1" using nfp by simp
  then show ?thesis
    using pin fr mc rel
    by (simp add: Let_def placeRecord_def)
qed

lemma insertRecord_full:
  assumes inv: "poolInv ps (bufferPool tbl) disk None"
    and nfp: "1 \<le> nextFreePage tbl"
    and full: "findFreeSlot (pagesAt ps tbl disk (nextFreePage tbl) ! nat (nextFreePage tbl))
                 (computeMaxSlots ps (recordSize tbl)) = None"
  shows "\<exists>tbl2 disk2. insertRecord (Suc fuel) ps tbl disk r = insertRecord fuel ps tbl2 disk2 r
           \<and> poolInv ps (bufferPool tbl2) disk2 None
           \<and> length disk2 = max (length disk) (nat (nextFreePage tbl) + 1)
           \<and> contents (bufferPool tbl2) disk2 = pagesAt ps tbl disk (nextFreePage tbl)
           \<and> nextFreePage tbl2 = - 1
           \<and> numTuples tbl2 = numTuples tbl \<and> recordSize tbl2 = recordSize tbl"
proof -
  have pos: "0 \<le> nextFreePage tbl" using nfp by simp
  from pin_page [OF inv pos] obtain bp disk' h where
    pin: "pinPage ps (bufferPool tbl) disk (nextFreePage tbl) = Inr (bp, disk', h)"
      "pinnedAt ps bp disk' h" "ph_pageNum h = nextFreePage tbl"
      "length disk' = max (length disk) (nat (nextFreePage tbl) + 1)"
      "contents bp disk' = pagesAt ps tbl disk (nextFreePage tbl)"
      "frameData bp h = pagesAt ps tbl disk (nextFreePage tbl) ! nat (nextFreePage tbl)"
    unfolding pagesAt_def by blast
  note rel = release_dirty [OF pin(2)]
  let ?tbl2 = "tbl\<lparr>nextFreePage := - 1, bufferPool := snd (unpinPage (snd (markDirty bp h)) h)\<rparr>"
  have "\<not> nextFreePage tbl < 1" using nfp by simp
  then have "insertRecord (Suc fuel) ps tbl disk r = insertRecord fuel ps ?tbl2 disk' r"
    using pin(1,6) full by (simp add: Let_def)
  then show ?thesis using rel pin(4,5) by (intro exI [of _ ?tbl2] exI [of _ disk']) simp
qed

subsection \<open>Usage bytes, headers and payloads\<close>

lemma pagesAt_existing:
  "nat pn < length disk \<Longrightarrow> pagesAt ps tbl disk pn = contents (bufferPool tbl) disk"
  by (simp add: pagesAt_def ensureCapacity_id length_contents)

lemma pagesAt_beyond:
  assumes "length disk \<le> nat pn"
  shows "pagesAt ps tbl disk pn
           = contents (bufferPool tbl) disk @ replicate (nat pn + 1 - length disk) (zeroPage ps)"
    and "pagesAt ps tbl disk pn ! nat pn = zeroPage ps"
proof -
  show "pagesAt ps tbl disk pn
           = contents (bufferPool tbl) disk @ replicate (nat pn + 1 - length disk) (zeroPage ps)"
    by (simp add: pagesAt_def ensureCapacity_def length_contents)
  show "pagesAt ps tbl disk pn ! nat pn = zeroPage ps"
    using assms by (simp add: pagesAt_def nth_ensureCapacity(2) length_contents)
qed

lemma nth_setSlotFlag:
  "k < length d \<Longrightarrow> setSlotFlag d s v ! k = (if k = nat (4 + s) then v else d ! k)"
  by (simp add: setSlotFlag_def nth_list_update)

lemma usedFlags_cong:
  assumes "\<And>i. i < n \<Longrightarrow> d' ! (4 + i) = d ! (4 + i)"
  shows "usedFlags n d' = usedFlags n d"
proof -
  have "filter (\<lambda>i. d' ! (4 + i) = 1) [0..<n] = filter (\<lambda>i. d ! (4 + i) = 1) [0..<n]"
    using assms by (intro filter_cong) auto
  then show ?thesis by (simp add: usedFlags_def)
qed

lemma usedFlags_split:
  assumes "s < n"
  shows "usedFlags n d = usedFlags s d + (if d ! (4 + s) = 1 then 1 else 0)
                         + length (filter (\<lambda>i. d ! (4 + i) = 1) [Suc s..<n])"
proof -
  have "[0..<n] = [0..<s] @ s # [Suc s..<n]"
    using assms by (metis le0 upt_add_eq_append upt_conv_Cons le_add_diff_inverse less_imp_le)
  then show ?thesis by (simp add: usedFlags_def)
qed

lemma usedFlags_le: "usedFlags n d \<le> n"
  using length_filter_le [of "\<lambda>i. d ! (4 + i) = 1" "[0..<n]"] by (simp add: usedFlags_def)

lemma usedFlags_free_lt:
  assumes "s < n" "d ! (4 + s) \<noteq> 1"
  shows "usedFlags n d < n"
proof -
  have "usedFlags s d \<le> s" by (rule usedFlags_le)
  moreover have "length (filter (\<lambda>i. d ! (4 + i) = 1) [Suc s..<n]) \<le> n - Suc s"
    using length_filter_le [of "\<lambda>i. d ! (4 + i) = 1" "[Suc s..<n]"] by simp
  ultimately show ?thesis using usedFlags_split [OF assms(1), of d] assms by simp
qed

lemma usedFlags_update:
  assumes "s < n" "\<And>i. i < n \<Longrightarrow> i \<noteq> s \<Longrightarrow> d' ! (4 + i) = d ! (4 + i)"
  shows "usedFlags n d' + (if d ! (4 + s) = 1 then 1 else 0)
           = usedFlags n d + (if d' ! (4 + s) = 1 then 1 else 0)"
proof -
  have a: "usedFlags s d' = usedFlags s d"
    using assms by (intro usedFlags_cong) auto
  have b: "filter (\<lambda>i. d' ! (4 + i) = 1) [Suc s..<n] = filter (\<lambda>i. d ! (4 + i) = 1) [Suc s..<n]"
    using assms by (intro filter_cong) auto
  show ?thesis
    using usedFlags_split [OF assms(1), of d] usedFlags_split [OF assms(1), of d'] a b by simp
qed

lemma usedFlags_zeroPage: "4 + n \<le> ps \<Longrightarrow> usedFlags n (zeroPage ps) = 0"
  by (simp add: usedFlags_def zeroPage_def filter_empty_conv)

lemma sum_list_map_update:
  fixes f :: "'a \<Rightarrow> int"
  assumes "k < length xs"
  shows "sum_list (map f (xs[k := y])) = sum_list (map f xs) - f (xs ! k) + f y"
proof -
  have "xs = take k xs @ xs ! k # drop (Suc k) xs" using assms by (simp add: id_take_nth_drop)
  moreover have "xs[k := y] = take k xs @ y # drop (Suc k) xs" using assms by (simp add: upd_conv_take_nth_drop)
  ultimately have "sum_list (map f xs) = sum_list (map f (take k xs)) + f (xs ! k) + sum_list (map f (drop (Suc k) xs))"
    and "sum_list (map f (xs[k := y])) = sum_list (map f (take k xs)) + f y + sum_list (map f (drop (Suc k) xs))"
    by (metis map_append list.simps(9) sum_list.append sum_list.Cons add.assoc)+
  then show ?thesis by simp
qed

lemma take_drop_eqI:
  assumes "\<And>j. j < n \<Longrightarrow> xs ! (a + j) = ys ! (a + j)" "a + n \<le> length xs" "a + n \<le> length ys"
  shows "take n (drop a xs) = take n (drop a ys)"
  using assms by (intro nth_equalityI) auto

lemma nth_copy:
  assumes "off + n \<le> length d" "n \<le> length bytes" "k < length d"
  shows "(take off d @ take n bytes @ drop (off + n) d) ! k
           = (if off \<le> k \<and> k < off + n then bytes ! (k - off) else d ! k)"
  using assms by (auto simp: nth_append min_def)

lemma length_copy:
  "off + n \<le> length d \<Longrightarrow> n \<le> length bytes
     \<Longrightarrow> length (take off d @ take n bytes @ drop (off + n) d) = length d"
  by auto

lemma slots_disjoint:
  assumes "s \<noteq> (t::nat)" "j < r" "k < r"
  shows "a + s * r + j \<noteq> a + t * r + k"
proof -
  consider "s < t" | "t < s" using assms(1) by linarith
  then show ?thesis
  proof cases
    case 1
    then have "(s + 1) * r \<le> t * r" by (intro mult_le_mono1) simp
    then show ?thesis using assms(2) by (simp add: algebra_simps)
  next
    case 2
    then have "(t + 1) * r \<le> s * r" by (intro mult_le_mono1) simp
    then show ?thesis using assms(3) by (simp add: algebra_simps)
  qed
qed

text \<open>The bytes of a page after each of the three changes.\<close>

lemma nth_freed:
  assumes "4 \<le> k" "k < length d"
  shows "putInt (setSlotFlag d (int s) v) x ! k = (if k = 4 + s then v else d ! k)"
  using assms by (simp add: nth_putInt length_setSlotFlag nth_setSlotFlag nat_add_distrib)

lemma nth_placed:
  assumes "4 \<le> ps" "length d = ps" "s < computeMaxSlots ps recSize" "recSize \<le> length bytes"
    "4 \<le> k" "k < ps"
  shows "placeRecord ps recSize d s bytes ! k =
           (if k = 4 + s then 1
            else if 4 + computeMaxSlots ps recSize + s * recSize \<le> k
                    \<and> k < 4 + computeMaxSlots ps recSize + s * recSize + recSize
                 then bytes ! (k - (4 + computeMaxSlots ps recSize + s * recSize))
                 else d ! k)"
proof -
  let ?off = "4 + computeMaxSlots ps recSize + s * recSize"
  have fit: "?off + recSize \<le> length d" using slot_payload_fits [OF assms(1,3)] assms(2) by simp
  have "k \<noteq> 4 + s" if "?off \<le> k" using that assms(3) by simp
  then show ?thesis
    using assms fit
    by (auto simp: placeRecord_def Let_def nth_freed length_copy nth_copy)
qed

lemma slotEffect_length:
  assumes "slotEffect ps recSize s d d' delta" "4 \<le> ps" "length d = ps"
  shows "length d' = ps"
  using assms
proof (induction rule: slotEffect.induct)
  case (unchanged s d)
  then show ?case by simp
next
  case (freed s d)
  then show ?case by (simp add: length_putInt length_setSlotFlag)
next
  case (overwritten s d bytes d')
  then show ?case using memcpy_Some [OF overwritten(3)] by simp
next
  case (placed s d bytes)
  then show ?case by (simp add: length_placeRecord)
qed

lemma slotEffect_other_flags:
  assumes "slotEffect ps recSize s d d' delta" "4 \<le> ps" "length d = ps"
    "i < computeMaxSlots ps recSize" "i \<noteq> s"
  shows "d' ! (4 + i) = d ! (4 + i)"
  using assms
proof (induction rule: slotEffect.induct)
  case (unchanged s d)
  then show ?case by simp
next
  case (freed s d)
  have "4 + i < ps" using computeMaxSlots_fits [OF freed(3), of recSize] freed(5) by simp
  then show ?case using freed by (simp add: nth_freed)
next
  case (overwritten s d bytes d')
  have "4 + i < nat (slotOffset ps recSize (int s))"
    using overwritten(6) by (simp add: slotOffset_nat del: of_nat_add of_nat_mult)
  then show ?case using memcpy_nth_outside [OF overwritten(3)] by simp
next
  case (placed s d bytes)
  have "4 + i < ps" using computeMaxSlots_fits [OF placed(4), of recSize] placed(6) by simp
  then show ?case using placed by (simp add: nth_placed)
qed

lemma slotEffect_flag:
  assumes eff: "slotEffect ps recSize s d d' delta" and ps: "4 \<le> ps" and len: "length d = ps"
  shows "delta = 0 \<and> d' ! (4 + s) = d ! (4 + s)
       \<or> delta = - 1 \<and> d ! (4 + s) = 1 \<and> d' ! (4 + s) = 0 \<and> s < computeMaxSlots ps recSize
       \<or> delta = 1 \<and> d ! (4 + s) = 0 \<and> d' ! (4 + s) = 1 \<and> s < computeMaxSlots ps recSize"
  using eff
proof (cases rule: slotEffect.cases)
  case unchanged
  then show ?thesis by simp
next
  case freed
  have k: "4 + s < length d" using computeMaxSlots_fits [OF ps, of recSize] freed(3) len by simp
  have "d' ! (4 + s) = 0" unfolding freed(1) using nth_freed [of "4 + s" d s 0] k by simp
  then show ?thesis using freed by simp
next
  case (overwritten bytes)
  have "4 + s < nat (slotOffset ps recSize (int s))"
    using overwritten(2) by (simp add: slotOffset_nat del: of_nat_add of_nat_mult)
  then have "d' ! (4 + s) = d ! (4 + s)" using memcpy_nth_outside [OF overwritten(4)] by blast
  then show ?thesis using overwritten by simp
next
  case (placed bytes)
  have k: "4 + s < ps" using computeMaxSlots_fits [OF ps, of recSize] placed(3) by simp
  have "d' ! (4 + s) = 1" unfolding placed(1)
    using nth_placed [OF ps len placed(3) placed(5) _ k] by simp
  then show ?thesis using placed by simp
qed

lemma getInt_cong: "take 4 d' = take 4 d \<Longrightarrow> getInt d' = getInt d"
  by (simp add: getInt_def)

lemma memcpy_header:
  assumes "memcpy d off bytes 0 n = Some d'" "4 \<le> nat off"
  shows "getInt d' = getInt d"
proof -
  have d': "d' = take (nat off) d @ take n (drop (nat 0) bytes) @ drop (nat off + n) d"
    and fit: "nat off + n \<le> length d"
    using memcpy_Some [OF assms(1)] by blast+
  have "take 4 (take (nat off) d) = take 4 d" using assms(2) by (simp add: min_def)
  moreover have "4 \<le> length (take (nat off) d)" using assms(2) fit by simp
  ultimately have "take 4 d' = take 4 d" unfolding d' by simp
  then show ?thesis by (rule getInt_cong)
qed

lemma slotEffect_header:
  assumes eff: "slotEffect ps recSize s d d' delta" and ps: "4 \<le> ps" and len: "length d = ps"
    and lo: "- (2 ^ 31) \<le> getInt d + delta" and hi: "getInt d + delta < 2 ^ 31"
  shows "getInt d' = getInt d + delta"
  using eff
proof (cases rule: slotEffect.cases)
  case unchanged
  then show ?thesis by simp
next
  case freed
  have lo': "- (2 ^ 31) \<le> getInt d - 1" and hi': "getInt d - 1 < 2 ^ 31"
    using lo hi freed(2) by simp_all
  have "getInt d' = getInt d - 1" unfolding freed(1) by (rule getInt_putInt [OF lo' hi'])
  then show ?thesis using freed(2) by simp
next
  case (overwritten bytes)
  have o4: "4 \<le> nat (slotOffset ps recSize (int s))"
    by (simp add: slotOffset_nat del: of_nat_add of_nat_mult)
  show ?thesis using memcpy_header [OF overwritten(4) o4] overwritten(1) by simp
next
  case (placed bytes)
  have lo': "- (2 ^ 31) \<le> getInt d + 1" and hi': "getInt d + 1 < 2 ^ 31"
    using lo hi placed(2) by simp_all
  have "getInt d' = getInt d + 1" unfolding placed(1) placeRecord_def Let_def
    by (rule getInt_putInt [OF lo' hi'])
  then show ?thesis using placed(2) by simp
qed

lemma region_apart:
  assumes "s \<noteq> (t::nat)" "j < r"
  shows "\<not> (a + s * r \<le> a + t * r + j \<and> a + t * r + j < a + s * r + r)"
proof
  assume h: "a + s * r \<le> a + t * r + j \<and> a + t * r + j < a + s * r + r"
  let ?k = "a + t * r + j - (a + s * r)"
  have "?k < r" "a + s * r + ?k = a + t * r + j" using h by linarith+
  then show False using slots_disjoint [where j = ?k and a = a, OF assms(1) _ assms(2)] by simp
qed

lemma slotEffect_other_payload:
  assumes eff: "slotEffect ps recSize s d d' delta" and ps: "4 \<le> ps" and len: "length d = ps"
    and t: "t < computeMaxSlots ps recSize" and ne: "t \<noteq> s"
  shows "slotPayload ps recSize d' t = slotPayload ps recSize d t"
proof -
  let ?N = "computeMaxSlots ps recSize"
  let ?offt = "4 + ?N + t * recSize"
  let ?offs = "4 + ?N + s * recSize"
  have l': "length d' = ps" by (rule slotEffect_length [OF eff ps len])
  have fit: "?offt + recSize \<le> ps" by (rule slot_payload_fits [OF ps t])
  have "d' ! (?offt + j) = d ! (?offt + j)" if j: "j < recSize" for j
  proof -
    have apart: "\<not> (?offs \<le> ?offt + j \<and> ?offt + j < ?offs + recSize)"
      using region_apart [where a = "4 + ?N", OF ne [symmetric] j] by simp
    have k4: "4 \<le> ?offt + j" by simp
    have kps: "?offt + j < ps" using fit j by simp
    from eff show ?thesis
    proof (cases rule: slotEffect.cases)
      case unchanged
      then show ?thesis by simp
    next
      case freed
      have "?offt + j \<noteq> 4 + s" using freed(3) by simp
      then show ?thesis using freed(1) nth_freed [where k = "?offt + j" and d = d and s = s and v = 0 and x = "getInt d - 1"] kps len by simp
    next
      case (overwritten bytes)
      have "?offt + j < ?offs \<or> ?offs + recSize \<le> ?offt + j" using apart by linarith
      then show ?thesis using memcpy_nth_outside [OF overwritten(4), of "?offt + j"]
        by (simp add: slotOffset_nat del: of_nat_add of_nat_mult)
    next
      case (placed bytes)
      have "?offt + j \<noteq> 4 + s" using placed(3) by simp
      then show ?thesis
        using placed(1) nth_placed [OF ps len placed(3) placed(5) k4 kps] apart by auto
    qed
  qed
  then show ?thesis
    unfolding slotPayload_def using fit l' len by (intro take_drop_eqI) auto
qed

subsection \<open>The effect of one call\<close>

lemma pinPage_negative:
  "poolInv ps bm disk pin \<Longrightarrow> pn < 0 \<Longrightarrow> pinPage ps bm disk pn = Inl RC_ERROR"
  by (auto simp: pinPage_def poolInv_def split: option.splits)

lemma slotOk_nat:
  assumes "slotOk ps recSize rid"
  shows "nat (slot rid) < computeMaxSlots ps recSize" "int (nat (slot rid)) = slot rid"
    "nat (4 + slot rid) = 4 + nat (slot rid)" "0 \<le> 4 + slot rid"
  using assms by (auto simp: slotOk_def)

lemma slotOk_in_page:
  assumes "slotOk ps recSize rid" "4 \<le> ps"
  shows "nat (4 + slot rid) < ps"
  using computeMaxSlots_fits [OF assms(2), of recSize] slotOk_nat(1,3) [OF assms(1)] by simp

lemma tableReady_D:
  assumes "tableReady ps tbl disk"
  shows "poolInv ps (bufferPool tbl) disk None" "4 \<le> ps" "1 \<le> length disk"
  using assms by (simp_all add: tableReady_def)

lemma length_pagesAt_ge: "length disk \<le> length (pagesAt ps tbl disk pn)"
  by (simp add: pagesAt_length)

lemma delete_callEffect:
  assumes rdy: "tableReady ps tbl disk" and ok: "slotOk ps (recordSize tbl) rid" and pg: "0 \<le> page rid"
  shows "\<exists>tbl' disk' d'. deleteRecord ps tbl disk rid = (RC_OK, tbl', disk')
           \<and> callEffect ps tbl disk tbl' disk' (nat (page rid) + 1) (nat (page rid)) (nat (slot rid)) d'
           \<and> numTuples tbl' \<le> numTuples tbl"
proof -
  note R = tableReady_D [OF rdy]
  note S = slotOk_nat [OF ok]
  let ?cs = "pagesAt ps tbl disk (page rid)"
  let ?p = "nat (page rid)"
  let ?d = "?cs ! ?p"
  have plt: "?p < length ?cs" by (simp add: pagesAt_length)
  from deleteRecord_spec [OF R(1,2) pg S(4) slotOk_in_page [OF ok R(2)]] obtain tbl' disk' where
    r: "deleteRecord ps tbl disk rid = (RC_OK, tbl', disk')"
       "poolInv ps (bufferPool tbl') disk' None"
       "length disk' = max (length disk) (?p + 1)" "recordSize tbl' = recordSize tbl"
       "if ?d ! nat (4 + slot rid) = 1
        then contents (bufferPool tbl') disk'
               = ?cs[?p := putInt (setSlotFlag ?d (slot rid) 0) (getInt ?d - 1)]
             \<and> numTuples tbl' = numTuples tbl - 1
             \<and> nextFreePage tbl' =
                 (if getInt ?d - 1 = int (computeMaxSlots ps (recordSize tbl)) - 1
                  then page rid else nextFreePage tbl)
        else contents (bufferPool tbl') disk' = ?cs \<and> sameTable tbl tbl'"
    by blast
  have rdy': "tableReady ps tbl' disk'" using r(2,3) R by (simp add: tableReady_def)
  show ?thesis
  proof (cases "?d ! nat (4 + slot rid) = 1")
    case True
    let ?d' = "putInt (setSlotFlag ?d (int (nat (slot rid))) 0) (getInt ?d - 1)"
    have eff: "slotEffect ps (recordSize tbl) (nat (slot rid)) ?d ?d' (- 1)"
      using True S by (intro slotEffect.freed) simp_all
    have "callEffect ps tbl disk tbl' disk' (?p + 1) ?p (nat (slot rid)) ?d'"
      unfolding callEffect_def using rdy' r(4,5) True eff plt S(2)
      by (simp add: pagesAt_def)
    moreover have "numTuples tbl' \<le> numTuples tbl" using r(5) True by simp
    ultimately show ?thesis using r(1) by blast
  next
    case False
    have "?cs[?p := ?d] = ?cs" by simp
    then have "callEffect ps tbl disk tbl' disk' (?p + 1) ?p (nat (slot rid)) ?d"
      unfolding callEffect_def using rdy' r(4,5) False plt slotEffect.unchanged [of ps "recordSize tbl"]
      by (simp add: pagesAt_def sameTable_def)
    moreover have "numTuples tbl' \<le> numTuples tbl" using r(5) False by (simp add: sameTable_def)
    ultimately show ?thesis using r(1) by blast
  qed
qed

lemma record_fits:
  assumes "4 \<le> ps" "length d = ps" "s < computeMaxSlots ps recSize" "recSize \<le> length bytes"
  shows "\<exists>d1. memcpy d (slotOffset ps recSize (int s)) bytes 0 recSize = Some d1"
  using memcpy_record_in [OF assms] by simp

lemma update_callEffect:
  assumes rdy: "tableReady ps tbl disk" and ok: "slotOk ps (recordSize tbl) (rec_id r)"
    and pg: "0 \<le> page (rec_id r)" and rl: "recordSize tbl \<le> length (rec_data r)"
  shows "\<exists>rc tbl' disk' d'. updateRecord ps tbl disk r = (rc, tbl', disk')
           \<and> callEffect ps tbl disk tbl' disk' (nat (page (rec_id r)) + 1) (nat (page (rec_id r)))
                (nat (slot (rec_id r))) d'
           \<and> sameTable tbl tbl'
           \<and> (if pagesAt ps tbl disk (page (rec_id r)) ! nat (page (rec_id r)) ! nat (4 + slot (rec_id r)) = 0
               then rc = RC_READ_NON_EXISTING_PAGE
                    \<and> d' = pagesAt ps tbl disk (page (rec_id r)) ! nat (page (rec_id r))
               else rc = RC_OK
                    \<and> memcpy (pagesAt ps tbl disk (page (rec_id r)) ! nat (page (rec_id r)))
                          (slotOffset ps (recordSize tbl) (slot (rec_id r))) (rec_data r) 0
                          (recordSize tbl) = Some d')"
proof -
  note R = tableReady_D [OF rdy]
  note S = slotOk_nat [OF ok]
  let ?rid = "rec_id r"
  let ?cs = "pagesAt ps tbl disk (page ?rid)"
  let ?p = "nat (page ?rid)"
  let ?d = "?cs ! ?p"
  have plt: "?p < length ?cs" by (simp add: pagesAt_length)
  have len: "length ?d = ps" by (rule pagesAt_page_length [OF R(1) plt])
  from record_fits [OF R(2) len S(1) rl] obtain d1 where
    d1: "memcpy ?d (slotOffset ps (recordSize tbl) (slot ?rid)) (rec_data r) 0 (recordSize tbl) = Some d1"
    using S(2) by auto
  from updateRecord_spec [OF R(1) pg S(4) slotOk_in_page [OF ok R(2)]] obtain tbl' disk' where
    r: "snd (updateRecord ps tbl disk r) = (tbl', disk')"
       "length disk' = max (length disk) (?p + 1)" "sameTable tbl tbl'"
       "if ?d ! nat (4 + slot ?rid) = 0
        then fst (updateRecord ps tbl disk r) = RC_READ_NON_EXISTING_PAGE
             \<and> poolInv ps (bufferPool tbl') disk' None
             \<and> contents (bufferPool tbl') disk' = ?cs
        else (case memcpy ?d (slotOffset ps (recordSize tbl) (slot ?rid)) (rec_data r) 0
                     (recordSize tbl) of
                None \<Rightarrow> fst (updateRecord ps tbl disk r) = UNDEFINED_BEHAVIOUR
              | Some d1 \<Rightarrow>
                  fst (updateRecord ps tbl disk r) = RC_OK
                  \<and> poolInv ps (bufferPool tbl') disk' None
                  \<and> contents (bufferPool tbl') disk' = ?cs[?p := d1])"
    by blast
  have eq: "updateRecord ps tbl disk r = (fst (updateRecord ps tbl disk r), tbl', disk')"
    using r(1) by (metis prod.collapse)
  have st: "numTuples tbl' - numTuples tbl = 0" "recordSize tbl' = recordSize tbl"
    using r(3) by (simp_all add: sameTable_def)
  show ?thesis
  proof (cases "?d ! nat (4 + slot ?rid) = 0")
    case True
    then have inv': "poolInv ps (bufferPool tbl') disk' None"
      and c: "contents (bufferPool tbl') disk' = ?cs"
      and rc: "fst (updateRecord ps tbl disk r) = RC_READ_NON_EXISTING_PAGE"
      using r(4) by simp_all
    have rdy': "tableReady ps tbl' disk'" using inv' r(2) R by (simp add: tableReady_def)
    have "callEffect ps tbl disk tbl' disk' (?p + 1) ?p (nat (slot ?rid)) ?d"
      unfolding callEffect_def using rdy' st c plt slotEffect.unchanged [of ps "recordSize tbl"]
      by (simp add: pagesAt_def)
    then show ?thesis using eq rc r(3) True by (metis (full_types))
  next
    case False
    then have inv': "poolInv ps (bufferPool tbl') disk' None"
      and c: "contents (bufferPool tbl') disk' = ?cs[?p := d1]"
      and rc: "fst (updateRecord ps tbl disk r) = RC_OK"
      using r(4) d1 by simp_all
    have rdy': "tableReady ps tbl' disk'" using inv' r(2) R by (simp add: tableReady_def)
    have eff: "slotEffect ps (recordSize tbl) (nat (slot ?rid)) ?d d1 0"
      using False S d1 by (intro slotEffect.overwritten [where bytes = "rec_data r"]) simp_all
    have "callEffect ps tbl disk tbl' disk' (?p + 1) ?p (nat (slot ?rid)) d1"
      unfolding callEffect_def using rdy' st c plt eff
      by (simp add: pagesAt_def)
    then show ?thesis using eq rc r(3) False d1 by (metis (full_types))
  qed
qed

lemma ensureCapacity_compose:
  "ensureCapacity ps n (ensureCapacity ps m xs) = ensureCapacity ps (max n m) xs"
proof -
  have "(m - length xs) + (n - (length xs + (m - length xs))) = max n m - length xs" by simp
  then have "replicate (m - length xs) (zeroPage ps)
               @ replicate (n - (length xs + (m - length xs))) (zeroPage ps)
              = replicate (max n m - length xs) (zeroPage ps)"
    by (simp flip: replicate_add)
  then show ?thesis by (simp add: ensureCapacity_def)
qed

lemma insertEffect_transfer:
  assumes "insertEffect ps r tbl2 disk2 rc tbl' disk' r'"
    and "contents (bufferPool tbl2) disk2 = ensureCapacity ps m (contents (bufferPool tbl) disk)"
    and "numTuples tbl2 = numTuples tbl" "recordSize tbl2 = recordSize tbl"
  shows "insertEffect ps r tbl disk rc tbl' disk' r'"
proof -
  from assms(1) obtain n p s where
    h: "rc = RC_OK" "1 \<le> p" "s < computeMaxSlots ps (recordSize tbl2)"
       "r' = r\<lparr>rec_id := \<lparr>page = int p, slot = int s\<rparr>\<rparr>"
       "ensureCapacity ps n (contents (bufferPool tbl2) disk2) ! p ! (4 + s) = 0"
       "callEffect ps tbl2 disk2 tbl' disk' n p s
              (placeRecord ps (recordSize tbl2)
                 (ensureCapacity ps n (contents (bufferPool tbl2) disk2) ! p) s (rec_data r))"
       "numTuples tbl' = numTuples tbl2 + 1"
    unfolding insertEffect_def by blast
  have e: "ensureCapacity ps n (contents (bufferPool tbl2) disk2)
             = ensureCapacity ps (max n m) (contents (bufferPool tbl) disk)"
    by (simp add: assms(2) ensureCapacity_compose)
  have "callEffect ps tbl disk tbl' disk' (max n m) p s
              (placeRecord ps (recordSize tbl)
                 (ensureCapacity ps (max n m) (contents (bufferPool tbl) disk) ! p) s (rec_data r))"
    using h(6) unfolding callEffect_def e assms(3,4) by simp
  then show ?thesis
    unfolding insertEffect_def using h(1,2,3,4,5,7) e assms(3,4)
    by (intro conjI exI [of _ "max n m"] exI [of _ p] exI [of _ s]) simp_all
qed

declare insertRecord.simps [simp del]

lemma insert_from_free_page:
  assumes IH: "\<And>tbl disk. tableReady ps tbl disk \<Longrightarrow> recordSize tbl \<le> length (rec_data r) \<Longrightarrow>
                 insertRecord f ps tbl disk r = Some (rc, tbl', disk', r') \<Longrightarrow>
                 insertEffect ps r tbl disk rc tbl' disk' r'"
    and rdy: "tableReady ps tbl disk" and rl: "recordSize tbl \<le> length (rec_data r)"
    and nfp: "1 \<le> nextFreePage tbl"
    and res: "insertRecord (Suc f) ps tbl disk r = Some (rc, tbl', disk', r')"
  shows "insertEffect ps r tbl disk rc tbl' disk' r'"
proof -
  note R = tableReady_D [OF rdy]
  let ?cs = "pagesAt ps tbl disk (nextFreePage tbl)"
  let ?p = "nat (nextFreePage tbl)"
  let ?d = "?cs ! ?p"
  let ?N = "computeMaxSlots ps (recordSize tbl)"
  have plt: "?p < length ?cs" by (simp add: pagesAt_length)
  show ?thesis
  proof (cases "findFreeSlot ?d ?N")
    case None
    from insertRecord_full [OF R(1) nfp None, of f r] obtain tbl2 disk2 where
      t: "insertRecord (Suc f) ps tbl disk r = insertRecord f ps tbl2 disk2 r"
         "poolInv ps (bufferPool tbl2) disk2 None"
         "length disk2 = max (length disk) (?p + 1)"
         "contents (bufferPool tbl2) disk2 = ?cs"
         "numTuples tbl2 = numTuples tbl" "recordSize tbl2 = recordSize tbl"
      by blast
    have rdy2: "tableReady ps tbl2 disk2" using t(2,3) R by (simp add: tableReady_def)
    have r2: "insertRecord f ps tbl2 disk2 r = Some (rc, tbl', disk', r')"
      using res t(1) by simp
    have rl2: "recordSize tbl2 \<le> length (rec_data r)" using rl t(6) by simp
    have e2: "insertEffect ps r tbl2 disk2 rc tbl' disk' r'"
      by (rule IH [OF rdy2 rl2 r2])
    have c2: "contents (bufferPool tbl2) disk2
                = ensureCapacity ps (?p + 1) (contents (bufferPool tbl) disk)"
      using t(4) by (simp add: pagesAt_def)
    show ?thesis
      by (rule insertEffect_transfer [OF e2 c2 t(5) t(6)])
  next
    case (Some s)
    from insertRecord_place [OF R(1,2) nfp rl Some, of f] obtain tbl1 disk1 where
      t: "insertRecord (Suc f) ps tbl disk r
            = Some (RC_OK, tbl1, disk1, r\<lparr>rec_id := \<lparr>page = nextFreePage tbl, slot = int s\<rparr>\<rparr>)"
         "poolInv ps (bufferPool tbl1) disk1 None"
         "length disk1 = max (length disk) (?p + 1)"
         "contents (bufferPool tbl1) disk1 = ?cs[?p := placeRecord ps (recordSize tbl) ?d s (rec_data r)]"
         "numTuples tbl1 = numTuples tbl + 1" "recordSize tbl1 = recordSize tbl"
      by blast
    have same: "rc = RC_OK" "tbl' = tbl1" "disk' = disk1"
      "r' = r\<lparr>rec_id := \<lparr>page = nextFreePage tbl, slot = int s\<rparr>\<rparr>"
      using res t(1) by simp_all
    have rdy1: "tableReady ps tbl1 disk1" using t(2,3) R by (simp add: tableReady_def)
    note F = findFreeSlot_Some [OF Some]
    have eff: "slotEffect ps (recordSize tbl) s ?d (placeRecord ps (recordSize tbl) ?d s (rec_data r)) 1"
      using F rl by (intro slotEffect.placed) simp_all
    have ce: "callEffect ps tbl disk tbl' disk' (?p + 1) ?p s
                (placeRecord ps (recordSize tbl) ?d s (rec_data r))"
      unfolding callEffect_def same using rdy1 t(4,5,6) plt eff by (simp add: pagesAt_def)
    have p1: "1 \<le> ?p" using nfp by simp
    have pp: "int ?p = nextFreePage tbl" using nfp by simp
    show ?thesis
      unfolding insertEffect_def
      using same(1,4) p1 pp F ce t(5) same(2)
      by (intro conjI exI [of _ "?p + 1"] exI [of _ ?p] exI [of _ s]) (simp_all add: pagesAt_def)
  qed
qed

lemma insert_effect:
  assumes "tableReady ps tbl disk" "recordSize tbl \<le> length (rec_data r)"
    and "insertRecord fuel ps tbl disk r = Some (rc, tbl', disk', r')"
  shows "insertEffect ps r tbl disk rc tbl' disk' r'"
  using assms
proof (induction fuel arbitrary: tbl disk)
  case 0
  then show ?case by (simp add: insertRecord.simps)
next
  case (Suc f)
  note R = tableReady_D [OF Suc.prems(1)]
  show ?case
  proof (cases "nextFreePage tbl < 1")
    case True
    from insertRecord_append [OF R(1,2) True R(3), of f r] obtain tbl1 disk1 where
      t: "insertRecord (Suc f) ps tbl disk r = insertRecord (Suc f) ps tbl1 disk1 r"
         "poolInv ps (bufferPool tbl1) disk1 None"
         "length disk1 = Suc (length disk)"
         "contents (bufferPool tbl1) disk1 = contents (bufferPool tbl) disk @ [zeroPage ps]"
         "nextFreePage tbl1 = int (length disk)"
         "numTuples tbl1 = numTuples tbl" "recordSize tbl1 = recordSize tbl"
      by blast
    have rdy1: "tableReady ps tbl1 disk1" using t(2,3) R by (simp add: tableReady_def)
    have rl1: "recordSize tbl1 \<le> length (rec_data r)" using Suc.prems(2) t(7) by simp
    have nfp1: "1 \<le> nextFreePage tbl1" using t(5) R(3) by simp
    have r1: "insertRecord (Suc f) ps tbl1 disk1 r = Some (rc, tbl', disk', r')"
      using Suc.prems(3) t(1) by simp
    have e1: "insertEffect ps r tbl1 disk1 rc tbl' disk' r'"
      by (rule insert_from_free_page [OF Suc.IH rdy1 rl1 nfp1 r1])
    have c1: "contents (bufferPool tbl1) disk1
                = ensureCapacity ps (Suc (length (contents (bufferPool tbl) disk)))
                    (contents (bufferPool tbl) disk)"
      using t(4) by (simp add: ensureCapacity_Suc_length)
    show ?thesis by (rule insertEffect_transfer [OF e1 c1 t(6) t(7)])
  next
    case False
    then have nfp: "1 \<le> nextFreePage tbl" by simp
    show ?thesis
      by (rule insert_from_free_page [OF Suc.IH Suc.prems(1) Suc.prems(2) nfp Suc.prems(3)])
  qed
qed

subsection \<open>Invariants of a table\<close>

lemma slotPayload_memcpy:
  assumes "memcpy d (slotOffset ps recSize (int s)) bytes 0 recSize = Some d'"
  shows "slotPayload ps recSize d' s = take recSize bytes"
  using memcpy_inside [OF assms]
  by (simp add: slotPayload_def slotOffset_nat del: of_nat_add of_nat_mult)

lemma memcpy_out:
  assumes "4 \<le> ps" "length d = ps" "s < computeMaxSlots ps recSize" "recSize \<le> length out"
  shows "\<exists>d1. memcpy out 0 d (slotOffset ps recSize (int s)) recSize = Some d1
           \<and> take recSize d1 = slotPayload ps recSize d s \<and> length d1 = length out"
  using slot_payload_fits [OF assms(1,3)] assms
  by (simp add: memcpy_def slotOffset_nat slotPayload_def del: of_nat_add of_nat_mult)

lemma get_effect:
  assumes rdy: "tableReady ps tbl disk" and ok: "slotOk ps (recordSize tbl) rid"
    and pg: "0 \<le> page rid" and rl: "recordSize tbl \<le> length (rec_data out)"
  shows "\<exists>rc tbl' disk' out'. getRecord ps tbl disk rid out = (rc, tbl', disk', out')
           \<and> callEffect ps tbl disk tbl' disk' (nat (page rid) + 1) (nat (page rid)) (nat (slot rid))
                (pagesAt ps tbl disk (page rid) ! nat (page rid))
           \<and> sameTable tbl tbl'
           \<and> (if pagesAt ps tbl disk (page rid) ! nat (page rid) ! (4 + nat (slot rid)) = 0
               then rc = RC_RM_NO_MORE_TUPLES \<and> out' = out
               else rc = RC_OK \<and> rec_id out' = rid
                    \<and> length (rec_data out') = length (rec_data out)
                    \<and> take (recordSize tbl) (rec_data out')
                         = slotPayload ps (recordSize tbl)
                             (pagesAt ps tbl disk (page rid) ! nat (page rid)) (nat (slot rid)))"
proof -
  note R = tableReady_D [OF rdy]
  note S = slotOk_nat [OF ok]
  let ?cs = "pagesAt ps tbl disk (page rid)"
  let ?p = "nat (page rid)"
  let ?d = "?cs ! ?p"
  have plt: "?p < length ?cs" by (simp add: pagesAt_length)
  have len: "length ?d = ps" by (rule pagesAt_page_length [OF R(1) plt])
  from memcpy_out [OF R(2) len S(1) rl] obtain d1 where
    d1: "memcpy (rec_data out) 0 ?d (slotOffset ps (recordSize tbl) (slot rid)) (recordSize tbl) = Some d1"
        "take (recordSize tbl) d1 = slotPayload ps (recordSize tbl) ?d (nat (slot rid))"
        "length d1 = length (rec_data out)"
    using S(2) by auto
  from getRecord_spec [OF R(1) pg S(4) slotOk_in_page [OF ok R(2)], of out] obtain tbl' disk' out' where
    r: "snd (getRecord ps tbl disk rid out) = (tbl', disk', out')"
       "length disk' = max (length disk) (?p + 1)" "sameTable tbl tbl'"
       "if ?d ! nat (4 + slot rid) = 0
        then fst (getRecord ps tbl disk rid out) = RC_RM_NO_MORE_TUPLES \<and> out' = out
             \<and> poolInv ps (bufferPool tbl') disk' None
             \<and> contents (bufferPool tbl') disk' = ?cs
        else (case memcpy (rec_data out) 0 ?d (slotOffset ps (recordSize tbl) (slot rid))
                     (recordSize tbl) of
                None \<Rightarrow> fst (getRecord ps tbl disk rid out) = UNDEFINED_BEHAVIOUR
              | Some d1 \<Rightarrow>
                  fst (getRecord ps tbl disk rid out) = RC_OK
                  \<and> out' = \<lparr>rec_id = rid, rec_data = d1\<rparr>
                  \<and> poolInv ps (bufferPool tbl') disk' None
                  \<and> contents (bufferPool tbl') disk' = ?cs)"
    by blast
  have eq: "getRecord ps tbl disk rid out = (fst (getRecord ps tbl disk rid out), tbl', disk', out')"
    using r(1) by (metis prod.collapse)
  have st: "numTuples tbl' - numTuples tbl = 0" "recordSize tbl' = recordSize tbl"
    using r(3) by (simp_all add: sameTable_def)
  have both: "poolInv ps (bufferPool tbl') disk' None \<and> contents (bufferPool tbl') disk' = ?cs"
    using r(4) d1(1) by (cases "?d ! nat (4 + slot rid) = 0") simp_all
  have rdy': "tableReady ps tbl' disk'" using both r(2) R by (simp add: tableReady_def)
  have ce: "callEffect ps tbl disk tbl' disk' (?p + 1) ?p (nat (slot rid)) ?d"
    unfolding callEffect_def using rdy' st both plt slotEffect.unchanged [of ps "recordSize tbl"]
    by (simp add: pagesAt_def)
  show ?thesis
  proof (cases "?d ! (4 + nat (slot rid)) = 0")
    case True
    then have "fst (getRecord ps tbl disk rid out) = RC_RM_NO_MORE_TUPLES \<and> out' = out"
      using r(4) S(3) by simp
    then show ?thesis using eq ce r(3) True by (metis (full_types))
  next
    case False
    then have "fst (getRecord ps tbl disk rid out) = RC_OK \<and> out' = \<lparr>rec_id = rid, rec_data = d1\<rparr>"
      using r(4) S(3) d1(1) by simp
    then have "fst (getRecord ps tbl disk rid out) = RC_OK \<and> rec_id out' = rid
                 \<and> length (rec_data out') = length (rec_data out)
                 \<and> take (recordSize tbl) (rec_data out')
                      = slotPayload ps (recordSize tbl) ?d (nat (slot rid))"
      using d1(2,3) by simp
    then show ?thesis using eq ce r(3) False by (metis (full_types))
  qed
qed

lemma ensureCapacity_pages:
  assumes "\<forall>q<length cs. length (cs ! q) = ps" "q < length (ensureCapacity ps n cs)"
  shows "length (ensureCapacity ps n cs ! q) = ps"
  using assms by (simp add: ensureCapacity_def nth_append zeroPage_def)

lemma countsInv_ensureCapacity:
  assumes inv: "countsInv N cs nT" and ps: "4 + N \<le> ps" and ne: "1 \<le> length cs"
  shows "countsInv N (ensureCapacity ps n cs) nT"
proof -
  let ?z = "replicate (n - length cs) (zeroPage ps)"
  have e: "ensureCapacity ps n cs = cs @ ?z" by (simp add: ensureCapacity_def)
  have z0: "getInt (zeroPage ps) = 0" using ps by (simp add: getInt_zeroPage)
  have b: "getInt ((cs @ ?z) ! p) = int (usedFlags N ((cs @ ?z) ! p))"
    if "1 \<le> p" "p < length (cs @ ?z)" for p
  proof (cases "p < length cs")
    case True
    then show ?thesis using inv that by (simp add: countsInv_def nth_append)
  next
    case False
    then have "(cs @ ?z) ! p = zeroPage ps" using that by (simp add: nth_append)
    then show ?thesis using z0 usedFlags_zeroPage [OF ps] by simp
  qed
  have "tl (cs @ ?z) = tl cs @ ?z" using ne by (cases cs) simp_all
  moreover have "sum_list (map getInt ?z) = 0" using z0 by (simp add: sum_list_replicate)
  ultimately have c: "nT = sum_list (map getInt (tl (cs @ ?z)))"
    using inv by (simp add: countsInv_def)
  show ?thesis unfolding e countsInv_def using b c by blast
qed

lemma slotEffect_usedFlags:
  assumes eff: "slotEffect ps recSize s d d' delta" and ps: "4 \<le> ps" and len: "length d = ps"
  shows "int (usedFlags (computeMaxSlots ps recSize) d')
           = int (usedFlags (computeMaxSlots ps recSize) d) + delta"
proof -
  let ?N = "computeMaxSlots ps recSize"
  note fl = slotEffect_flag [OF eff ps len]
  note oth = slotEffect_other_flags [OF eff ps len]
  show ?thesis
  proof (cases "s < ?N")
    case True
    have "usedFlags ?N d' + (if d ! (4 + s) = 1 then 1 else 0)
           = usedFlags ?N d + (if d' ! (4 + s) = 1 then 1 else 0)"
      by (rule usedFlags_update [OF True]) (rule oth)
    then show ?thesis using fl by (auto split: if_splits)
  next
    case False
    then have "delta = 0" using fl by auto
    moreover have "usedFlags ?N d' = usedFlags ?N d"
      by (rule usedFlags_cong) (use False oth in auto)
    ultimately show ?thesis by simp
  qed
qed

lemma countsInv_update:
  assumes inv: "countsInv (computeMaxSlots ps recSize) cs nT"
    and p: "p < length cs" and len: "length (cs ! p) = ps"
    and eff: "slotEffect ps recSize s (cs ! p) d' delta"
    and p0: "p = 0 \<Longrightarrow> delta = 0"
    and ps: "4 \<le> ps" and big: "ps < 2 ^ 31"
  shows "countsInv (computeMaxSlots ps recSize) (cs[p := d']) (nT + delta)"
proof -
  let ?N = "computeMaxSlots ps recSize"
  note uf = slotEffect_usedFlags [OF eff ps len]
  have i2: "\<And>q. 1 \<le> q \<Longrightarrow> q < length cs \<Longrightarrow> getInt (cs ! q) = int (usedFlags ?N (cs ! q))"
    and i3: "nT = sum_list (map getInt (tl cs))"
    using inv by (simp_all add: countsInv_def)
  show ?thesis
  proof (cases "p = 0")
    case True
    have t: "tl (cs[p := d']) = tl cs" using True by (cases cs) simp_all
    have b: "\<And>q. 1 \<le> q \<Longrightarrow> q < length (cs[p := d'])
               \<Longrightarrow> getInt (cs[p := d'] ! q) = int (usedFlags ?N (cs[p := d'] ! q))"
      using i2 True by simp
    show ?thesis unfolding countsInv_def using b t i3 p0 [OF True] by simp
  next
    case False
    then have p1: "1 \<le> p" by simp
    have g: "getInt (cs ! p) = int (usedFlags ?N (cs ! p))" by (rule i2 [OF p1 p])
    have le: "usedFlags ?N d' \<le> ?N" by (rule usedFlags_le)
    have Nps: "?N \<le> ps" using computeMaxSlots_fits [OF ps, of recSize] by simp
    have rng: "- (2 ^ 31) \<le> getInt (cs ! p) + delta" "getInt (cs ! p) + delta < 2 ^ 31"
      using g uf le Nps big by simp_all
    have h: "getInt d' = getInt (cs ! p) + delta"
      by (rule slotEffect_header [OF eff ps len rng])
    have b: "getInt (cs[p := d'] ! q) = int (usedFlags ?N (cs[p := d'] ! q))"
      if "1 \<le> q" "q < length (cs[p := d'])" for q
      using that i2 [of q] h g uf p by (cases "q = p") simp_all
    have t: "tl (cs[p := d']) = (tl cs)[p - 1 := d']"
      using False by (cases cs; cases p) simp_all
    have tp: "tl cs ! (p - 1) = cs ! p" using False p by (cases cs; cases p) simp_all
    have "p - 1 < length (tl cs)" using False p by simp
    then have "sum_list (map getInt ((tl cs)[p - 1 := d']))
                 = sum_list (map getInt (tl cs)) - getInt (tl cs ! (p - 1)) + getInt d'"
      by (rule sum_list_map_update)
    then have c: "nT + delta = sum_list (map getInt (tl (cs[p := d'])))"
      using t tp h i3 by simp
    show ?thesis unfolding countsInv_def using b c by simp
  qed
qed

lemma fileFits_page_size: "fileFits ps disk \<Longrightarrow> 1 \<le> length disk \<Longrightarrow> ps < 2 ^ 31"
proof -
  assume f: "fileFits ps disk" and l: "1 \<le> length disk"
  have "1 * ps \<le> length disk * ps" by (rule mult_le_mono1 [OF l])
  then have a: "ps \<le> length disk * ps" by (simp only: mult_1)
  have b: "length disk * ps < 2 ^ 31" using f by (simp only: fileFits_def)
  show ?thesis by (rule le_less_trans [OF a b])
qed

lemma fileFits_shorter:
  "fileFits ps disk' \<Longrightarrow> length disk \<le> length disk' \<Longrightarrow> fileFits ps disk"
proof -
  assume f: "fileFits ps disk'" and l: "length disk \<le> length disk'"
  have a: "length disk * ps \<le> length disk' * ps" by (rule mult_le_mono1 [OF l])
  have b: "length disk' * ps < 2 ^ 31" using f by (simp only: fileFits_def)
  show ?thesis unfolding fileFits_def by (rule le_less_trans [OF a b])
qed

lemma tableInv_callEffect:
  assumes inv: "tableInv ps tbl disk"
    and ce: "callEffect ps tbl disk tbl' disk' n p s d'"
    and p0: "p = 0 \<Longrightarrow> numTuples tbl' = numTuples tbl"
    and fits: "fileFits ps disk'"
  shows "tableInv ps tbl' disk'"
proof -
  let ?N = "computeMaxSlots ps (recordSize tbl)"
  let ?cs = "contents (bufferPool tbl) disk"
  let ?csn = "ensureCapacity ps n ?cs"
  have rdy: "tableReady ps tbl disk" and ff: "fileFits ps disk"
    and ci: "countsInv ?N ?cs (numTuples tbl)"
    using inv by (simp_all add: tableInv_def)
  note R = tableReady_D [OF rdy]
  have big: "ps < 2 ^ 31" by (rule fileFits_page_size [OF ff R(3)])
  have c: "tableReady ps tbl' disk'" "recordSize tbl' = recordSize tbl" "p < length ?csn"
    "contents (bufferPool tbl') disk' = ?csn[p := d']"
    "slotEffect ps (recordSize tbl) s (?csn ! p) d' (numTuples tbl' - numTuples tbl)"
    using ce by (simp_all add: callEffect_def)
  have pl: "\<forall>q<length ?cs. length (?cs ! q) = ps"
    using contents_page_length [OF R(1)] by (simp add: length_contents)
  have len: "length (?csn ! p) = ps" by (rule ensureCapacity_pages [OF pl c(3)])
  have Nps: "4 + ?N \<le> ps" using computeMaxSlots_fits [OF R(2), of "recordSize tbl"] by simp
  have "countsInv ?N ?csn (numTuples tbl)"
    by (rule countsInv_ensureCapacity [OF ci Nps]) (use R(3) in \<open>simp add: length_contents\<close>)
  then have "countsInv ?N (?csn[p := d']) (numTuples tbl + (numTuples tbl' - numTuples tbl))"
    by (rule countsInv_update [OF _ c(3) len c(5) _ R(2) big]) (use p0 in simp)
  then show ?thesis unfolding tableInv_def using c(1,2,4) fits by simp
qed

lemma createTable_eval:
  assumes "length text < ps"
  shows "createTable ps text recSize = (RC_OK, [catalogPage ps text])"
  using assms
  by (simp add: createTable_def writeTableInfo_def bm_eval memcpy_def setFrameData_def
      forcePage_def shutdownBufferPool_def forceFlushPool_def frameData_def catalogPage_def)

lemma newTable_eval:
  assumes "length text < ps"
  shows "newTable ps text recSize =
     (\<lparr>bufferPool =
         \<lparr>numPages = 3, strategy = RS_FIFO,
            mgmtData =
              Some \<lparr>frames =
                      [\<lparr>data = catalogPage ps text, pageNum = 0, dirty = False, fixCount = 0,
                         usage = 1\<rparr>,
                       \<lparr>data = [], pageNum = - 1, dirty = False, fixCount = 0, usage = 0\<rparr>,
                       \<lparr>data = [], pageNum = - 1, dirty = False, fixCount = 0, usage = 0\<rparr>],
                    readIO = 1, writeIO = 0, clockPointer = 0\<rparr>\<rparr>,
        numTuples = 0, nextFreePage = - 1, recordSize = recSize\<rparr>,
      [catalogPage ps text])"
  using assms
  by (simp add: newTable_def createTable_eval openTable_def bm_eval catalogPage_def)

lemma newTable_tableInv:
  assumes ps: "4 \<le> ps" and big: "ps < 2 ^ 31" and len: "length text < ps"
  shows "tableInv ps (fst (newTable ps text recSize)) (snd (newTable ps text recSize))"
    and "recordSize (fst (newTable ps text recSize)) = recSize"
    and "numTuples (fst (newTable ps text recSize)) = 0"
    and "length (snd (newTable ps text recSize)) = 1"
proof -
  let ?tbl = "fst (newTable ps text recSize)" and ?disk = "snd (newTable ps text recSize)"
  have lc: "length (catalogPage ps text) = ps" using len by (simp add: catalogPage_def)
  have pi: "poolInv ps (bufferPool ?tbl) ?disk None"
    using ps lc by (simp add: newTable_eval [OF len] poolInv_def frameOk_def less_Suc_eq numeral_3_eq_3)
  have cs: "contents (bufferPool ?tbl) ?disk = [catalogPage ps text]"
    by (simp add: newTable_eval [OF len] contents_def pageBytes_def findPageFrame_def upt3)
  have rdy: "tableReady ps ?tbl ?disk"
    using pi ps by (simp add: tableReady_def newTable_eval [OF len])
  have ff: "fileFits ps ?disk" using big by (simp add: fileFits_def newTable_eval [OF len])
  have "countsInv (computeMaxSlots ps recSize) [catalogPage ps text] 0"
    by (simp add: countsInv_def)
  then show "tableInv ps ?tbl ?disk"
    unfolding tableInv_def using rdy ff cs by (simp add: newTable_eval [OF len])
  show "recordSize ?tbl = recSize" by (simp add: newTable_eval [OF len])
  show "numTuples ?tbl = 0" by (simp add: newTable_eval [OF len])
  show "length ?disk = 1" by (simp add: newTable_eval [OF len])
qed

lemma validCall_target: "validCall ps recSize c \<Longrightarrow> target c = Some rid \<Longrightarrow> slotOk ps recSize rid"
  by (cases c) auto

lemma deleteRecord_negative:
  "tableReady ps tbl disk \<Longrightarrow> page rid < 0 \<Longrightarrow> deleteRecord ps tbl disk rid = (RC_ERROR, tbl, disk)"
  using pinPage_negative [of ps "bufferPool tbl" disk None "page rid"]
  by (simp add: deleteRecord_def tableReady_def)

lemma updateRecord_negative:
  "tableReady ps tbl disk \<Longrightarrow> page (rec_id r) < 0 \<Longrightarrow> updateRecord ps tbl disk r = (RC_ERROR, tbl, disk)"
  using pinPage_negative [of ps "bufferPool tbl" disk None "page (rec_id r)"]
  by (simp add: updateRecord_def tableReady_def)

lemma getRecord_negative:
  "tableReady ps tbl disk \<Longrightarrow> page rid < 0 \<Longrightarrow> getRecord ps tbl disk rid out = (RC_ERROR, tbl, disk, out)"
  using pinPage_negative [of ps "bufferPool tbl" disk None "page rid"]
  by (simp add: getRecord_def tableReady_def)

lemma length_createRecord: "length (rec_data (createRecord n)) = n"
  by (simp add: createRecord_def)

lemma effectI:
  assumes "callEffect ps tbl disk tbl' disk' n p s d'"
    and "p = 0 \<Longrightarrow> numTuples tbl' = numTuples tbl"
    and "W n p s d'"
  shows "A \<or> (\<exists>n p s d'. callEffect ps tbl disk tbl' disk' n p s d'
             \<and> (p = 0 \<longrightarrow> numTuples tbl' = numTuples tbl) \<and> W n p s d')"
proof -
  have "callEffect ps tbl disk tbl' disk' n p s d'
             \<and> (p = 0 \<longrightarrow> numTuples tbl' = numTuples tbl) \<and> W n p s d'"
    using assms by simp
  then show ?thesis by (intro disjI2 exI)
qed

lemma rmCall_effect:
  assumes rdy: "tableReady ps tbl disk" and v: "validCall ps (recordSize tbl) c"
    and res: "rmCall fuel ps c (tbl, disk) = Some (rc, tbl', disk')"
  shows "tbl' = tbl \<and> disk' = disk
       \<or> (\<exists>n p s d'. callEffect ps tbl disk tbl' disk' n p s d'
             \<and> (p = 0 \<longrightarrow> numTuples tbl' = numTuples tbl)
             \<and> (ensureCapacity ps n (contents (bufferPool tbl) disk) ! p ! (4 + s) = 0
                \<or> d' = ensureCapacity ps n (contents (bufferPool tbl) disk) ! p
                \<or> (\<exists>rid. target c = Some rid \<and> 0 \<le> page rid
                        \<and> p = nat (page rid) \<and> s = nat (slot rid))))"
proof (cases c)
  case (Insert r)
  then obtain r' where ins: "insertRecord fuel ps tbl disk r = Some (rc, tbl', disk', r')"
    using res by (auto split: option.splits)
  have rl: "recordSize tbl \<le> length (rec_data r)" using v Insert by simp
  from insert_effect [OF rdy rl ins] obtain n p s where
    e: "1 \<le> p" "ensureCapacity ps n (contents (bufferPool tbl) disk) ! p ! (4 + s) = 0"
       "callEffect ps tbl disk tbl' disk' n p s
          (placeRecord ps (recordSize tbl)
             (ensureCapacity ps n (contents (bufferPool tbl) disk) ! p) s (rec_data r))"
    unfolding insertEffect_def by blast
  have "p \<noteq> 0" using e(1) by simp
  then show ?thesis using e(2) by (intro effectI [OF e(3)]) simp_all
next
  case (Delete rid)
  have ok: "slotOk ps (recordSize tbl) rid" and n0: "page rid \<noteq> 0" using v Delete by simp_all
  have r: "deleteRecord ps tbl disk rid = (rc, tbl', disk')" using res Delete by simp
  show ?thesis
  proof (cases "page rid < 0")
    case True
    then show ?thesis using deleteRecord_negative [OF rdy True] r by simp
  next
    case False
    then have pg: "0 \<le> page rid" by simp
    from delete_callEffect [OF rdy ok pg] r obtain d' where
      d: "callEffect ps tbl disk tbl' disk' (nat (page rid) + 1) (nat (page rid)) (nat (slot rid)) d'"
      "numTuples tbl' \<le> numTuples tbl"
      by auto
    have "target c = Some rid" using Delete by simp
    moreover have "nat (page rid) \<noteq> 0" using pg n0 by simp
    ultimately show ?thesis using pg by (intro effectI [OF d(1)]) simp_all
  qed
next
  case (Update r0)
  have ok: "slotOk ps (recordSize tbl) (rec_id r0)" and rl: "recordSize tbl \<le> length (rec_data r0)"
    using v Update by simp_all
  have r: "updateRecord ps tbl disk r0 = (rc, tbl', disk')" using res Update by simp
  show ?thesis
  proof (cases "page (rec_id r0) < 0")
    case True
    then show ?thesis using updateRecord_negative [OF rdy True] r by simp
  next
    case False
    then have pg: "0 \<le> page (rec_id r0)" by simp
    from update_callEffect [OF rdy ok pg rl] r obtain d' where
      d: "callEffect ps tbl disk tbl' disk' (nat (page (rec_id r0)) + 1) (nat (page (rec_id r0)))
         (nat (slot (rec_id r0))) d'"
      "sameTable tbl tbl'"
      by auto
    have "target c = Some (rec_id r0)" using Update by simp
    then show ?thesis using pg d(2) by (intro effectI [OF d(1)]) (simp_all add: sameTable_def)
  qed
next
  case (Get rid)
  have ok: "slotOk ps (recordSize tbl) rid" using v Get by simp
  obtain out' where r: "getRecord ps tbl disk rid (createRecord (recordSize tbl)) = (rc, tbl', disk', out')"
    using res Get by (auto split: prod.splits)
  show ?thesis
  proof (cases "page rid < 0")
    case True
    then show ?thesis using getRecord_negative [OF rdy True] r by simp
  next
    case False
    then have pg: "0 \<le> page rid" by simp
    have rl: "recordSize tbl \<le> length (rec_data (createRecord (recordSize tbl)))"
      by (simp add: length_createRecord)
    from get_effect [OF rdy ok pg rl] r have
      d: "callEffect ps tbl disk tbl' disk' (nat (page rid) + 1) (nat (page rid)) (nat (slot rid))
                (pagesAt ps tbl disk (page rid) ! nat (page rid))"
      "sameTable tbl tbl'"
      by auto
    show ?thesis using d(2) by (intro effectI [OF d(1)]) (simp_all add: sameTable_def pagesAt_def)
  qed
qed

lemma tableInv_rmCall:
  assumes inv: "tableInv ps tbl disk" and v: "validCall ps (recordSize tbl) c"
    and res: "rmCall fuel ps c (tbl, disk) = Some (rc, tbl', disk')"
    and fits: "fileFits ps disk'"
  shows "tableInv ps tbl' disk' \<and> recordSize tbl' = recordSize tbl"
proof -
  have rdy: "tableReady ps tbl disk" using inv by (simp add: tableInv_def)
  from rmCall_effect [OF rdy v res] show ?thesis
  proof
    assume "tbl' = tbl \<and> disk' = disk"
    then show ?thesis using inv by simp
  next
    assume "\<exists>n p s d'. callEffect ps tbl disk tbl' disk' n p s d'
             \<and> (p = 0 \<longrightarrow> numTuples tbl' = numTuples tbl)
             \<and> (ensureCapacity ps n (contents (bufferPool tbl) disk) ! p ! (4 + s) = 0
                \<or> d' = ensureCapacity ps n (contents (bufferPool tbl) disk) ! p
                \<or> (\<exists>rid. target c = Some rid \<and> 0 \<le> page rid
                        \<and> p = nat (page rid) \<and> s = nat (slot rid)))"
    then obtain n p s d' where ce: "callEffect ps tbl disk tbl' disk' n p s d'"
      and p0: "p = 0 \<longrightarrow> numTuples tbl' = numTuples tbl" by (elim exE conjE) (rule that)
    have "tableInv ps tbl' disk'" by (rule tableInv_callEffect [OF inv ce _ fits]) (use p0 in simp)
    moreover have "recordSize tbl' = recordSize tbl" using ce by (simp add: callEffect_def)
    ultimately show ?thesis by simp
  qed
qed

lemma reachable_tableInv:
  assumes "reachable ps catalog recSize st"
    and ps: "4 \<le> ps" and big: "ps < 2 ^ 31" and len: "length catalog < ps"
  shows "tableInv ps (fst st) (snd st) \<and> recordSize (fst st) = recSize"
  using assms(1)
proof (induction rule: reachable.induct)
  case created
  show ?case using newTable_tableInv(1,2) [OF ps big len] by simp
next
  case (called tbl disk c fuel rc st')
  obtain tbl' disk' where st': "st' = (tbl', disk')" by (cases st')
  have inv: "tableInv ps tbl disk" and rs: "recordSize tbl = recSize" using called.IH by simp_all
  have v: "validCall ps (recordSize tbl) c" using called.hyps(2) rs by simp
  have f: "fileFits ps disk'" using called.hyps(4) st' by simp
  show ?case using tableInv_rmCall [OF inv v called.hyps(3) [unfolded st'] f] st' rs by simp
qed

lemma countsInv_sums:
  assumes "countsInv n cs nT"
  shows "nT = sum_list (map getInt (tl cs))"
    and "sum_list (map getInt (tl cs)) = sum_list (map (\<lambda>d. int (usedFlags n d)) (tl cs))"
proof -
  have i2: "\<And>p. 1 \<le> p \<Longrightarrow> p < length cs \<Longrightarrow> getInt (cs ! p) = int (usedFlags n (cs ! p))"
    and i3: "nT = sum_list (map getInt (tl cs))"
    using assms unfolding countsInv_def by blast+
  show "nT = sum_list (map getInt (tl cs))" by (rule i3)
  have h: "getInt d = int (usedFlags n d)" if dm: "d \<in> set (tl cs)" for d
  proof -
    obtain k where k: "k < length (tl cs)" "tl cs ! k = d"
      using dm unfolding in_set_conv_nth by blast
    have a: "cs ! (k + 1) = d" using k by (simp add: nth_tl)
    have b: "k + 1 < length cs" using k(1) by simp
    show ?thesis using i2 [of "k + 1"] a b by simp
  qed
  have "map getInt (tl cs) = map (\<lambda>d. int (usedFlags n d)) (tl cs)"
    by (rule map_cong [OF refl]) (rule h)
  then show "sum_list (map getInt (tl cs)) = sum_list (map (\<lambda>d. int (usedFlags n d)) (tl cs))"
    by (rule arg_cong)
qed

lemma tableInv_sums:
  assumes "tableInv ps tbl disk"
  shows "numTuples tbl = slotsUsedSum tbl disk" "slotsUsedSum tbl disk = usedFlagsSum ps tbl disk"
proof -
  have ci: "countsInv (computeMaxSlots ps (recordSize tbl)) (contents (bufferPool tbl) disk) (numTuples tbl)"
    using assms unfolding tableInv_def by blast
  show "numTuples tbl = slotsUsedSum tbl disk"
    unfolding slotsUsedSum_def by (rule countsInv_sums(1) [OF ci])
  show "slotsUsedSum tbl disk = usedFlagsSum ps tbl disk"
    unfolding slotsUsedSum_def usedFlagsSum_def by (rule countsInv_sums(2) [OF ci])
qed

lemma sum_list_bounded:
  fixes f :: "'a \<Rightarrow> int"
  assumes "\<And>x. x \<in> set xs \<Longrightarrow> 0 \<le> f x \<and> f x \<le> b"
  shows "0 \<le> sum_list (map f xs) \<and> sum_list (map f xs) \<le> int (length xs) * b"
  using assms
proof (induction xs)
  case Nil
  then show ?case by simp
next
  case (Cons x xs)
  have "0 \<le> f x \<and> f x \<le> b" using Cons.prems by simp
  moreover have "0 \<le> sum_list (map f xs) \<and> sum_list (map f xs) \<le> int (length xs) * b"
    using Cons by simp
  ultimately show ?case by (simp add: algebra_simps)
qed

text \<open>
  In a table that satisfies the invariant \<open>numTuples\<close> is representable in \<open>int\<close>: it counts
  slots of a file of fewer than \<open>2^31\<close> bytes.
\<close>

lemma tableInv_numTuples:
  assumes inv: "tableInv ps tbl disk"
  shows "0 \<le> numTuples tbl" "numTuples tbl < 2 ^ 31"
proof -
  let ?N = "computeMaxSlots ps (recordSize tbl)"
  let ?cs = "contents (bufferPool tbl) disk"
  have rdy: "tableReady ps tbl disk" and ff: "fileFits ps disk"
    and ci: "countsInv ?N ?cs (numTuples tbl)"
    using inv by (simp_all add: tableInv_def)
  note R = tableReady_D [OF rdy]
  have Nps: "?N \<le> ps" using computeMaxSlots_fits [OF R(2), of "recordSize tbl"] by simp
  have nt: "numTuples tbl = sum_list (map (\<lambda>d. int (usedFlags ?N d)) (tl ?cs))"
    using countsInv_sums [OF ci] by simp
  have b: "0 \<le> int (usedFlags ?N d) \<and> int (usedFlags ?N d) \<le> int ?N" for d
    using usedFlags_le [of ?N d] by simp
  have s: "0 \<le> sum_list (map (\<lambda>d. int (usedFlags ?N d)) (tl ?cs))
           \<and> sum_list (map (\<lambda>d. int (usedFlags ?N d)) (tl ?cs)) \<le> int (length (tl ?cs)) * int ?N"
    by (rule sum_list_bounded) (rule b)
  show "0 \<le> numTuples tbl" using s nt by simp
  have "length (tl ?cs) * ?N \<le> length disk * ps"
    by (rule mult_le_mono) (use Nps in \<open>simp_all add: length_contents\<close>)
  then have "int (length (tl ?cs)) * int ?N \<le> int (length disk * ps)"
    by (metis of_nat_mult of_nat_le_iff)
  moreover have "int (length disk * ps) < 2 ^ 31"
    using ff unfolding fileFits_def by (metis of_nat_less_iff of_nat_numeral of_nat_power)
  ultimately show "numTuples tbl < 2 ^ 31" using s nt by linarith
qed

text \<open>A call never shortens the file.\<close>

lemma callEffect_length:
  assumes "callEffect ps tbl disk tbl' disk' n p s d'"
  shows "length disk \<le> length disk'"
proof -
  have "length (contents (bufferPool tbl') disk')
          = length (ensureCapacity ps n (contents (bufferPool tbl) disk))"
    using assms by (simp add: callEffect_def)
  then show ?thesis by (simp add: length_contents ensureCapacity_def)
qed

lemma rmCall_length:
  assumes rdy: "tableReady ps tbl disk" and v: "validCall ps (recordSize tbl) c"
    and res: "rmCall fuel ps c (tbl, disk) = Some (rc, tbl', disk')"
  shows "length disk \<le> length disk' \<and> tableReady ps tbl' disk' \<and> recordSize tbl' = recordSize tbl"
proof -
  from rmCall_effect [OF rdy v res] show ?thesis
  proof
    assume "tbl' = tbl \<and> disk' = disk"
    then show ?thesis using rdy by simp
  next
    assume "\<exists>n p s d'. callEffect ps tbl disk tbl' disk' n p s d'
             \<and> (p = 0 \<longrightarrow> numTuples tbl' = numTuples tbl)
             \<and> (ensureCapacity ps n (contents (bufferPool tbl) disk) ! p ! (4 + s) = 0
                \<or> d' = ensureCapacity ps n (contents (bufferPool tbl) disk) ! p
                \<or> (\<exists>rid. target c = Some rid \<and> 0 \<le> page rid
                        \<and> p = nat (page rid) \<and> s = nat (slot rid)))"
    then obtain n p s d' where ce: "callEffect ps tbl disk tbl' disk' n p s d'"
      by (elim exE conjE) (rule that)
    show ?thesis using callEffect_length [OF ce] ce by (simp add: callEffect_def)
  qed
qed

text \<open>
  The page a call names is a page of the file the call leaves: \<open>pinPage\<close> has extended the
  file up to it. So if that file is smaller than \<open>2^31\<close> bytes, the offset of the page is
  representable.
\<close>

lemma callEffect_page:
  assumes "callEffect ps tbl disk tbl' disk' n p s d'"
  shows "p < length disk'"
proof -
  have "p < length (ensureCapacity ps n (contents (bufferPool tbl) disk))"
    and "length (contents (bufferPool tbl') disk')
          = length (ensureCapacity ps n (contents (bufferPool tbl) disk))"
    using assms by (simp_all add: callEffect_def)
  then show ?thesis by (simp add: length_contents)
qed

lemma named_page_in_file:
  assumes rdy: "tableReady ps tbl disk" and ok: "slotOk ps (recordSize tbl) rid"
    and pg: "0 \<le> page rid" and rl: "recordSize tbl \<le> length (rec_data r)"
    and rr: "rec_id r = rid"
  shows "nat (page rid) < length (snd (snd (deleteRecord ps tbl disk rid)))"
    and "nat (page rid) < length (snd (snd (updateRecord ps tbl disk r)))"
    and "nat (page rid) < length (fst (snd (snd (getRecord ps tbl disk rid r))))"
proof -
  from delete_callEffect [OF rdy ok pg] obtain tbl' disk' d' where
    "deleteRecord ps tbl disk rid = (RC_OK, tbl', disk')"
    "callEffect ps tbl disk tbl' disk' (nat (page rid) + 1) (nat (page rid)) (nat (slot rid)) d'"
    by blast
  then show "nat (page rid) < length (snd (snd (deleteRecord ps tbl disk rid)))"
    using callEffect_page by fastforce
  have ok': "slotOk ps (recordSize tbl) (rec_id r)" and pg': "0 \<le> page (rec_id r)"
    using ok pg rr by simp_all
  from update_callEffect [OF rdy ok' pg' rl] obtain rc tbl' disk' d' where
    "updateRecord ps tbl disk r = (rc, tbl', disk')"
    "callEffect ps tbl disk tbl' disk' (nat (page (rec_id r)) + 1) (nat (page (rec_id r)))
       (nat (slot (rec_id r))) d'"
    by blast
  then show "nat (page rid) < length (snd (snd (updateRecord ps tbl disk r)))"
    using callEffect_page rr by fastforce
  from get_effect [OF rdy ok pg rl] obtain rc tbl' disk' out' where
    "getRecord ps tbl disk rid r = (rc, tbl', disk', out')"
    "callEffect ps tbl disk tbl' disk' (nat (page rid) + 1) (nat (page rid)) (nat (slot rid))
       (pagesAt ps tbl disk (page rid) ! nat (page rid))"
    by blast
  then show "nat (page rid) < length (fst (snd (snd (getRecord ps tbl disk rid r))))"
    using callEffect_page by fastforce
qed

lemma inserted_page_in_file:
  assumes rdy: "tableReady ps tbl disk" and rl: "recordSize tbl \<le> length (rec_data r)"
    and ins: "insertRecord fuel ps tbl disk r = Some (rc, tbl', disk', r')"
  shows "1 \<le> page (rec_id r')" "nat (page (rec_id r')) < length disk'" "length disk \<le> length disk'"
proof -
  from insert_effect [OF rdy rl ins] obtain n p s where
    e: "1 \<le> p" "r' = r\<lparr>rec_id := \<lparr>page = int p, slot = int s\<rparr>\<rparr>"
       "callEffect ps tbl disk tbl' disk' n p s
          (placeRecord ps (recordSize tbl)
             (ensureCapacity ps n (contents (bufferPool tbl) disk) ! p) s (rec_data r))"
    unfolding insertEffect_def by blast
  show "1 \<le> page (rec_id r')" using e(1,2) by simp
  show "nat (page (rec_id r')) < length disk'" using callEffect_page [OF e(3)] e(2) by simp
  show "length disk \<le> length disk'" by (rule callEffect_length [OF e(3)])
qed

lemma rmCalls_length:
  assumes "tableReady ps tbl disk" and "\<forall>c\<in>set calls. validCall ps (recordSize tbl) c"
    and "rmCalls fuel ps calls (tbl, disk) = Some (tbl', disk')"
  shows "length disk \<le> length disk' \<and> tableReady ps tbl' disk' \<and> recordSize tbl' = recordSize tbl"
  using assms
proof (induction calls arbitrary: tbl disk)
  case Nil
  then show ?case by simp
next
  case (Cons c calls)
  from Cons.prems(3) obtain rc tbl1 disk1 where
    r1: "rmCall fuel ps c (tbl, disk) = Some (rc, tbl1, disk1)"
    and r2: "rmCalls fuel ps calls (tbl1, disk1) = Some (tbl', disk')"
    by (auto split: option.splits)
  have v: "validCall ps (recordSize tbl) c" using Cons.prems(2) by simp
  note s1 = rmCall_length [OF Cons.prems(1) v r1]
  have rest: "\<forall>c\<in>set calls. validCall ps (recordSize tbl1) c" using Cons.prems(2) s1 by simp
  have "length disk1 \<le> length disk' \<and> tableReady ps tbl' disk' \<and> recordSize tbl' = recordSize tbl1"
    using Cons.IH [of tbl1 disk1] s1 rest r2 by simp
  then show ?case using s1 by simp
qed

lemma recordAt_callEffect:
  assumes ra: "recordAt ps tbl disk rid bytes" and rdy: "tableReady ps tbl disk"
    and ce: "callEffect ps tbl disk tbl' disk' n p s d'"
    and w: "ensureCapacity ps n (contents (bufferPool tbl) disk) ! p ! (4 + s) = 0
            \<or> d' = ensureCapacity ps n (contents (bufferPool tbl) disk) ! p
            \<or> p \<noteq> nat (page rid) \<or> s \<noteq> nat (slot rid)"
  shows "recordAt ps tbl' disk' rid bytes"
proof -
  let ?R = "recordSize tbl"
  let ?cs = "contents (bufferPool tbl) disk"
  let ?csn = "ensureCapacity ps n ?cs"
  let ?cs' = "contents (bufferPool tbl') disk'"
  let ?p0 = "nat (page rid)" and ?s0 = "nat (slot rid)"
  note R = tableReady_D [OF rdy]
  have a: "1 \<le> page rid" "?p0 < length disk" "slotOk ps ?R rid" "?cs ! ?p0 ! (4 + ?s0) = 1"
    "slotPayload ps ?R (?cs ! ?p0) ?s0 = bytes"
    using ra by (simp_all add: recordAt_def)
  have c: "tableReady ps tbl' disk'" "recordSize tbl' = ?R" "p < length ?csn"
    "?cs' = ?csn[p := d']" "slotEffect ps ?R s (?csn ! p) d' (numTuples tbl' - numTuples tbl)"
    using ce by (simp_all add: callEffect_def)
  have p0: "?p0 < length ?cs" using a(2) by (simp add: length_contents)
  have same: "?csn ! ?p0 = ?cs ! ?p0" using p0 by (simp add: ensureCapacity_def nth_append)
  have ln: "length ?cs \<le> length ?csn" by (simp add: ensureCapacity_def)
  have "length ?cs' = length ?csn" using c(4) by simp
  then have l': "?p0 < length disk'" using p0 ln by (simp add: length_contents)
  have pl: "\<forall>q<length ?cs. length (?cs ! q) = ps"
    using contents_page_length [OF R(1)] by (simp add: length_contents)
  have len: "length (?csn ! p) = ps" by (rule ensureCapacity_pages [OF pl c(3)])
  have s0: "?s0 < computeMaxSlots ps ?R" by (rule slotOk_nat(1) [OF a(3)])
  have "?cs' ! ?p0 ! (4 + ?s0) = 1 \<and> slotPayload ps ?R (?cs' ! ?p0) ?s0 = bytes"
  proof (cases "p = ?p0")
    case False
    then have "?cs' ! ?p0 = ?cs ! ?p0" using c(4) same by simp
    then show ?thesis using a(4,5) by simp
  next
    case True
    then have e: "?cs' ! ?p0 = d'" using c(3,4) by simp
    have dp: "?csn ! p = ?cs ! ?p0" using True same by simp
    show ?thesis
    proof (cases "s = ?s0")
      case False
      then have ne: "?s0 \<noteq> s" by simp
      have "d' ! (4 + ?s0) = ?csn ! p ! (4 + ?s0)"
        by (rule slotEffect_other_flags [OF c(5) R(2) len s0 ne])
      moreover have "slotPayload ps ?R d' ?s0 = slotPayload ps ?R (?csn ! p) ?s0"
        by (rule slotEffect_other_payload [OF c(5) R(2) len s0 ne])
      ultimately show ?thesis using e dp a(4,5) by simp
    next
      case s: True
      have "?csn ! p ! (4 + s) \<noteq> 0" using dp s a(4) by simp
      then have "d' = ?csn ! p" using w True s by simp
      then show ?thesis using e dp a(4,5) by simp
    qed
  qed
  then show ?thesis unfolding recordAt_def using a(1,3) l' c(2) by simp
qed

lemma RID_nat_eq:
  assumes "0 \<le> page a" "0 \<le> slot a" "0 \<le> page b" "0 \<le> slot b"
    "nat (page a) = nat (page b)" "nat (slot a) = nat (slot b)"
  shows "a = (b::RID)"
  using assms by (cases a; cases b) (simp add: eq_nat_nat_iff)

lemma recordAt_rmCall:
  assumes ra: "recordAt ps tbl disk rid bytes" and rdy: "tableReady ps tbl disk"
    and v: "validCall ps (recordSize tbl) c" and t: "target c \<noteq> Some rid"
    and res: "rmCall fuel ps c (tbl, disk) = Some (rc, tbl', disk')"
  shows "recordAt ps tbl' disk' rid bytes \<and> tableReady ps tbl' disk'
         \<and> recordSize tbl' = recordSize tbl"
proof -
  from rmCall_effect [OF rdy v res] show ?thesis
  proof
    assume "tbl' = tbl \<and> disk' = disk"
    then show ?thesis using ra rdy by simp
  next
    assume "\<exists>n p s d'. callEffect ps tbl disk tbl' disk' n p s d'
             \<and> (p = 0 \<longrightarrow> numTuples tbl' = numTuples tbl)
             \<and> (ensureCapacity ps n (contents (bufferPool tbl) disk) ! p ! (4 + s) = 0
                \<or> d' = ensureCapacity ps n (contents (bufferPool tbl) disk) ! p
                \<or> (\<exists>rid. target c = Some rid \<and> 0 \<le> page rid
                        \<and> p = nat (page rid) \<and> s = nat (slot rid)))"
    then obtain n p s d' where ce: "callEffect ps tbl disk tbl' disk' n p s d'"
      and w: "ensureCapacity ps n (contents (bufferPool tbl) disk) ! p ! (4 + s) = 0
                \<or> d' = ensureCapacity ps n (contents (bufferPool tbl) disk) ! p
                \<or> (\<exists>rid. target c = Some rid \<and> 0 \<le> page rid
                        \<and> p = nat (page rid) \<and> s = nat (slot rid))"
      by (elim exE conjE) (rule that)
    have a: "1 \<le> page rid" "slotOk ps (recordSize tbl) rid"
      using ra by (simp_all add: recordAt_def)
    have "p \<noteq> nat (page rid) \<or> s \<noteq> nat (slot rid)"
      if h: "target c = Some rid'" "0 \<le> page rid'" "p = nat (page rid')" "s = nat (slot rid')"
      for rid'
    proof (rule ccontr)
      assume "\<not> (p \<noteq> nat (page rid) \<or> s \<noteq> nat (slot rid))"
      then have eq: "nat (page rid') = nat (page rid)" "nat (slot rid') = nat (slot rid)"
        using h(3,4) by simp_all
      have ok': "slotOk ps (recordSize tbl) rid'" by (rule validCall_target [OF v h(1)])
      have "rid' = rid"
        by (rule RID_nat_eq [OF h(2) _ _ _ eq]) (use a ok' in \<open>simp_all add: slotOk_def\<close>)
      then show False using t h(1) by simp
    qed
    then have w': "ensureCapacity ps n (contents (bufferPool tbl) disk) ! p ! (4 + s) = 0
            \<or> d' = ensureCapacity ps n (contents (bufferPool tbl) disk) ! p
            \<or> p \<noteq> nat (page rid) \<or> s \<noteq> nat (slot rid)"
      using w by blast
    have "recordAt ps tbl' disk' rid bytes" by (rule recordAt_callEffect [OF ra rdy ce w'])
    then show ?thesis using ce by (simp add: callEffect_def)
  qed
qed

lemma recordAt_rmCalls:
  assumes "recordAt ps tbl disk rid bytes" "tableReady ps tbl disk"
    and "\<forall>c\<in>set calls. validCall ps (recordSize tbl) c \<and> target c \<noteq> Some rid"
    and "rmCalls fuel ps calls (tbl, disk) = Some (tbl', disk')"
  shows "recordAt ps tbl' disk' rid bytes \<and> tableReady ps tbl' disk'
         \<and> recordSize tbl' = recordSize tbl"
  using assms
proof (induction calls arbitrary: tbl disk)
  case Nil
  then show ?case by simp
next
  case (Cons c calls)
  from Cons.prems(4) obtain rc tbl1 disk1 where
    r1: "rmCall fuel ps c (tbl, disk) = Some (rc, tbl1, disk1)"
    and r2: "rmCalls fuel ps calls (tbl1, disk1) = Some (tbl', disk')"
    by (auto split: option.splits)
  have v: "validCall ps (recordSize tbl) c" and t: "target c \<noteq> Some rid"
    using Cons.prems(3) by simp_all
  note s1 = recordAt_rmCall [OF Cons.prems(1,2) v t r1]
  have rest: "\<forall>c\<in>set calls. validCall ps (recordSize tbl1) c \<and> target c \<noteq> Some rid"
    using Cons.prems(3) s1 by simp
  show ?case using Cons.IH [of tbl1 disk1] s1 rest r2 by simp
qed

lemma insert_recordAt:
  assumes rdy: "tableReady ps tbl disk" and rl: "recordSize tbl \<le> length (rec_data r)"
    and ins: "insertRecord fuel ps tbl disk r = Some (rc, tbl', disk', r')"
  shows "rc = RC_OK \<and> recordAt ps tbl' disk' (rec_id r') (take (recordSize tbl) (rec_data r))
         \<and> tableReady ps tbl' disk' \<and> recordSize tbl' = recordSize tbl
         \<and> rec_data r' = rec_data r \<and> numTuples tbl' = numTuples tbl + 1"
proof -
  let ?R = "recordSize tbl"
  let ?cs = "contents (bufferPool tbl) disk"
  note R = tableReady_D [OF rdy]
  from insert_effect [OF rdy rl ins] obtain n p s where
    e: "rc = RC_OK" "1 \<le> p" "s < computeMaxSlots ps ?R"
       "r' = r\<lparr>rec_id := \<lparr>page = int p, slot = int s\<rparr>\<rparr>"
       "ensureCapacity ps n ?cs ! p ! (4 + s) = 0"
       "callEffect ps tbl disk tbl' disk' n p s
          (placeRecord ps ?R (ensureCapacity ps n ?cs ! p) s (rec_data r))"
       "numTuples tbl' = numTuples tbl + 1"
    unfolding insertEffect_def by blast
  let ?csn = "ensureCapacity ps n ?cs"
  let ?d' = "placeRecord ps ?R (?csn ! p) s (rec_data r)"
  have c: "tableReady ps tbl' disk'" "recordSize tbl' = ?R" "p < length ?csn"
    "contents (bufferPool tbl') disk' = ?csn[p := ?d']"
    using e(6) by (simp_all add: callEffect_def)
  have pl: "\<forall>q<length ?cs. length (?cs ! q) = ps"
    using contents_page_length [OF R(1)] by (simp add: length_contents)
  have len: "length (?csn ! p) = ps" by (rule ensureCapacity_pages [OF pl c(3)])
  have fit: "4 + computeMaxSlots ps ?R + s * ?R + ?R \<le> ps" by (rule slot_payload_fits [OF R(2) e(3)])
  have k: "4 + s < ps" using computeMaxSlots_fits [OF R(2), of ?R] e(3) by simp
  have fl: "?d' ! (4 + s) = 1"
    using nth_placed [OF R(2) len e(3) rl _ k] by simp
  have l': "length ?d' = ps" by (rule length_placeRecord [OF R(2) len e(3) rl])
  have "take ?R (drop (4 + computeMaxSlots ps ?R + s * ?R) ?d') = take ?R (rec_data r)"
  proof (rule nth_equalityI)
    show "length (take ?R (drop (4 + computeMaxSlots ps ?R + s * ?R) ?d')) = length (take ?R (rec_data r))"
      using l' fit rl by simp
    fix j assume "j < length (take ?R (drop (4 + computeMaxSlots ps ?R + s * ?R) ?d'))"
    then have j: "j < ?R" by simp
    have kk: "4 + computeMaxSlots ps ?R + s * ?R + j < ps" using fit j by simp
    have ne: "4 + computeMaxSlots ps ?R + s * ?R + j \<noteq> 4 + s" using e(3) by simp
    have "?d' ! (4 + computeMaxSlots ps ?R + s * ?R + j) = rec_data r ! j"
      using nth_placed [OF R(2) len e(3) rl _ kk] ne j by simp
    then show "take ?R (drop (4 + computeMaxSlots ps ?R + s * ?R) ?d') ! j = take ?R (rec_data r) ! j"
      using j l' fit by simp
  qed
  then have pay: "slotPayload ps ?R ?d' s = take ?R (rec_data r)" by (simp add: slotPayload_def)
  have pd: "p < length disk'" using c(3,4) length_contents [of "bufferPool tbl'" disk'] by simp
  have "recordAt ps tbl' disk' (rec_id r') (take ?R (rec_data r))"
    unfolding recordAt_def using e(2,3,4) c(2,3,4) fl pay pd by (simp add: slotOk_def)
  then show ?thesis using e(1,4,7) c(1,2) by simp
qed

lemma get_recordAt:
  assumes ra: "recordAt ps tbl disk rid bytes" and rdy: "tableReady ps tbl disk"
    and rl: "recordSize tbl \<le> length (rec_data out)"
  shows "\<exists>tbl' disk' out'. getRecord ps tbl disk rid out = (RC_OK, tbl', disk', out')
           \<and> rec_id out' = rid \<and> take (recordSize tbl) (rec_data out') = bytes
           \<and> length (rec_data out') = length (rec_data out)
           \<and> sameTable tbl tbl' \<and> tableReady ps tbl' disk'
           \<and> contents (bufferPool tbl') disk' = contents (bufferPool tbl) disk"
proof -
  have a: "1 \<le> page rid" "nat (page rid) < length disk" "slotOk ps (recordSize tbl) rid"
    "contents (bufferPool tbl) disk ! nat (page rid) ! (4 + nat (slot rid)) = 1"
    "slotPayload ps (recordSize tbl) (contents (bufferPool tbl) disk ! nat (page rid))
            (nat (slot rid)) = bytes"
    using ra by (simp_all add: recordAt_def)
  have pg: "0 \<le> page rid" using a(1) by simp
  have pa: "pagesAt ps tbl disk (page rid) = contents (bufferPool tbl) disk"
    by (rule pagesAt_existing [OF a(2)])
  from get_effect [OF rdy a(3) pg rl] obtain rc tbl' disk' out' where
    g: "getRecord ps tbl disk rid out = (rc, tbl', disk', out')"
       "callEffect ps tbl disk tbl' disk' (nat (page rid) + 1) (nat (page rid)) (nat (slot rid))
                (pagesAt ps tbl disk (page rid) ! nat (page rid))"
       "sameTable tbl tbl'"
       "if pagesAt ps tbl disk (page rid) ! nat (page rid) ! (4 + nat (slot rid)) = 0
               then rc = RC_RM_NO_MORE_TUPLES \<and> out' = out
               else rc = RC_OK \<and> rec_id out' = rid
                    \<and> length (rec_data out') = length (rec_data out)
                    \<and> take (recordSize tbl) (rec_data out')
                         = slotPayload ps (recordSize tbl)
                             (pagesAt ps tbl disk (page rid) ! nat (page rid)) (nat (slot rid))"
    by blast
  have r: "rc = RC_OK" "rec_id out' = rid" "length (rec_data out') = length (rec_data out)"
    "take (recordSize tbl) (rec_data out') = bytes"
    using g(4) a(4,5) pa by simp_all
  have c: "tableReady ps tbl' disk'"
    "contents (bufferPool tbl') disk'
       = (ensureCapacity ps (nat (page rid) + 1) (contents (bufferPool tbl) disk))
           [nat (page rid) := pagesAt ps tbl disk (page rid) ! nat (page rid)]"
    using g(2) by (simp_all add: callEffect_def)
  have "contents (bufferPool tbl') disk' = contents (bufferPool tbl) disk"
    using c(2) pa by (simp add: pagesAt_def)
  then show ?thesis using g(1,3) r c(1) by simp
qed

subsection \<open>Sequences of calls\<close>

lemma deleteRecord_valid:
  assumes "poolInv ps (bufferPool tbl) disk None" and "4 \<le> ps"
    and "1 \<le> page rid" and "nat (page rid) < length disk"
    and "0 \<le> slot rid" and "slot rid < int (computeMaxSlots ps (recordSize tbl))"
    and "- (2 ^ 31) < getInt (contents (bufferPool tbl) disk ! nat (page rid))"
  shows "\<exists>tbl' disk'.
           deleteRecord ps tbl disk rid = (RC_OK, tbl', disk')
           \<and> poolInv ps (bufferPool tbl') disk' None
           \<and> length disk' = length disk \<and> recordSize tbl' = recordSize tbl
           \<and> (\<forall>q<length disk. q \<noteq> nat (page rid) \<longrightarrow>
                  contents (bufferPool tbl') disk' ! q = contents (bufferPool tbl) disk ! q)
           \<and> (contents (bufferPool tbl) disk ! nat (page rid) ! nat (4 + slot rid) = 1 \<longrightarrow>
                  contents (bufferPool tbl') disk' ! nat (page rid) ! nat (4 + slot rid) = 0
                \<and> getInt (contents (bufferPool tbl') disk' ! nat (page rid))
                    = getInt (contents (bufferPool tbl) disk ! nat (page rid)) - 1
                \<and> (\<forall>k<ps. 4 \<le> k \<and> k \<noteq> nat (4 + slot rid) \<longrightarrow>
                       contents (bufferPool tbl') disk' ! nat (page rid) ! k
                         = contents (bufferPool tbl) disk ! nat (page rid) ! k)
                \<and> numTuples tbl' = numTuples tbl - 1
                \<and> nextFreePage tbl' =
                     (if getInt (contents (bufferPool tbl') disk' ! nat (page rid))
                           = int (computeMaxSlots ps (recordSize tbl)) - 1
                      then page rid else nextFreePage tbl))
           \<and> (contents (bufferPool tbl) disk ! nat (page rid) ! nat (4 + slot rid) \<noteq> 1 \<longrightarrow>
                  contents (bufferPool tbl') disk' = contents (bufferPool tbl) disk
                \<and> numTuples tbl' = numTuples tbl \<and> nextFreePage tbl' = nextFreePage tbl)"
proof -
  let ?cs = "contents (bufferPool tbl) disk"
  let ?p = "nat (page rid)"
  let ?d = "?cs ! ?p"
  let ?k = "nat (4 + slot rid)"
  have pg: "0 \<le> page rid" using assms(3) by simp
  have kN: "nat (slot rid) < computeMaxSlots ps (recordSize tbl)" using assms(5,6) by simp
  have kps: "?k < ps"
    using computeMaxSlots_fits [OF assms(2), of "recordSize tbl"] kN assms(5) by (simp add: nat_add_distrib)
  have sl: "0 \<le> 4 + slot rid" using assms(5) by simp
  have pa: "pagesAt ps tbl disk (page rid) = ?cs" by (rule pagesAt_existing [OF assms(4)])
  have len: "length ?d = ps" by (rule contents_page_length [OF assms(1,4)])
  from deleteRecord_spec [OF assms(1,2) pg sl kps] obtain tbl' disk' where
    r: "deleteRecord ps tbl disk rid = (RC_OK, tbl', disk')"
       "poolInv ps (bufferPool tbl') disk' None"
       "length disk' = max (length disk) (?p + 1)" "recordSize tbl' = recordSize tbl"
       "if ?d ! ?k = 1
        then contents (bufferPool tbl') disk'
               = ?cs[?p := putInt (setSlotFlag ?d (slot rid) 0) (getInt ?d - 1)]
             \<and> numTuples tbl' = numTuples tbl - 1
             \<and> nextFreePage tbl' =
                 (if getInt ?d - 1 = int (computeMaxSlots ps (recordSize tbl)) - 1
                  then page rid else nextFreePage tbl)
        else contents (bufferPool tbl') disk' = ?cs \<and> sameTable tbl tbl'"
    unfolding pa by blast
  have l: "length disk' = length disk" using r(3) assms(4) by simp
  have plt: "?p < length ?cs" using assms(4) by (simp add: length_contents)
  let ?d' = "putInt (setSlotFlag ?d (slot rid) 0) (getInt ?d - 1)"
  have gi: "getInt ?d' = getInt ?d - 1"
  proof (rule getInt_putInt)
    show "- (2 ^ 31) \<le> getInt ?d - 1" using assms(7) by simp
    have "getInt ?d < 2 ^ 31"
      using sint_lt [of "bytesWord (take 4 ?d)"] by (simp add: getInt_def)
    then show "getInt ?d - 1 < 2 ^ 31" by simp
  qed
  have k4: "4 \<le> ?k" using assms(5) by simp
  have fl: "?d' ! ?k = 0"
    using k4 kps len by (simp add: nth_putInt length_setSlotFlag nth_setSlotFlag)
  have rest: "?d' ! k = ?d ! k" if "k < ps" "4 \<le> k" "k \<noteq> ?k" for k
    using that len by (simp add: nth_putInt length_setSlotFlag nth_setSlotFlag)
  show ?thesis
  proof (cases "?d ! ?k = 1")
    case True
    then have c: "contents (bufferPool tbl') disk' = ?cs[?p := ?d']"
      and n: "numTuples tbl' = numTuples tbl - 1"
      and f: "nextFreePage tbl' =
                 (if getInt ?d - 1 = int (computeMaxSlots ps (recordSize tbl)) - 1
                  then page rid else nextFreePage tbl)"
      using r(5) by simp_all
    have "contents (bufferPool tbl') disk' ! ?p = ?d'" using c plt by simp
    then show ?thesis
      using r(1,2,4) l c n f gi fl rest True plt
      by (intro exI [of _ tbl'] exI [of _ disk']) (simp add: nth_list_update)
  next
    case False
    then have c: "contents (bufferPool tbl') disk' = ?cs" and s: "sameTable tbl tbl'"
      using r(5) by simp_all
    show ?thesis
      using r(1,2,4) l c s False
      by (intro exI [of _ tbl'] exI [of _ disk']) (simp add: sameTable_def)
  qed
qed



lemma rmCalls_tableInv:
  assumes "tableInv ps tbl disk" and "\<forall>c\<in>set calls. validCall ps (recordSize tbl) c"
    and "rmCalls fuel ps calls (tbl, disk) = Some (tbl', disk')" and "fileFits ps disk'"
  shows "tableInv ps tbl' disk' \<and> recordSize tbl' = recordSize tbl"
  using assms
proof (induction calls arbitrary: tbl disk)
  case Nil
  then show ?case by simp
next
  case (Cons c calls)
  from Cons.prems(3) obtain rc tbl1 disk1 where
    r1: "rmCall fuel ps c (tbl, disk) = Some (rc, tbl1, disk1)"
    and r2: "rmCalls fuel ps calls (tbl1, disk1) = Some (tbl', disk')"
    by (auto split: option.splits)
  have v: "validCall ps (recordSize tbl) c" using Cons.prems(2) by simp
  have rdy: "tableReady ps tbl disk" using Cons.prems(1) by (simp add: tableInv_def)
  note l1 = rmCall_length [OF rdy v r1]
  have rest: "\<forall>c\<in>set calls. validCall ps (recordSize tbl1) c" using Cons.prems(2) l1 by simp
  have rdy1: "tableReady ps tbl1 disk1" using l1 by simp
  have "length disk1 \<le> length disk'" using rmCalls_length [OF rdy1 rest r2] by simp
  then have f1: "fileFits ps disk1" by (rule fileFits_shorter [OF Cons.prems(4)])
  note s1 = tableInv_rmCall [OF Cons.prems(1) v r1 f1]
  show ?case using Cons.IH [of tbl1 disk1] s1 rest r2 Cons.prems(4) by simp
qed

lemma rmCalls_reachable:
  assumes "reachable ps catalog recSize st" and "\<forall>c\<in>set calls. validCall ps recSize c"
    and "rmCalls fuel ps calls st = Some st'" and "fileFits ps (snd st')"
    and ps: "4 \<le> ps" and big: "ps < 2 ^ 31" and len: "length catalog < ps"
  shows "reachable ps catalog recSize st'"
  using assms(1-4)
proof (induction calls arbitrary: st)
  case Nil
  then show ?case by simp
next
  case (Cons c calls)
  from Cons.prems(3) obtain rc st1 where
    r1: "rmCall fuel ps c st = Some (rc, st1)" and r2: "rmCalls fuel ps calls st1 = Some st'"
    by (auto split: option.splits)
  have v: "validCall ps recSize c" using Cons.prems(2) by simp
  have inv: "tableInv ps (fst st) (snd st)" and rs: "recordSize (fst st) = recSize"
    using reachable_tableInv [OF Cons.prems(1) ps big len] by simp_all
  have rdy: "tableReady ps (fst st) (snd st)" using inv by (simp add: tableInv_def)
  have v': "validCall ps (recordSize (fst st)) c" using v rs by simp
  have r1': "rmCall fuel ps c (fst st, snd st) = Some (rc, fst st1, snd st1)" using r1 by simp
  note l1 = rmCall_length [OF rdy v' r1']
  have rest: "\<forall>c\<in>set calls. validCall ps (recordSize (fst st1)) c"
    using Cons.prems(2) l1 rs by simp
  have rdy1: "tableReady ps (fst st1) (snd st1)" using l1 by simp
  have r2': "rmCalls fuel ps calls (fst st1, snd st1) = Some (fst st', snd st')" using r2 by simp
  have "length (snd st1) \<le> length (snd st')" using rmCalls_length [OF rdy1 rest r2'] by simp
  then have f1: "fileFits ps (snd st1)" by (rule fileFits_shorter [OF Cons.prems(4)])
  have "reachable ps catalog recSize (fst st, snd st)" using Cons.prems(1) by simp
  then have "reachable ps catalog recSize st1"
    by (rule reachable.called [OF _ v _ f1]) (use r1 in simp)
  then show ?case using Cons.IH [of st1] Cons.prems(2,4) r2 by simp
qed

lemma tableA_inv: "tableInv 16 (fst tableA) (snd tableA)" "recordSize (fst tableA) = 5"
proof -
  have h: "(4::nat) \<le> 16" "(16::nat) < 2 ^ 31" "length catalogA < 16"
    by (simp_all add: catalogA_def)
  show "tableInv 16 (fst tableA) (snd tableA)" "recordSize (fst tableA) = 5"
    unfolding tableA_def by (rule newTable_tableInv(1,2) [OF h])+
qed

lemma tableA_calls:
  assumes "rmCalls 2 16 calls tableA = Some st" and "\<forall>c\<in>set calls. validCall 16 5 c"
    and "fileFits 16 (snd st)"
  shows "tableInv 16 (fst st) (snd st)" "recordSize (fst st) = 5"
proof -
  have r: "rmCalls 2 16 calls (fst tableA, snd tableA) = Some (fst st, snd st)"
    using assms(1) by simp
  have v: "\<forall>c\<in>set calls. validCall 16 (recordSize (fst tableA)) c"
    using assms(2) tableA_inv(2) by simp
  from rmCalls_tableInv [OF tableA_inv(1) v r assms(3)]
  show "tableInv 16 (fst st) (snd st)" "recordSize (fst st) = 5"
    using tableA_inv(2) by simp_all
qed

lemma oneRecord_inv: "tableInv 16 (fst oneRecord) (snd oneRecord)" "recordSize (fst oneRecord) = 5"
proof -
  have r: "rmCalls 2 16 [Insert (rec5 7)] tableA = Some oneRecord" by code_simp
  have v: "\<forall>c\<in>set [Insert (rec5 7)]. validCall 16 5 c" by code_simp
  have l: "length (snd oneRecord) = 2" by code_simp
  have f: "fileFits 16 (snd oneRecord)" by (simp add: fileFits_def l)
  show "tableInv 16 (fst oneRecord) (snd oneRecord)" "recordSize (fst oneRecord) = 5"
    by (rule tableA_calls [OF r v f])+
qed

lemma twoRecords_inv: "tableInv 16 (fst twoRecords) (snd twoRecords)" "recordSize (fst twoRecords) = 5"
proof -
  have r: "rmCalls 2 16 twoCalls tableA = Some twoRecords" by code_simp
  have v: "\<forall>c\<in>set twoCalls. validCall 16 5 c" by code_simp
  have l: "length (snd twoRecords) = 2" by code_simp
  have f: "fileFits 16 (snd twoRecords)" by (simp add: fileFits_def l)
  show "tableInv 16 (fst twoRecords) (snd twoRecords)" "recordSize (fst twoRecords) = 5"
    by (rule tableA_calls [OF r v f])+
qed

lemma stateA_inv: "tableInv 16 (fst stateA) (snd stateA)" "recordSize (fst stateA) = 5"
proof -
  have r: "rmCalls 2 16 fiveCalls tableA = Some stateA" by code_simp
  have v: "\<forall>c\<in>set fiveCalls. validCall 16 5 c" by code_simp
  have l: "length (snd stateA) = 3" by code_simp
  have f: "fileFits 16 (snd stateA)" by (simp add: fileFits_def l)
  show "tableInv 16 (fst stateA) (snd stateA)" "recordSize (fst stateA) = 5"
    by (rule tableA_calls [OF r v f])+
qed

lemma tableInv_D:
  assumes "tableInv ps tbl disk"
  shows "tableReady ps tbl disk" "poolInv ps (bufferPool tbl) disk None" "4 \<le> ps"
    "fileFits ps disk"
  using assms by (simp_all add: tableInv_def tableReady_def)

text \<open>
  \<open>insertRecord\<close> returns when a page has room for a slot: it calls itself at most once,
  after it found the page \<open>nextFreePage\<close> full, and then it appends a page.
\<close>

lemma findFreeSlot_zeroPage:
  assumes "4 \<le> ps" "1 \<le> computeMaxSlots ps recSize"
  shows "findFreeSlot (zeroPage ps) (computeMaxSlots ps recSize) = Some 0"
proof -
  have "4 < ps" using computeMaxSlots_fits [OF assms(1), of recSize] assms(2) by simp
  then have z: "zeroPage ps ! 4 = 0" by (simp add: zeroPage_def)
  have "[0..<computeMaxSlots ps recSize] = 0 # [1..<computeMaxSlots ps recSize]"
    using assms(2) by (simp add: upt_conv_Cons)
  then show ?thesis using z by (simp add: findFreeSlot_def)
qed

lemma insertRecord_appends:
  assumes rdy: "tableReady ps tbl disk" and rl: "recordSize tbl \<le> length (rec_data r)"
    and N: "1 \<le> computeMaxSlots ps (recordSize tbl)" and nfp: "nextFreePage tbl < 1"
  shows "\<exists>res. insertRecord (Suc fuel) ps tbl disk r = Some res"
proof -
  note R = tableReady_D [OF rdy]
  from insertRecord_append [OF R(1,2) nfp R(3), of fuel r] obtain tbl1 disk1 where
    a: "insertRecord (Suc fuel) ps tbl disk r = insertRecord (Suc fuel) ps tbl1 disk1 r"
       "poolInv ps (bufferPool tbl1) disk1 None" "length disk1 = Suc (length disk)"
       "contents (bufferPool tbl1) disk1 = contents (bufferPool tbl) disk @ [zeroPage ps]"
       "nextFreePage tbl1 = int (length disk)" "recordSize tbl1 = recordSize tbl"
    by blast
  have n1: "1 \<le> nextFreePage tbl1" using a(5) R(3) by simp
  have ex: "nat (nextFreePage tbl1) < length disk1" using a(3,5) by simp
  have "pagesAt ps tbl1 disk1 (nextFreePage tbl1) ! nat (nextFreePage tbl1) = zeroPage ps"
    unfolding pagesAt_existing [OF ex] a(4) using a(5) by (simp add: nth_append length_contents)
  then have free: "findFreeSlot (pagesAt ps tbl1 disk1 (nextFreePage tbl1) ! nat (nextFreePage tbl1))
                     (computeMaxSlots ps (recordSize tbl1)) = Some 0"
    using findFreeSlot_zeroPage [OF R(2) N] a(6) by simp
  have rl1: "recordSize tbl1 \<le> length (rec_data r)" using rl a(6) by simp
  from insertRecord_place [OF a(2) R(2) n1 rl1 free, of fuel] a(1) show ?thesis by auto
qed

lemma insertRecord_returns:
  assumes rdy: "tableReady ps tbl disk" and rl: "recordSize tbl \<le> length (rec_data r)"
    and N: "1 \<le> computeMaxSlots ps (recordSize tbl)"
  shows "\<exists>res. insertRecord (Suc (Suc fuel)) ps tbl disk r = Some res"
proof (cases "nextFreePage tbl < 1")
  case True
  then show ?thesis by (rule insertRecord_appends [OF rdy rl N])
next
  case False
  then have n1: "1 \<le> nextFreePage tbl" by simp
  note R = tableReady_D [OF rdy]
  show ?thesis
  proof (cases "findFreeSlot (pagesAt ps tbl disk (nextFreePage tbl) ! nat (nextFreePage tbl))
                  (computeMaxSlots ps (recordSize tbl))")
    case (Some s)
    from insertRecord_place [OF R(1,2) n1 rl Some, of "Suc fuel"] show ?thesis by auto
  next
    case None
    from insertRecord_full [OF R(1) n1 None, of "Suc fuel" r] obtain tbl2 disk2 where
      f: "insertRecord (Suc (Suc fuel)) ps tbl disk r = insertRecord (Suc fuel) ps tbl2 disk2 r"
         "poolInv ps (bufferPool tbl2) disk2 None"
         "length disk2 = max (length disk) (nat (nextFreePage tbl) + 1)"
         "nextFreePage tbl2 = - 1" "recordSize tbl2 = recordSize tbl"
      by blast
    have rdy2: "tableReady ps tbl2 disk2" using f(2,3) R by (simp add: tableReady_def)
    have "\<exists>res. insertRecord (Suc fuel) ps tbl2 disk2 r = Some res"
      by (rule insertRecord_appends [OF rdy2]) (use rl N f(4,5) in simp_all)
    then show ?thesis using f(1) by simp
  qed
qed

section \<open>The record operations\<close>

subsection \<open>Deleting a record\<close>

text \<open>
  Claim C5. A RID is valid when it names a slot of an existing data page. Let \<open>rid\<close> be
  valid, in a table between two calls whose file is smaller than \<open>2^31\<close> bytes, with a
  \<open>slotsUsed\<close> header and a \<open>numTuples\<close> that are above the least \<open>int\<close>, so that no offset
  and no decrement overflows. Then \<open>deleteRecord\<close> returns \<open>RC_OK\<close>, the file keeps its length
  and all other pages their bytes. If the usage byte of the slot
  is 1, it becomes 0, the header of the page and \<open>numTuples\<close> are decremented, no other
  byte of the page after the header changes, and \<open>nextFreePage\<close> becomes the page of \<open>rid\<close>
  if the header is now \<open>N - 1\<close> and is unchanged otherwise. If the usage byte is not 1, in
  particular if it is 0, no page, \<open>numTuples\<close> and \<open>nextFreePage\<close> are unchanged.
\<close>

theorem deleteRecord_effect:
  assumes "poolInv ps (bufferPool tbl) disk None" and "4 \<le> ps"
    and "1 \<le> page rid" and "nat (page rid) < length disk"
    and "0 \<le> slot rid" and "slot rid < int (computeMaxSlots ps (recordSize tbl))"
    and "- (2 ^ 31) < getInt (contents (bufferPool tbl) disk ! nat (page rid))"
    and "fileFits ps disk" and "- (2 ^ 31) < numTuples tbl" and "numTuples tbl < 2 ^ 31"
  shows "\<exists>tbl' disk'.
           deleteRecord ps tbl disk rid = (RC_OK, tbl', disk')
           \<and> poolInv ps (bufferPool tbl') disk' None
           \<and> length disk' = length disk \<and> recordSize tbl' = recordSize tbl
           \<and> (\<forall>q<length disk. q \<noteq> nat (page rid) \<longrightarrow>
                  contents (bufferPool tbl') disk' ! q = contents (bufferPool tbl) disk ! q)
           \<and> (contents (bufferPool tbl) disk ! nat (page rid) ! nat (4 + slot rid) = 1 \<longrightarrow>
                  contents (bufferPool tbl') disk' ! nat (page rid) ! nat (4 + slot rid) = 0
                \<and> getInt (contents (bufferPool tbl') disk' ! nat (page rid))
                    = getInt (contents (bufferPool tbl) disk ! nat (page rid)) - 1
                \<and> (\<forall>k<ps. 4 \<le> k \<and> k \<noteq> nat (4 + slot rid) \<longrightarrow>
                       contents (bufferPool tbl') disk' ! nat (page rid) ! k
                         = contents (bufferPool tbl) disk ! nat (page rid) ! k)
                \<and> numTuples tbl' = numTuples tbl - 1
                \<and> nextFreePage tbl' =
                     (if getInt (contents (bufferPool tbl') disk' ! nat (page rid))
                           = int (computeMaxSlots ps (recordSize tbl)) - 1
                      then page rid else nextFreePage tbl))
           \<and> (contents (bufferPool tbl) disk ! nat (page rid) ! nat (4 + slot rid) \<noteq> 1 \<longrightarrow>
                  contents (bufferPool tbl') disk' = contents (bufferPool tbl) disk
                \<and> numTuples tbl' = numTuples tbl \<and> nextFreePage tbl' = nextFreePage tbl)"
  by (rule deleteRecord_valid [OF assms(1-7)])

text \<open>
  The theorem at the table \<open>twoRecords\<close>, whose page 1 is full: deleting the record in
  slot 0 frees the slot, leaves one record counted, and makes page 1 the next free page.
\<close>

theorem deleteRecord_effect_witness:
  "\<exists>tbl' disk'. deleteRecord 16 (fst twoRecords) (snd twoRecords) \<lparr>page = 1, slot = 0\<rparr>
                    = (RC_OK, tbl', disk')
     \<and> contents (bufferPool tbl') disk' ! 1 ! 4 = 0
     \<and> getInt (contents (bufferPool tbl') disk' ! 1) = 1
     \<and> numTuples tbl' = 1 \<and> nextFreePage tbl' = 1"
proof -
  let ?rid = "\<lparr>page = 1, slot = 0\<rparr>"
  have h1: "poolInv 16 (bufferPool (fst twoRecords)) (snd twoRecords) None"
    by (rule tableInv_D(2) [OF twoRecords_inv(1)])
  have h2: "(4::nat) \<le> 16" by simp
  have h3: "1 \<le> page ?rid" by simp
  have h4: "nat (page ?rid) < length (snd twoRecords)" by code_simp
  have h5: "0 \<le> slot ?rid" by simp
  have h6: "slot ?rid < int (computeMaxSlots 16 (recordSize (fst twoRecords)))" by code_simp
  have h7: "- (2 ^ 31) < getInt (contents (bufferPool (fst twoRecords)) (snd twoRecords) ! nat (page ?rid))"
    by code_simp
  have f: "contents (bufferPool (fst twoRecords)) (snd twoRecords) ! 1 ! 4 = 1
           \<and> getInt (contents (bufferPool (fst twoRecords)) (snd twoRecords) ! 1) = 2
           \<and> numTuples (fst twoRecords) = 2
           \<and> computeMaxSlots 16 (recordSize (fst twoRecords)) = 2"
    by code_simp
  have h8: "fileFits 16 (snd twoRecords)" by (rule tableInv_D(4) [OF twoRecords_inv(1)])
  have h9: "- (2 ^ 31) < numTuples (fst twoRecords)" using f by simp
  have h10: "numTuples (fst twoRecords) < 2 ^ 31" using f by simp
  show ?thesis
    using deleteRecord_effect [OF h1 h2 h3 h4 h5 h6 h7 h8 h9 h10] f by auto
qed

text \<open>
  Claim C6 as stated fails at the table \<open>stateA\<close>, where a page has two slots: page 1 is
  full, page 2 holds one record, in slot 0, and \<open>nextFreePage\<close> is -1. Deleting that record
  takes the header of page 2 from 1 to 0 and returns \<open>RC_OK\<close>, and \<open>nextFreePage\<close> is
  still -1, not 2.
\<close>

theorem last_slot_counterexample:
  "computeMaxSlots 16 (recordSize (fst stateA)) = 2
   \<and> nextFreePage (fst stateA) = - 1
   \<and> getInt (contents (bufferPool (fst stateA)) (snd stateA) ! 2) = 1
   \<and> contents (bufferPool (fst stateA)) (snd stateA) ! 2 ! 4 = 1
   \<and> fst (deleteRecord 16 (fst stateA) (snd stateA) \<lparr>page = 2, slot = 0\<rparr>) = RC_OK
   \<and> getInt (contents
               (bufferPool (fst (snd (deleteRecord 16 (fst stateA) (snd stateA) \<lparr>page = 2, slot = 0\<rparr>))))
               (snd (snd (deleteRecord 16 (fst stateA) (snd stateA) \<lparr>page = 2, slot = 0\<rparr>))) ! 2) = 0
   \<and> nextFreePage (fst (snd (deleteRecord 16 (fst stateA) (snd stateA) \<lparr>page = 2, slot = 0\<rparr>))) = - 1"
  by code_simp

text \<open>
  Claim C6, amended. In a table between two calls whose file is smaller than \<open>2^31\<close> bytes
  and whose \<open>numTuples\<close> is representable, the delete that takes the header of an existing
  data page from 1 to 0 sets \<open>nextFreePage\<close> to that page only if a page has a single slot
  (\<open>N = 1\<close>); with more slots per page it leaves \<open>nextFreePage\<close> as it was.
\<close>

theorem last_slot_delete:
  assumes "poolInv ps (bufferPool tbl) disk None" and "4 \<le> ps"
    and "1 \<le> page rid" and "nat (page rid) < length disk"
    and "0 \<le> slot rid" and "slot rid < int (computeMaxSlots ps (recordSize tbl))"
    and "contents (bufferPool tbl) disk ! nat (page rid) ! nat (4 + slot rid) = 1"
    and "getInt (contents (bufferPool tbl) disk ! nat (page rid)) = 1"
    and "fileFits ps disk" and "- (2 ^ 31) < numTuples tbl" and "numTuples tbl < 2 ^ 31"
  shows "\<exists>tbl' disk'.
           deleteRecord ps tbl disk rid = (RC_OK, tbl', disk')
           \<and> getInt (contents (bufferPool tbl') disk' ! nat (page rid)) = 0
           \<and> nextFreePage tbl' =
                (if computeMaxSlots ps (recordSize tbl) = 1 then page rid else nextFreePage tbl)"
proof -
  have lo: "- (2 ^ 31) < getInt (contents (bufferPool tbl) disk ! nat (page rid))"
    using assms(8) by simp
  from deleteRecord_valid [OF assms(1-6) lo] obtain tbl' disk' where
    r: "deleteRecord ps tbl disk rid = (RC_OK, tbl', disk')"
       "getInt (contents (bufferPool tbl') disk' ! nat (page rid))
           = getInt (contents (bufferPool tbl) disk ! nat (page rid)) - 1"
       "nextFreePage tbl' =
           (if getInt (contents (bufferPool tbl') disk' ! nat (page rid))
                 = int (computeMaxSlots ps (recordSize tbl)) - 1
            then page rid else nextFreePage tbl)"
    using assms(7) by auto
  have g: "getInt (contents (bufferPool tbl') disk' ! nat (page rid)) = 0"
    using r(2) assms(8) by simp
  have "(0 = int (computeMaxSlots ps (recordSize tbl)) - 1)
          = (computeMaxSlots ps (recordSize tbl) = 1)" by auto
  then show ?thesis using r(1,3) g by simp
qed

text \<open>
  The theorem at the table \<open>stateA\<close> and the only record of its page 2: a page has two
  slots, and \<open>nextFreePage\<close> stays -1.
\<close>

theorem last_slot_delete_witness:
  "\<exists>tbl' disk'. deleteRecord 16 (fst stateA) (snd stateA) \<lparr>page = 2, slot = 0\<rparr> = (RC_OK, tbl', disk')
     \<and> getInt (contents (bufferPool tbl') disk' ! 2) = 0
     \<and> nextFreePage tbl' = - 1"
proof -
  let ?rid = "\<lparr>page = 2, slot = 0\<rparr>"
  have h1: "poolInv 16 (bufferPool (fst stateA)) (snd stateA) None"
    by (rule tableInv_D(2) [OF stateA_inv(1)])
  have h2: "(4::nat) \<le> 16" by simp
  have h3: "1 \<le> page ?rid" by simp
  have h4: "nat (page ?rid) < length (snd stateA)" by code_simp
  have h5: "0 \<le> slot ?rid" by simp
  have h6: "slot ?rid < int (computeMaxSlots 16 (recordSize (fst stateA)))" by code_simp
  have h7: "contents (bufferPool (fst stateA)) (snd stateA) ! nat (page ?rid) ! nat (4 + slot ?rid) = 1"
    by code_simp
  have h8: "getInt (contents (bufferPool (fst stateA)) (snd stateA) ! nat (page ?rid)) = 1"
    by code_simp
  have f: "computeMaxSlots 16 (recordSize (fst stateA)) = 2 \<and> nextFreePage (fst stateA) = - 1
           \<and> numTuples (fst stateA) = 3"
    by code_simp
  have h9: "fileFits 16 (snd stateA)" by (rule tableInv_D(4) [OF stateA_inv(1)])
  have h10: "- (2 ^ 31) < numTuples (fst stateA)" using f by simp
  have h11: "numTuples (fst stateA) < 2 ^ 31" using f by simp
  show ?thesis
    using last_slot_delete [OF h1 h2 h3 h4 h5 h6 h7 h8 h9 h10 h11] f by auto
qed

subsection \<open>Updating a record\<close>

text \<open>
  Claim C7. Let the RID of \<open>r\<close> name a slot of an existing page of a table between two
  calls whose file is smaller than \<open>2^31\<close> bytes, so that no block offset overflows, and let
  \<open>r\<close> carry at least \<open>recordSize\<close> bytes. Then \<open>updateRecord\<close> leaves the
  length of the file, \<open>numTuples\<close>, \<open>nextFreePage\<close> and all other pages unchanged. If the
  usage byte of the slot is 0, it returns \<open>RC_READ_NON_EXISTING_PAGE\<close>, which is the code
  this module uses for a record that does not exist, and no page changes. Otherwise it
  returns \<open>RC_OK\<close>, the payload of the slot is now the first \<open>recordSize\<close> bytes of \<open>r\<close>, and
  every byte of the page outside the payload of the slot, which includes the header, the
  usage bytes and the other slots, is unchanged. The record \<open>r\<close> is only read, so that its
  RID is the same after the call, and the payload is stored at that RID.
\<close>

theorem updateRecord_effect:
  assumes "tableReady ps tbl disk" and "slotOk ps (recordSize tbl) (rec_id r)"
    and "0 \<le> page (rec_id r)" and "nat (page (rec_id r)) < length disk"
    and "recordSize tbl \<le> length (rec_data r)" and "fileFits ps disk"
  shows "\<exists>rc tbl' disk'.
           updateRecord ps tbl disk r = (rc, tbl', disk')
           \<and> tableReady ps tbl' disk' \<and> length disk' = length disk \<and> sameTable tbl tbl'
           \<and> (\<forall>q<length disk. q \<noteq> nat (page (rec_id r)) \<longrightarrow>
                  contents (bufferPool tbl') disk' ! q = contents (bufferPool tbl) disk ! q)
           \<and> (contents (bufferPool tbl) disk ! nat (page (rec_id r)) ! (4 + nat (slot (rec_id r))) = 0
                \<longrightarrow> rc = RC_READ_NON_EXISTING_PAGE
                    \<and> contents (bufferPool tbl') disk' = contents (bufferPool tbl) disk)
           \<and> (contents (bufferPool tbl) disk ! nat (page (rec_id r)) ! (4 + nat (slot (rec_id r))) \<noteq> 0
                \<longrightarrow> rc = RC_OK
                    \<and> slotPayload ps (recordSize tbl)
                         (contents (bufferPool tbl') disk' ! nat (page (rec_id r)))
                         (nat (slot (rec_id r))) = take (recordSize tbl) (rec_data r)
                    \<and> (\<forall>k<ps. \<not> (4 + computeMaxSlots ps (recordSize tbl)
                                       + nat (slot (rec_id r)) * recordSize tbl \<le> k
                                    \<and> k < 4 + computeMaxSlots ps (recordSize tbl)
                                            + nat (slot (rec_id r)) * recordSize tbl + recordSize tbl)
                          \<longrightarrow> contents (bufferPool tbl') disk' ! nat (page (rec_id r)) ! k
                                = contents (bufferPool tbl) disk ! nat (page (rec_id r)) ! k))"
proof -
  let ?R = "recordSize tbl"
  let ?cs = "contents (bufferPool tbl) disk"
  let ?p = "nat (page (rec_id r))" and ?s = "nat (slot (rec_id r))"
  let ?off = "4 + computeMaxSlots ps ?R + ?s * ?R"
  note S = slotOk_nat [OF assms(2)]
  have pa: "pagesAt ps tbl disk (page (rec_id r)) = ?cs" by (rule pagesAt_existing [OF assms(4)])
  have ec: "ensureCapacity ps (?p + 1) ?cs = ?cs" using pa by (simp add: pagesAt_def)
  from update_callEffect [OF assms(1,2,3,5)] obtain rc tbl' disk' d' where
    u: "updateRecord ps tbl disk r = (rc, tbl', disk')"
       "callEffect ps tbl disk tbl' disk' (?p + 1) ?p ?s d'"
       "sameTable tbl tbl'"
       "if ?cs ! ?p ! nat (4 + slot (rec_id r)) = 0
        then rc = RC_READ_NON_EXISTING_PAGE \<and> d' = ?cs ! ?p
        else rc = RC_OK
             \<and> memcpy (?cs ! ?p) (slotOffset ps ?R (slot (rec_id r))) (rec_data r) 0 ?R = Some d'"
    unfolding pa by blast
  have c: "tableReady ps tbl' disk'" "?p < length ?cs"
    "contents (bufferPool tbl') disk' = ?cs[?p := d']"
    using u(2) unfolding callEffect_def ec by simp_all
  have l: "length disk' = length disk"
    using arg_cong [OF c(3), of length] by (simp add: length_contents)
  have oth: "\<forall>q<length disk. q \<noteq> ?p \<longrightarrow> contents (bufferPool tbl') disk' ! q = ?cs ! q"
    using c(3) by simp
  have e: "contents (bufferPool tbl') disk' ! ?p = d'" using c(2,3) by simp
  have free: "rc = RC_READ_NON_EXISTING_PAGE \<and> contents (bufferPool tbl') disk' = ?cs"
    if "?cs ! ?p ! (4 + ?s) = 0"
    using that u(4) c(3) S(3) by simp
  have used: "rc = RC_OK \<and> slotPayload ps ?R d' ?s = take ?R (rec_data r)
              \<and> (\<forall>k<ps. \<not> (?off \<le> k \<and> k < ?off + ?R) \<longrightarrow> d' ! k = ?cs ! ?p ! k)"
    if n0: "?cs ! ?p ! (4 + ?s) \<noteq> 0"
  proof -
    have m: "memcpy (?cs ! ?p) (slotOffset ps ?R (int ?s)) (rec_data r) 0 ?R = Some d'"
      and rc: "rc = RC_OK"
      using n0 u(4) S(2,3) by simp_all
    have o: "nat (slotOffset ps ?R (int ?s)) = ?off" unfolding slotOffset_nat by (rule nat_int)
    have "d' ! k = ?cs ! ?p ! k" if "\<not> (?off \<le> k \<and> k < ?off + ?R)" for k
      using memcpy_nth_outside [OF m, of k] that unfolding o by auto
    then show ?thesis using rc slotPayload_memcpy [OF m] by simp
  qed
  show ?thesis
    using u(1,3) c(1) l oth free used unfolding e [symmetric]
    by (intro exI [of _ rc] exI [of _ tbl'] exI [of _ disk']) simp
qed

text \<open>
  The theorem at the table \<open>oneRecord\<close>, whose record at RID (1, 0) has the bytes 7, and
  a record with the same RID and the bytes 9.
\<close>

theorem updateRecord_effect_witness:
  "\<exists>tbl' disk'. updateRecord 16 (fst oneRecord) (snd oneRecord)
                    \<lparr>rec_id = \<lparr>page = 1, slot = 0\<rparr>, rec_data = replicate 5 9\<rparr> = (RC_OK, tbl', disk')
     \<and> sameTable (fst oneRecord) tbl'
     \<and> slotPayload 16 5 (contents (bufferPool tbl') disk' ! 1) 0 = [9, 9, 9, 9, 9]
     \<and> contents (bufferPool tbl') disk' ! 1 ! 4 = 1
     \<and> contents (bufferPool tbl') disk' ! 0 = contents (bufferPool (fst oneRecord)) (snd oneRecord) ! 0"
proof -
  let ?r = "\<lparr>rec_id = \<lparr>page = 1, slot = 0\<rparr>, rec_data = replicate 5 9\<rparr>"
  have h1: "tableReady 16 (fst oneRecord) (snd oneRecord)"
    by (rule tableInv_D(1) [OF oneRecord_inv(1)])
  have h6: "fileFits 16 (snd oneRecord)" by (rule tableInv_D(4) [OF oneRecord_inv(1)])
  have h2: "slotOk 16 (recordSize (fst oneRecord)) (rec_id ?r)" by code_simp
  have h3: "0 \<le> page (rec_id ?r)" by simp
  have h4: "nat (page (rec_id ?r)) < length (snd oneRecord)" by code_simp
  have h5: "recordSize (fst oneRecord) \<le> length (rec_data ?r)" by code_simp
  have f: "contents (bufferPool (fst oneRecord)) (snd oneRecord) ! 1 ! 4 = 1
           \<and> recordSize (fst oneRecord) = 5 \<and> length (snd oneRecord) = 2
           \<and> computeMaxSlots 16 5 = 2"
    by code_simp
  have r9: "take 5 (replicate 5 (9::byte)) = [9, 9, 9, 9, 9]" by code_simp
  from updateRecord_effect [OF h1 h2 h3 h4 h5 h6] obtain rc tbl' disk' where
    u: "updateRecord 16 (fst oneRecord) (snd oneRecord) ?r = (rc, tbl', disk')"
       "sameTable (fst oneRecord) tbl'"
       "\<forall>q<length (snd oneRecord). q \<noteq> nat (page (rec_id ?r)) \<longrightarrow>
            contents (bufferPool tbl') disk' ! q
              = contents (bufferPool (fst oneRecord)) (snd oneRecord) ! q"
       "contents (bufferPool (fst oneRecord)) (snd oneRecord) ! nat (page (rec_id ?r))
            ! (4 + nat (slot (rec_id ?r))) \<noteq> 0
          \<longrightarrow> rc = RC_OK
              \<and> slotPayload 16 (recordSize (fst oneRecord))
                   (contents (bufferPool tbl') disk' ! nat (page (rec_id ?r)))
                   (nat (slot (rec_id ?r))) = take (recordSize (fst oneRecord)) (rec_data ?r)
              \<and> (\<forall>k<16. \<not> (4 + computeMaxSlots 16 (recordSize (fst oneRecord))
                                 + nat (slot (rec_id ?r)) * recordSize (fst oneRecord) \<le> k
                              \<and> k < 4 + computeMaxSlots 16 (recordSize (fst oneRecord))
                                      + nat (slot (rec_id ?r)) * recordSize (fst oneRecord)
                                      + recordSize (fst oneRecord))
                    \<longrightarrow> contents (bufferPool tbl') disk' ! nat (page (rec_id ?r)) ! k
                          = contents (bufferPool (fst oneRecord)) (snd oneRecord)
                              ! nat (page (rec_id ?r)) ! k)"
    by blast
  have a: "rc = RC_OK" "slotPayload 16 5 (contents (bufferPool tbl') disk' ! 1) 0 = [9, 9, 9, 9, 9]"
    using u(4) f r9 by simp_all
  have b: "contents (bufferPool tbl') disk' ! 1 ! 4 = 1"
    using u(4) f by simp
  have c: "contents (bufferPool tbl') disk' ! 0 = contents (bufferPool (fst oneRecord)) (snd oneRecord) ! 0"
    using u(3) f by simp
  show ?thesis using u(1,2) a b c by simp
qed

subsection \<open>RIDs beyond the end of the file\<close>

text \<open>
  Claim C10 as stated fails at the new table \<open>tableA\<close>, whose file has one page of 16 bytes,
  and the RID (3, 12). Page 3 lies beyond the end of the file, and the usage byte of slot
  12 is byte 16 of a page, one past the end of the page buffer: \<open>getRecord\<close>, \<open>updateRecord\<close>
  and \<open>deleteRecord\<close> read it there and have no defined result, where the claim has the
  free-slot outcome.
\<close>

theorem slot_outside_page_counterexample:
  "length (snd tableA) = 1
   \<and> fst (getRecord 16 (fst tableA) (snd tableA) \<lparr>page = 3, slot = 12\<rparr> (createRecord 5))
       = UNDEFINED_BEHAVIOUR
   \<and> fst (updateRecord 16 (fst tableA) (snd tableA) ((rec5 1)\<lparr>rec_id := \<lparr>page = 3, slot = 12\<rparr>\<rparr>))
       = UNDEFINED_BEHAVIOUR
   \<and> fst (deleteRecord 16 (fst tableA) (snd tableA) \<lparr>page = 3, slot = 12\<rparr>) = UNDEFINED_BEHAVIOUR"
  by code_simp

text \<open>
  Claim C10, amended. Take a table between two calls, when no page is pinned. Let the page
  of \<open>rid\<close> lie at or beyond the end of the file and be so small that the file extended up
  to it is smaller than \<open>2^31\<close> bytes, and let the usage byte of its slot lie within a page.
  Then \<open>pinPage\<close> extends the file with zeroed pages up to that page, and each call finds a
  free slot there: \<open>getRecord\<close> returns \<open>RC_RM_NO_MORE_TUPLES\<close> and leaves the output record as
  it was, \<open>updateRecord\<close> returns \<open>RC_READ_NON_EXISTING_PAGE\<close> and \<open>deleteRecord\<close> returns
  \<open>RC_OK\<close>. After each of them the file ends with the page of \<open>rid\<close>, it consists of the pages
  it had and zeroed pages, and \<open>numTuples\<close> and \<open>nextFreePage\<close> are unchanged. The page fetch
  of a scan succeeds for every page number that is not negative and up to which the file
  is smaller than \<open>2^31\<close> bytes.
\<close>

theorem beyond_end_of_file:
  assumes "tableReady ps tbl disk" and "length disk \<le> nat (page rid)"
    and "0 \<le> 4 + slot rid" and "nat (4 + slot rid) < ps"
    and "rec_id r = rid" and "0 \<le> currentPage sdata"
    and "(nat (page rid) + 1) * ps < 2 ^ 31" and "(nat (currentPage sdata) + 1) * ps < 2 ^ 31"
  shows "(\<exists>tbl' disk'. getRecord ps tbl disk rid out = (RC_RM_NO_MORE_TUPLES, tbl', disk', out)
            \<and> length disk' = nat (page rid) + 1 \<and> sameTable tbl tbl'
            \<and> contents (bufferPool tbl') disk'
                 = contents (bufferPool tbl) disk
                     @ replicate (nat (page rid) + 1 - length disk) (zeroPage ps))
       \<and> (\<exists>tbl' disk'. updateRecord ps tbl disk r = (RC_READ_NON_EXISTING_PAGE, tbl', disk')
            \<and> length disk' = nat (page rid) + 1 \<and> sameTable tbl tbl'
            \<and> contents (bufferPool tbl') disk'
                 = contents (bufferPool tbl) disk
                     @ replicate (nat (page rid) + 1 - length disk) (zeroPage ps))
       \<and> (\<exists>tbl' disk'. deleteRecord ps tbl disk rid = (RC_OK, tbl', disk')
            \<and> length disk' = nat (page rid) + 1 \<and> sameTable tbl tbl'
            \<and> contents (bufferPool tbl') disk'
                 = contents (bufferPool tbl) disk
                     @ replicate (nat (page rid) + 1 - length disk) (zeroPage ps))
       \<and> (\<exists>bp disk' h. scanFetch ps tbl disk sdata = Inr (bp, disk', h)
            \<and> ph_pageNum h = currentPage sdata
            \<and> length disk' = max (length disk) (nat (currentPage sdata) + 1))"
proof -
  note R = tableReady_D [OF assms(1)]
  let ?z = "contents (bufferPool tbl) disk @ replicate (nat (page rid) + 1 - length disk) (zeroPage ps)"
  have pg: "0 \<le> page rid" using assms(2) R(3) by simp
  have pa: "pagesAt ps tbl disk (page rid) = ?z" by (rule pagesAt_beyond(1) [OF assms(2)])
  have fl: "pagesAt ps tbl disk (page rid) ! nat (page rid) ! nat (4 + slot rid) = 0"
    using assms(4) by (simp add: pagesAt_beyond(2) [OF assms(2)] zeroPage_def)
  have mx: "max (length disk) (nat (page rid) + 1) = nat (page rid) + 1" using assms(2) by simp
  have g: "\<exists>tbl' disk'. getRecord ps tbl disk rid out = (RC_RM_NO_MORE_TUPLES, tbl', disk', out)
            \<and> length disk' = nat (page rid) + 1 \<and> sameTable tbl tbl'
            \<and> contents (bufferPool tbl') disk' = ?z"
  proof -
    from getRecord_spec [OF R(1) pg assms(3,4), where r = out] obtain tbl' disk' out' where
      s: "snd (getRecord ps tbl disk rid out) = (tbl', disk', out')"
         "length disk' = max (length disk) (nat (page rid) + 1)" "sameTable tbl tbl'"
         "fst (getRecord ps tbl disk rid out) = RC_RM_NO_MORE_TUPLES \<and> out' = out
            \<and> contents (bufferPool tbl') disk' = pagesAt ps tbl disk (page rid)"
      using fl by auto
    have "getRecord ps tbl disk rid out = (RC_RM_NO_MORE_TUPLES, tbl', disk', out)"
      using s(1,4) by (metis prod.collapse)
    then show ?thesis using s(2,3,4) mx pa by simp
  qed
  have u: "\<exists>tbl' disk'. updateRecord ps tbl disk r = (RC_READ_NON_EXISTING_PAGE, tbl', disk')
            \<and> length disk' = nat (page rid) + 1 \<and> sameTable tbl tbl'
            \<and> contents (bufferPool tbl') disk' = ?z"
  proof -
    have pg': "0 \<le> page (rec_id r)" and sl': "0 \<le> 4 + slot (rec_id r)" "nat (4 + slot (rec_id r)) < ps"
      using pg assms(3,4,5) by simp_all
    from updateRecord_spec [OF R(1) pg' sl'] obtain tbl' disk' where
      s: "snd (updateRecord ps tbl disk r) = (tbl', disk')"
         "length disk' = max (length disk) (nat (page rid) + 1)" "sameTable tbl tbl'"
         "fst (updateRecord ps tbl disk r) = RC_READ_NON_EXISTING_PAGE
            \<and> contents (bufferPool tbl') disk' = pagesAt ps tbl disk (page rid)"
      using fl assms(5) by auto
    have "updateRecord ps tbl disk r = (RC_READ_NON_EXISTING_PAGE, tbl', disk')"
      using s(1,4) by (metis prod.collapse)
    then show ?thesis using s(2,3,4) mx pa by simp
  qed
  have d: "\<exists>tbl' disk'. deleteRecord ps tbl disk rid = (RC_OK, tbl', disk')
            \<and> length disk' = nat (page rid) + 1 \<and> sameTable tbl tbl'
            \<and> contents (bufferPool tbl') disk' = ?z"
  proof -
    from deleteRecord_spec [OF R(1,2) pg assms(3,4)] obtain tbl' disk' where
      s: "deleteRecord ps tbl disk rid = (RC_OK, tbl', disk')"
         "length disk' = max (length disk) (nat (page rid) + 1)"
         "contents (bufferPool tbl') disk' = pagesAt ps tbl disk (page rid) \<and> sameTable tbl tbl'"
      using fl by auto
    then show ?thesis using mx pa by simp
  qed
  have f: "\<exists>bp disk' h. scanFetch ps tbl disk sdata = Inr (bp, disk', h)
            \<and> ph_pageNum h = currentPage sdata
            \<and> length disk' = max (length disk) (nat (currentPage sdata) + 1)"
    using pin_page [OF R(1) assms(6)] unfolding scanFetch_def by metis
  show ?thesis using g u d f by simp
qed

text \<open>
  The theorem at the new table \<open>tableA\<close>, whose file has one page, the RID (3, 0) and a
  scan at page 5.
\<close>

theorem beyond_end_of_file_witness:
  "fst (getRecord 16 (fst tableA) (snd tableA) \<lparr>page = 3, slot = 0\<rparr> (createRecord 5))
     = RC_RM_NO_MORE_TUPLES
   \<and> length (fst (snd (snd (getRecord 16 (fst tableA) (snd tableA) \<lparr>page = 3, slot = 0\<rparr>
                                 (createRecord 5))))) = 4
   \<and> fst (updateRecord 16 (fst tableA) (snd tableA) ((rec5 1)\<lparr>rec_id := \<lparr>page = 3, slot = 0\<rparr>\<rparr>))
     = RC_READ_NON_EXISTING_PAGE
   \<and> fst (deleteRecord 16 (fst tableA) (snd tableA) \<lparr>page = 3, slot = 0\<rparr>) = RC_OK
   \<and> length (snd (snd (deleteRecord 16 (fst tableA) (snd tableA) \<lparr>page = 3, slot = 0\<rparr>))) = 4
   \<and> isl (scanFetch 16 (fst tableA) (snd tableA)
             \<lparr>currentPage = 5, currentSlot = 0\<rparr>) = False"
proof -
  let ?rid = "\<lparr>page = 3, slot = 0\<rparr>"
  let ?sd = "\<lparr>currentPage = 5, currentSlot = 0\<rparr>"
  have h1: "tableReady 16 (fst tableA) (snd tableA)" by (rule tableInv_D(1) [OF tableA_inv(1)])
  have h2: "length (snd tableA) \<le> nat (page ?rid)" by code_simp
  have h3: "0 \<le> 4 + slot ?rid" by simp
  have h4: "nat (4 + slot ?rid) < 16" by simp
  have h5: "rec_id ((rec5 1)\<lparr>rec_id := ?rid\<rparr>) = ?rid" by simp
  have h6: "0 \<le> currentPage ?sd" by simp
  have h7: "(nat (page ?rid) + 1) * 16 < (2::nat) ^ 31" by simp
  have h8: "(nat (currentPage ?sd) + 1) * 16 < (2::nat) ^ 31" by simp
  show ?thesis
    using beyond_end_of_file [OF h1 h2 h3 h4 h5 h6 h7 h8, of "createRecord 5"] by auto
qed

subsection \<open>Records that stay\<close>

text \<open>
  Claim C1 as stated fails at the new table \<open>tableA\<close>: \<open>insertRecord\<close> of a record with
  the bytes 7 returns \<open>RC_OK\<close> and the RID (1, 0); \<open>updateRecord\<close> of a record with that RID
  and the bytes 9 returns \<open>RC_OK\<close>; no record was deleted, and \<open>getRecord\<close> of the RID
  returns \<open>RC_OK\<close> with the bytes 9, not the inserted bytes.
\<close>

theorem get_after_update_counterexample:
  "insertRecord 2 16 (fst tableA) (snd tableA) (rec5 7)
     = Some (RC_OK, fst oneRecord, snd oneRecord, (rec5 7)\<lparr>rec_id := \<lparr>page = 1, slot = 0\<rparr>\<rparr>)
   \<and> updateRecord 16 (fst oneRecord) (snd oneRecord)
         \<lparr>rec_id = \<lparr>page = 1, slot = 0\<rparr>, rec_data = replicate 5 9\<rparr>
       = (RC_OK, fst updatedA, snd updatedA)
   \<and> fst (getRecord 16 (fst updatedA) (snd updatedA) \<lparr>page = 1, slot = 0\<rparr> (createRecord 5)) = RC_OK
   \<and> rec_data (snd (snd (snd (getRecord 16 (fst updatedA) (snd updatedA) \<lparr>page = 1, slot = 0\<rparr>
                                   (createRecord 5))))) = [9, 9, 9, 9, 9]
   \<and> rec_data (rec5 7) = [7, 7, 7, 7, 7]"
  by code_simp

text \<open>
  Claim C1, amended. Take a table in a state reached from a new table by well-formed calls
  that left the file smaller than \<open>2^31\<close> bytes, and a record of at least \<open>recordSize\<close>
  bytes for which \<open>insertRecord\<close> returns \<open>RC_OK\<close> and the record \<open>r1\<close> with its RID. Let a
  sequence of calls follow that return: each of them well-formed, which is a slot number
  within the slot capacity, a record buffer of at least \<open>recordSize\<close> bytes and no delete
  that names page 0, and none of them a delete or an update of that RID; and let the file
  be smaller than \<open>2^31\<close> bytes after them. Then \<open>getRecord\<close> of the RID, into a buffer of at
  least \<open>recordSize\<close> bytes, returns \<open>RC_OK\<close>, the RID of the output record is that RID, and
  its first \<open>recordSize\<close> bytes are those of the inserted record. The table is again in a
  state reached by well-formed calls, so that no counter and no offset has overflowed on
  the way.
\<close>

theorem get_after_insert:
  assumes "reachable ps catalog recSize (tbl, disk)"
    and "4 \<le> ps" and "ps < 2 ^ 31" and "length catalog < ps"
    and "recSize \<le> length (rec_data r)"
    and "insertRecord fuel ps tbl disk r = Some (RC_OK, tbl1, disk1, r1)"
    and "\<forall>c\<in>set calls. validCall ps recSize c \<and> target c \<noteq> Some (rec_id r1)"
    and "rmCalls fuel' ps calls (tbl1, disk1) = Some (tbl2, disk2)"
    and "fileFits ps disk2"
    and "recSize \<le> length (rec_data out)"
  shows "(\<exists>tbl3 disk3 out'.
            getRecord ps tbl2 disk2 (rec_id r1) out = (RC_OK, tbl3, disk3, out')
            \<and> rec_id out' = rec_id r1
            \<and> take recSize (rec_data out') = take recSize (rec_data r))
         \<and> reachable ps catalog recSize (tbl2, disk2)"
proof -
  have inv: "tableInv ps tbl disk" and rs: "recordSize tbl = recSize"
    using reachable_tableInv [OF assms(1-4)] by simp_all
  have rdy: "tableReady ps tbl disk" by (rule tableInv_D(1) [OF inv])
  have rl: "recordSize tbl \<le> length (rec_data r)" using assms(5) rs by simp
  let ?b = "take (recordSize tbl) (rec_data r)"
  have i: "recordAt ps tbl1 disk1 (rec_id r1) ?b" "tableReady ps tbl1 disk1"
    "recordSize tbl1 = recordSize tbl"
    using insert_recordAt [OF rdy rl assms(6)] by simp_all
  have v: "\<forall>c\<in>set calls. validCall ps (recordSize tbl1) c \<and> target c \<noteq> Some (rec_id r1)"
    using assms(7) i(3) rs by simp
  have k: "recordAt ps tbl2 disk2 (rec_id r1) ?b" "tableReady ps tbl2 disk2"
    "recordSize tbl2 = recordSize tbl"
    using recordAt_rmCalls [OF i(1,2) v assms(8)] i(3) by simp_all
  have ro: "recordSize tbl2 \<le> length (rec_data out)" using assms(10) k(3) rs by simp
  have g: "\<exists>tbl3 disk3 out'.
            getRecord ps tbl2 disk2 (rec_id r1) out = (RC_OK, tbl3, disk3, out')
            \<and> rec_id out' = rec_id r1
            \<and> take recSize (rec_data out') = take recSize (rec_data r)"
    using get_recordAt [OF k(1,2) ro] k(3) rs by auto
  have v1: "\<forall>c\<in>set calls. validCall ps (recordSize tbl1) c" using v by simp
  have "length disk1 \<le> length disk2" using rmCalls_length [OF i(2) v1 assms(8)] by simp
  then have f1: "fileFits ps disk1" by (rule fileFits_shorter [OF assms(9)])
  have c1: "rmCall fuel ps (Insert r) (tbl, disk) = Some (RC_OK, tbl1, disk1)"
    using assms(6) by simp
  have vi: "validCall ps recSize (Insert r)" using assms(5) by simp
  have r1: "reachable ps catalog recSize (tbl1, disk1)"
    by (rule reachable.called [OF assms(1) vi c1]) (use f1 in simp)
  have v2: "\<forall>c\<in>set calls. validCall ps recSize c" using assms(7) by simp
  have "reachable ps catalog recSize (tbl2, disk2)"
    by (rule rmCalls_reachable [OF r1 v2 assms(8) _ assms(2-4)]) (use assms(9) in simp)
  then show ?thesis using g by simp
qed

text \<open>
  The theorem at the new table \<open>tableA\<close>, the record with the bytes 7 and the calls
  \<open>otherCalls\<close>, which insert two records, delete one of them, update the other and get a
  free slot.
\<close>

theorem get_after_insert_witness:
  "\<exists>tbl3 disk3 out'.
     getRecord 16 (fst laterA) (snd laterA) \<lparr>page = 1, slot = 0\<rparr> (createRecord 5)
       = (RC_OK, tbl3, disk3, out')
     \<and> rec_id out' = \<lparr>page = 1, slot = 0\<rparr>
     \<and> take 5 (rec_data out') = [7, 7, 7, 7, 7]"
proof -
  let ?r1 = "(rec5 7)\<lparr>rec_id := \<lparr>page = 1, slot = 0\<rparr>\<rparr>"
  have "reachable 16 catalogA 5 tableA" unfolding tableA_def by (rule reachable.created)
  then have h1: "reachable 16 catalogA 5 (fst tableA, snd tableA)" by simp
  have h2: "(4::nat) \<le> 16" by simp
  have h3: "(16::nat) < 2 ^ 31" by simp
  have h4: "length catalogA < 16" by code_simp
  have h5: "5 \<le> length (rec_data (rec5 7))" by code_simp
  have h6: "insertRecord 2 16 (fst tableA) (snd tableA) (rec5 7)
              = Some (RC_OK, fst oneRecord, snd oneRecord, ?r1)" by code_simp
  have h7: "\<forall>c\<in>set otherCalls. validCall 16 5 c \<and> target c \<noteq> Some (rec_id ?r1)" by code_simp
  have h8: "rmCalls 2 16 otherCalls (fst oneRecord, snd oneRecord) = Some (fst laterA, snd laterA)"
    by code_simp
  have l: "length (snd laterA) = 3" by code_simp
  have h9: "fileFits 16 (snd laterA)" by (simp add: fileFits_def l)
  have h10: "5 \<le> length (rec_data (createRecord 5))" by code_simp
  have f: "take 5 (rec_data (rec5 7)) = [7, 7, 7, 7, 7]
           \<and> rec_id ?r1 = \<lparr>page = 1, slot = 0\<rparr>" by code_simp
  show ?thesis
    using get_after_insert [OF h1 h2 h3 h4 h5 h6 h7 h8 h9 h10] f by simp
qed

subsection \<open>The number of records\<close>

text \<open>
  Claim C2 as stated fails at the new table \<open>tableB\<close>, whose pages have 64 bytes and ten
  slots and whose attribute has a name of one character with code 1, so that byte 11 of
  the catalog page is 1. \<open>deleteRecord\<close> of the RID (0, 7), whose slot number is within
  the slot capacity, finds the usage byte 1 at byte 11 of page 0, returns \<open>RC_OK\<close> and
  decrements \<open>numTuples\<close>: it is -1, and both sums over the data pages are 0.
\<close>

theorem catalog_delete_counterexample:
  "catalogB ! 11 = 1 \<and> computeMaxSlots 64 5 = 10
   \<and> rmCall 1 64 (Delete \<lparr>page = 0, slot = 7\<rparr>) tableB = Some (RC_OK, deletedB)
   \<and> numTuples (fst deletedB) = - 1
   \<and> slotsUsedSum (fst deletedB) (snd deletedB) = 0
   \<and> usedFlagsSum 64 (fst deletedB) (snd deletedB) = 0"
  by code_simp

text \<open>
  Claim C2, amended: no \<open>deleteRecord\<close> names page 0, and the file stays smaller than
  \<open>2^31\<close> bytes. Take a table created with a page size of at least 4 bytes that is an \<open>int\<close>
  and a catalog text that fits in page 0. In every state reached from the new table by
  calls of \<open>insertRecord\<close>, \<open>deleteRecord\<close>, \<open>updateRecord\<close> and \<open>getRecord\<close> that return and
  leave the file smaller than \<open>2^31\<close> bytes, with slot numbers within the slot capacity,
  records of at least \<open>recordSize\<close> bytes and no delete that names page 0, \<open>numTuples\<close> is the
  sum of the \<open>slotsUsed\<close> headers of the data pages, which is the number of usage bytes
  with value 1 on the data pages; and \<open>numTuples\<close> is representable in \<open>int\<close>.
\<close>

theorem counters_agree:
  assumes "reachable ps catalog recSize (tbl, disk)"
    and "4 \<le> ps" and "ps < 2 ^ 31" and "length catalog < ps"
  shows "numTuples tbl = slotsUsedSum tbl disk \<and> slotsUsedSum tbl disk = usedFlagsSum ps tbl disk
         \<and> 0 \<le> numTuples tbl \<and> numTuples tbl < 2 ^ 31"
proof -
  have inv: "tableInv ps tbl disk" using reachable_tableInv [OF assms] by simp
  show ?thesis using tableInv_sums [OF inv] tableInv_numTuples [OF inv] by simp
qed

text \<open>
  The theorem at the table \<open>stateA\<close>, reached by four inserts and a delete: three records
  are counted, on two data pages.
\<close>

theorem counters_agree_witness:
  "numTuples (fst stateA) = 3 \<and> slotsUsedSum (fst stateA) (snd stateA) = 3
   \<and> usedFlagsSum 16 (fst stateA) (snd stateA) = 3 \<and> length (snd stateA) = 3"
proof -
  have r: "rmCalls 2 16 fiveCalls (newTable 16 catalogA 5) = Some stateA" by code_simp
  have v: "\<forall>c\<in>set fiveCalls. validCall 16 5 c" by code_simp
  have f: "numTuples (fst stateA) = 3 \<and> length (snd stateA) = 3" by code_simp
  have ff: "fileFits 16 (snd stateA)" using f by (simp add: fileFits_def)
  have h2: "(4::nat) \<le> 16" by simp
  have h3: "(16::nat) < 2 ^ 31" by simp
  have h4: "length catalogA < 16" by code_simp
  have "reachable 16 catalogA 5 stateA"
    by (rule rmCalls_reachable [OF reachable.created v r ff h2 h3 h4])
  then have h1: "reachable 16 catalogA 5 (fst stateA, snd stateA)" by simp
  show ?thesis
    using counters_agree [OF h1 h2 h3 h4] f by simp
qed

subsection \<open>Attributes of a record\<close>

lemma take_drop_memcpy:
  assumes "memcpy dst (int off) src 0 n = Some r" "n \<le> length src"
  shows "take n (drop off r) = take n src" "length r = length dst" "off + n \<le> length dst"
  using assms by (auto simp: memcpy_def split: if_splits)

lemma length_strncpy: "length (strncpy s n) = n"
  by (simp add: strncpy_def)

lemma attrOffset_Suc: "attrOffset schema (Suc a) = attrOffset schema a + attrSize schema a"
  by (simp add: attrOffset_def)

lemma attrOffset_mono: "a \<le> b \<Longrightarrow> attrOffset schema a \<le> attrOffset schema b"
proof (induction b)
  case 0
  then show ?case by simp
next
  case (Suc b)
  then show ?case by (cases "a = Suc b") (simp_all add: attrOffset_Suc)
qed

lemma attr_fits:
  assumes "attrNum < numAttr schema" "computeRecordSize schema \<le> length (rec_data record)"
  shows "attrOffset schema attrNum + attrSize schema attrNum \<le> length (rec_data record)"
proof -
  have "attrOffset schema (Suc attrNum) \<le> attrOffset schema (numAttr schema)"
    by (rule attrOffset_mono) (use assms(1) in simp)
  then show ?thesis using assms(2) by (simp add: attrOffset_Suc computeRecordSize_def)
qed

text \<open>
  Claim C9. Let \<open>attrNum\<close> be an attribute of the schema, \<open>v\<close> a value of its type, and let
  the record have room for the attribute, as every record of at least
  \<open>computeRecordSize schema\<close> bytes has. Then \<open>setAttr\<close> stores the value and \<open>getAttr\<close> on
  the result reads \<open>storedValue schema attrNum v\<close>: the value itself for an integer, a float
  and a boolean; for a string its characters, cut after \<open>typeLength\<close> characters if there
  are more and filled with zeros up to \<open>typeLength\<close> if there are fewer, followed by one
  zero byte. The RID and the length of the record are unchanged.
\<close>

theorem setAttr_getAttr:
  assumes "attrNum < numAttr schema"
    and "valueType v = dataTypes schema ! attrNum"
    and "attrOffset schema attrNum + attrSize schema attrNum \<le> length (rec_data record)"
  shows "\<exists>record'. setAttr record schema attrNum v = Some record'
           \<and> getAttr record' schema attrNum = Some (storedValue schema attrNum v)
           \<and> rec_id record' = rec_id record
           \<and> length (rec_data record') = length (rec_data record)"
proof (cases v)
  case (IntV w)
  then have dt: "dataTypes schema ! attrNum = DT_INT" using assms(2) by simp
  then have fit: "attrOffset schema attrNum + 4 \<le> length (rec_data record)"
    using assms(3) by (simp add: attrSize_def)
  then obtain d where d: "memcpy (rec_data record) (int (attrOffset schema attrNum)) (wordBytes w) 0 4 = Some d"
    by (simp add: memcpy_def length_wordBytes)
  have "take 4 (drop (attrOffset schema attrNum) d) = wordBytes w" "length d = length (rec_data record)"
    using take_drop_memcpy [OF d] by (simp_all add: length_wordBytes)
  then show ?thesis using IntV dt d assms(1) fit
    by (simp add: setAttr_def getAttr_def bytesWord_wordBytes)
next
  case (FloatV w)
  then have dt: "dataTypes schema ! attrNum = DT_FLOAT" using assms(2) by simp
  then have fit: "attrOffset schema attrNum + 4 \<le> length (rec_data record)"
    using assms(3) by (simp add: attrSize_def)
  then obtain d where d: "memcpy (rec_data record) (int (attrOffset schema attrNum)) (wordBytes w) 0 4 = Some d"
    by (simp add: memcpy_def length_wordBytes)
  have "take 4 (drop (attrOffset schema attrNum) d) = wordBytes w" "length d = length (rec_data record)"
    using take_drop_memcpy [OF d] by (simp_all add: length_wordBytes)
  then show ?thesis using FloatV dt d assms(1) fit
    by (simp add: setAttr_def getAttr_def bytesWord_wordBytes)
next
  case (BoolV b)
  then have dt: "dataTypes schema ! attrNum = DT_BOOL" using assms(2) by simp
  then have fit: "attrOffset schema attrNum + 1 \<le> length (rec_data record)"
    using assms(3) by (simp add: attrSize_def)
  then obtain d where d: "memcpy (rec_data record) (int (attrOffset schema attrNum)) [if b then 1 else 0] 0 1 = Some d"
    by (simp add: memcpy_def)
  have t: "take 1 (drop (attrOffset schema attrNum) d) = [if b then 1 else 0]" and l: "length d = length (rec_data record)"
    using take_drop_memcpy [OF d] by simp_all
  have "d ! attrOffset schema attrNum = (if b then 1 else 0)"
  proof -
    have "attrOffset schema attrNum < length d" using fit l by simp
    then have "drop (attrOffset schema attrNum) d
                 = d ! attrOffset schema attrNum # drop (Suc (attrOffset schema attrNum)) d"
      by (simp add: Cons_nth_drop_Suc)
    then have "take 1 (drop (attrOffset schema attrNum) d) = [d ! attrOffset schema attrNum]"
      by simp
    then show ?thesis using t by simp
  qed
  then show ?thesis using BoolV dt d assms(1) fit l
    by (simp add: setAttr_def getAttr_def)
next
  case (StringV s)
  then have dt: "dataTypes schema ! attrNum = DT_STRING" using assms(2) by simp
  let ?len = "typeLength schema ! attrNum"
  have fit: "attrOffset schema attrNum + ?len \<le> length (rec_data record)"
    using assms(3) dt by (simp add: attrSize_def)
  then obtain d where d: "memcpy (rec_data record) (int (attrOffset schema attrNum)) (strncpy s ?len) 0 ?len = Some d"
    by (simp add: memcpy_def length_strncpy)
  have "take ?len (drop (attrOffset schema attrNum) d) = strncpy s ?len" "length d = length (rec_data record)"
    using take_drop_memcpy [OF d] by (simp_all add: length_strncpy)
  then show ?thesis using StringV dt d assms(1) fit
    by (simp add: setAttr_def getAttr_def strncpy_def Let_def)
qed

text \<open>
  The theorem at the schema \<open>schemaB\<close> and its string attribute of length 4: the string
  \<open>abcdef\<close> is read back as \<open>abcd\<close>, the string \<open>ab\<close> as \<open>ab\<close> and two zeros, each with the
  terminating zero.
\<close>

theorem setAttr_getAttr_witness:
  "(\<exists>record'. setAttr recordB schemaB 1 (StringV [97, 98, 99, 100, 101, 102, 0]) = Some record'
       \<and> getAttr record' schemaB 1 = Some (StringV [97, 98, 99, 100, 0]))
   \<and> (\<exists>record'. setAttr recordB schemaB 1 (StringV [97, 98, 0]) = Some record'
       \<and> getAttr record' schemaB 1 = Some (StringV [97, 98, 0, 0, 0]))"
proof -
  have h1: "1 < numAttr schemaB" by code_simp
  have h2: "valueType (StringV [97, 98, 99, 100, 101, 102, 0]) = dataTypes schemaB ! 1" by code_simp
  have h2': "valueType (StringV [97, 98, 0]) = dataTypes schemaB ! 1" by code_simp
  have h3: "attrOffset schemaB 1 + attrSize schemaB 1 \<le> length (rec_data recordB)" by code_simp
  have f: "storedValue schemaB 1 (StringV [97, 98, 99, 100, 101, 102, 0]) = StringV [97, 98, 99, 100, 0]"
    by code_simp
  have f': "storedValue schemaB 1 (StringV [97, 98, 0]) = StringV [97, 98, 0, 0, 0]"
    by code_simp
  show ?thesis
    using setAttr_getAttr [OF h1 h2 h3] setAttr_getAttr [OF h1 h2' h3] f f' by auto
qed

end
